(* ===== verification/Prelude.thy ===== *)
theory Prelude
  imports Main "HOL-Library.Word"
begin

text \<open>
  Shared vocabulary of the development.

  The program is C. A call may end in three ways: it returns a value, it runs into
  undefined behaviour (an access outside a block, a null or dangling pointer, a
  double free, an overflow of a stack buffer), or it never returns (an endless loop, or
  a lock that nobody releases). The type \<open>'a run\<close> has one value for each:
  \<open>Some (Ret x)\<close>, \<open>Some UB\<close> and \<open>None\<close>. Loops that may not end are
  \<open>partial_function (option)\<close> over this type, so that not returning is \<open>None\<close>.

  Widths: \<open>unsigned int\<close> is a 32 bit word, with wrap-around; \<open>size_t\<close> is a natural
  number (an object size or an index), with every wrap-around the code can reach written
  out; \<open>int\<close> return codes are integers. The machine is little-endian, with 4 byte
  \<open>unsigned int\<close> and 8 byte \<open>size_t\<close> and pointers (x86-64 Linux, the target of
  the Makefile).

  What the C library decides (whether an allocation succeeds, what fresh memory holds,
  what a system call returns) is the record \<open>env\<close>, an argument of each function that
  depends on it.
\<close>

named_theorems effects \<comment> \<open>what a call that returns has done, as \<open>on_ret\<close> facts\<close>

type_synonym u32 = "32 word"
type_synonym u16 = "16 word"
type_synonym byte = "8 word"

section \<open>Results of a call\<close>

datatype 'a res = Ret 'a | UB

type_synonym 'a run = "'a res option"

abbreviation ret :: "'a \<Rightarrow> 'a run" where "ret x \<equiv> Some (Ret x)"
abbreviation ub :: "'a run" where "ub \<equiv> Some UB"
abbreviation hang :: "'a run" where "hang \<equiv> None"

definition res_bind :: "'a res \<Rightarrow> ('a \<Rightarrow> 'b run) \<Rightarrow> 'b run" where
  "res_bind r f = (case r of Ret x \<Rightarrow> f x | UB \<Rightarrow> ub)"

definition bnd :: "'a run \<Rightarrow> ('a \<Rightarrow> 'b run) \<Rightarrow> 'b run" where
  "bnd m f = Option.bind m (\<lambda>r. res_bind r f)"

lemma bnd_simps [simp]:
  "bnd (ret x) f = f x"
  "bnd ub f = ub"
  "bnd hang f = hang"
  by (simp_all add: bnd_def res_bind_def)

lemma bnd_eq_ret: "bnd m f = ret y \<longleftrightarrow> (\<exists>x. m = ret x \<and> f x = ret y)"
  by (cases m) (auto simp: bnd_def res_bind_def split: res.splits)

lemma bnd_eq_ub: "bnd m f = ub \<longleftrightarrow> m = ub \<or> (\<exists>x. m = ret x \<and> f x = ub)"
  by (cases m) (auto simp: bnd_def res_bind_def split: res.splits)

lemma bnd_eq_hang: "bnd m f = hang \<longleftrightarrow> m = hang \<or> (\<exists>x. m = ret x \<and> f x = hang)"
  by (cases m) (auto simp: bnd_def res_bind_def split: res.splits)

lemma bnd_assoc: "bnd (bnd m f) g = bnd m (\<lambda>x. bnd (f x) g)"
  by (cases m) (auto simp: bnd_def res_bind_def split: res.splits)

lemma bnd_cong [fundef_cong]:
  "m = m' \<Longrightarrow> (\<And>x. m' = ret x \<Longrightarrow> f x = f' x) \<Longrightarrow> bnd m f = bnd m' f'"
  by (cases m') (auto simp: bnd_def res_bind_def split: res.splits)

lemma res_bind_mono [partial_function_mono]:
  assumes "\<And>y. mono_option (\<lambda>f. C y f)"
  shows "mono_option (\<lambda>f. res_bind r (\<lambda>y. C y f))"
  using assms by (cases r) (auto simp: res_bind_def intro: option.const_mono)

lemma bnd_mono [partial_function_mono]:
  assumes "mono_option B" and "\<And>y. mono_option (\<lambda>f. C y f)"
  shows "mono_option (\<lambda>f. bnd (B f) (\<lambda>y. C y f))"
  unfolding bnd_def
  by (rule bind_mono [OF assms(1)]) (rule res_bind_mono [OF assms(2)])

text \<open>A call returns when it ends without undefined behaviour.\<close>

definition returns :: "'a run \<Rightarrow> bool" where
  "returns m \<longleftrightarrow> (\<exists>x. m = ret x)"

lemma returns_simps [simp]: "returns (ret x)" "\<not> returns ub" "\<not> returns hang"
  by (simp_all add: returns_def)

text \<open>What holds of the result of a call whenever it returns: a weakest precondition.\<close>

definition on_ret :: "'a run \<Rightarrow> ('a \<Rightarrow> bool) \<Rightarrow> bool" where
  "on_ret m P \<longleftrightarrow> (\<forall>x. m = ret x \<longrightarrow> P x)"

lemma on_ret_simps [simp]: "on_ret (ret x) P \<longleftrightarrow> P x" "on_ret ub P" "on_ret hang P"
  by (simp_all add: on_ret_def)

lemma on_ret_bnd [simp]: "on_ret (bnd m f) P \<longleftrightarrow> on_ret m (\<lambda>x. on_ret (f x) P)"
  by (auto simp: on_ret_def bnd_eq_ret)

lemma on_ret_if [simp]:
  "on_ret (if c then m else m') P \<longleftrightarrow> (c \<longrightarrow> on_ret m P) \<and> (\<not> c \<longrightarrow> on_ret m' P)"
  by simp

lemma on_ret_mono: "on_ret m P \<Longrightarrow> (\<And>x. P x \<Longrightarrow> Q x) \<Longrightarrow> on_ret m Q"
  by (simp add: on_ret_def)

lemma on_ret_conj: "on_ret m P \<Longrightarrow> on_ret m Q \<Longrightarrow> on_ret m (\<lambda>x. P x \<and> Q x)"
  by (simp add: on_ret_def)

lemma on_retD: "on_ret m P \<Longrightarrow> m = ret x \<Longrightarrow> P x"
  by (simp add: on_ret_def)

lemma on_ret_triv [simp]:
  "on_ret m (\<lambda>_. True)" "on_ret m2 (\<lambda>(_, _). True)" "on_ret m3 (\<lambda>(_, _, _). True)"
  by (auto simp: on_ret_def)

lemma on_ret_any: "(\<And>x. P x) \<Longrightarrow> on_ret m P"
  by (simp add: on_ret_def)

section \<open>Error codes (include/error.h)\<close>

datatype error_codes =
    ERROR_MEMORY | ERROR_QUEUE | ERROR_ADDR_NOT_FOUND | ERROR_SOCKET | ERROR_SEND
  | ERROR_CLOSE | ERROR_ACK_LOCK | ERROR_LOCK | ERROR_PID | ERROR_BIND | ERROR_THREAD
  | ERROR_NETWORK | ERROR_IO | ERROR_CONDITION | ERROR_MUTEX | ERROR_FILE | ERROR_ARGS
  | ERROR_TABLE | ERROR_POINTER

fun err :: "error_codes \<Rightarrow> int" where
  "err ERROR_MEMORY = -128"
| "err ERROR_QUEUE = -127"
| "err ERROR_ADDR_NOT_FOUND = -126"
| "err ERROR_SOCKET = -125"
| "err ERROR_SEND = -124"
| "err ERROR_CLOSE = -123"
| "err ERROR_ACK_LOCK = -122"
| "err ERROR_LOCK = -121"
| "err ERROR_PID = -120"
| "err ERROR_BIND = -119"
| "err ERROR_THREAD = -118"
| "err ERROR_NETWORK = -117"
| "err ERROR_IO = -116"
| "err ERROR_CONDITION = -115"
| "err ERROR_MUTEX = -114"
| "err ERROR_FILE = -113"
| "err ERROR_ARGS = -112"
| "err ERROR_TABLE = -111"
| "err ERROR_POINTER = -110"

lemma err_neg [simp]: "err e < 0"
  by (cases e) simp_all

lemma err_nz [simp]: "err e \<noteq> 0"
  by (cases e) simp_all

lemma inj_err: "err a = err b \<longleftrightarrow> a = b"
  by (cases a; cases b) simp_all

section \<open>Memory blocks\<close>

text \<open>
  A pointer to an array on the heap: null, a live block with its contents, or a pointer
  that must not be used (uninitialised, or to a block that has been freed).
\<close>

datatype 'a ptr = Null | Wild | Arr "'a list"

definition load :: "'a ptr \<Rightarrow> nat \<Rightarrow> 'a run" where
  "load p i = (case p of Arr xs \<Rightarrow> if i < length xs then ret (xs ! i) else ub | _ \<Rightarrow> ub)"

definition store :: "'a ptr \<Rightarrow> nat \<Rightarrow> 'a \<Rightarrow> 'a ptr run" where
  "store p i v = (case p of Arr xs \<Rightarrow> if i < length xs then ret (Arr (xs[i := v])) else ub | _ \<Rightarrow> ub)"

text \<open>\<open>free\<close>: a null pointer is accepted, a live block becomes unusable.\<close>

definition free :: "'a ptr \<Rightarrow> 'a ptr run" where
  "free p = (case p of Null \<Rightarrow> ret Null | Wild \<Rightarrow> ub | Arr _ \<Rightarrow> ret Wild)"

text \<open>The first \<open>n\<close> elements of a block, as \<open>memcpy\<close> reads them.\<close>

definition read_block :: "'a ptr \<Rightarrow> nat \<Rightarrow> 'a list run" where
  "read_block p n = (case p of Arr xs \<Rightarrow> if n \<le> length xs then ret (take n xs) else ub | _ \<Rightarrow> ub)"

lemma load_Arr [simp]: "i < length xs \<Longrightarrow> load (Arr xs) i = ret (xs ! i)"
  and store_Arr [simp]: "i < length xs \<Longrightarrow> store (Arr xs) i v = ret (Arr (xs[i := v]))"
  and load_bad [simp]: "load Null i = ub" "load Wild i = ub"
  and store_bad [simp]: "store Null i v = ub" "store Wild i v = ub"
  and load_oob [simp]: "length xs \<le> i \<Longrightarrow> load (Arr xs) i = ub"
  and store_oob [simp]: "length xs \<le> i \<Longrightarrow> store (Arr xs) i v = ub"
  and free_simps [simp]: "free Null = ret Null" "free Wild = ub" "free (Arr xs) = ret Wild"
  and read_block_Arr [simp]: "n \<le> length xs \<Longrightarrow> read_block (Arr xs) n = ret (take n xs)"
  and read_block_bad [simp]: "read_block Null n = ub" "read_block Wild n = ub"
  and read_block_oob [simp]: "length xs < n \<Longrightarrow> read_block (Arr xs) n = ub"
  by (simp_all add: load_def store_def free_def read_block_def)

lemma load_eq_ret: "load p i = ret x \<longleftrightarrow> (\<exists>xs. p = Arr xs \<and> i < length xs \<and> x = xs ! i)"
  by (auto simp: load_def split: ptr.splits)

lemma store_eq_ret: "store p i v = ret q \<longleftrightarrow> (\<exists>xs. p = Arr xs \<and> i < length xs \<and> q = Arr (xs[i := v]))"
  by (auto simp: store_def split: ptr.splits)

lemma read_block_eq_ret:
  "read_block p n = ret ys \<longleftrightarrow> (\<exists>xs. p = Arr xs \<and> n \<le> length xs \<and> ys = take n xs)"
  by (auto simp: read_block_def split: ptr.splits)

section \<open>The environment: what the C library and the system decide\<close>

text \<open>
  \<^item> \<open>grant n\<close>: an allocation of \<open>n\<close> bytes succeeds;
  \<^item> \<open>junk i\<close>: word \<open>i\<close> of a block that has not been written;
  \<^item> \<open>mutex_init_ok\<close>: \<open>pthread_mutex_init\<close> returns 0;
  \<^item> \<open>sendto_ok k\<close>: the \<open>sendto\<close> that follows \<open>k\<close> datagrams is accepted by the kernel;
  \<^item> \<open>fwritten n\<close>: how many of \<open>n\<close> bytes one \<open>fwrite\<close> writes;
  \<^item> \<open>fopen_ok\<close>, \<open>bind_ok\<close>, \<open>cancel_ok\<close>: the call of that name succeeds;
  \<^item> \<open>new_socket k\<close>: what the \<open>k\<close>th call of \<open>socket\<close> returns, negative for a failure;
  \<^item> \<open>thread_ok k\<close>: the \<open>k\<close>th call of \<open>pthread_create\<close> succeeds;
  \<^item> \<open>canceltype_ok\<close>: \<open>pthread_setcanceltype\<close> returns 0 in a thread that starts.
\<close>

record env =
  grant :: "nat \<Rightarrow> bool"
  junk :: "nat \<Rightarrow> u32"
  mutex_init_ok :: bool
  sendto_ok :: "nat \<Rightarrow> bool"
  fwritten :: "nat \<Rightarrow> nat"
  fopen_ok :: bool
  new_socket :: "nat \<Rightarrow> int"
  bind_ok :: bool
  thread_ok :: "nat \<Rightarrow> bool"
  cancel_ok :: bool
  canceltype_ok :: bool

text \<open>An environment in which every request succeeds and fresh memory is zero.\<close>

definition good_env :: env where
  "good_env = \<lparr>grant = (\<lambda>_. True), junk = (\<lambda>_. 0), mutex_init_ok = True,
     sendto_ok = (\<lambda>_. True), fwritten = (\<lambda>n. n), fopen_ok = True, new_socket = (\<lambda>k. int k + 3),
     bind_ok = True, thread_ok = (\<lambda>_. True), cancel_ok = True,
     canceltype_ok = True\<rparr>"

lemma good_env_sel [simp]:
  "grant good_env n" "junk good_env i = 0" "mutex_init_ok good_env" "sendto_ok good_env k"
  "fwritten good_env n = n" "fopen_ok good_env" "bind_ok good_env"
  "new_socket good_env k = int k + 3" "thread_ok good_env i" "cancel_ok good_env"
  "canceltype_ok good_env"
  by (simp_all add: good_env_def)

text \<open>An environment with enough memory.\<close>

definition with_memory :: "env \<Rightarrow> env" where
  "with_memory e = e\<lparr>grant := (\<lambda>_. True)\<rparr>"

lemma grant_with_memory [simp]: "grant (with_memory e) n"
  by (simp add: with_memory_def)

section \<open>Lists and words\<close>

lemma nth_list_update_if: "i < length xs \<Longrightarrow> (xs[i := v]) ! j = (if i = j then v else xs ! j)"
  by (auto simp: nth_list_update)

lemma u32_le_nat: "(a :: u32) \<le> b \<longleftrightarrow> unat a \<le> unat b"
  by (rule word_le_nat_alt)

lemma u32_less_nat: "(a :: u32) < b \<longleftrightarrow> unat a < unat b"
  by (rule word_less_nat_alt)

lemma unat_u32_lt: "unat (x :: u32) < 4294967296"
  using unsigned_less [of x] by simp

lemma unat_mult_u32: "unat a * unat b < 2 ^ 32 \<Longrightarrow> unat (a * b :: u32) = unat a * unat b"
  by (simp add: unat_word_ariths)

lemma unat_add_u32: "unat a + unat b < 2 ^ 32 \<Longrightarrow> unat (a + b :: u32) = unat a + unat b"
  by (simp add: unat_word_ariths)

lemma unat_sub_u32: "unat b \<le> unat a \<Longrightarrow> unat (a - b :: u32) = unat a - unat b"
  by (simp add: unat_sub word_le_nat_alt)

lemma unat_of_nat_u32: "n < 2 ^ 32 \<Longrightarrow> unat (of_nat n :: u32) = n"
  by (simp add: unat_of_nat take_bit_nat_eq_self)

end
