(* ===== verification/Stores.thy ===== *)
theory Stores
  imports Prelude
begin

text \<open>
  Interfaces shared by the tables of the program.

  Every layer keeps tables indexed by a process id or by a message id: the address book,
  the dependency matrix, the acknowledgement and delivery tables, the pending bits. What
  a client relies on is the same each time and is stated here once: an indexed store
  (write an entry, read it back, the others are unchanged) and a flag store (a mark is
  never lost, marking twice is marking once). The theories of the components interpret
  these locales on the model of the code.
\<close>

section \<open>Indexed stores\<close>

text \<open>Writing a list of entries, one call after the other, as the loops of the clients do.\<close>

fun write_all :: "('s \<Rightarrow> 'k \<Rightarrow> 'v \<Rightarrow> 's run) \<Rightarrow> 's \<Rightarrow> ('k \<times> 'v) list \<Rightarrow> 's run" where
  "write_all w s [] = ret s"
| "write_all w s ((k, v) # kvs) = bnd (w s k v) (\<lambda>s'. write_all w s' kvs)"

locale indexed_store =
  fixes inv :: "'s \<Rightarrow> bool"
    and keys :: "'s \<Rightarrow> 'k set"
    and get :: "'s \<Rightarrow> 'k \<Rightarrow> 'v run"
    and put :: "'s \<Rightarrow> 'k \<Rightarrow> 'v \<Rightarrow> 's run"
  assumes write_ok: "inv s \<Longrightarrow> k \<in> keys s \<Longrightarrow>
      \<exists>s'. put s k v = ret s' \<and> inv s' \<and> keys s' = keys s
         \<and> (\<forall>j \<in> keys s. get s' j = (if j = k then ret v else get s j))"
    and read_ok: "inv s \<Longrightarrow> k \<in> keys s \<Longrightarrow> returns (get s k)"
begin

lemma write_readE:
  assumes "inv s" "k \<in> keys s"
  obtains s' where "put s k v = ret s'" "inv s'" "keys s' = keys s"
    "\<And>j. j \<in> keys s \<Longrightarrow> get s' j = (if j = k then ret v else get s j)"
  using write_ok [OF assms, of v] by blast

text \<open>After a series of writes each key reads as its last write, or as before.\<close>

lemma write_all_ok:
  assumes "inv s" and "fst ` set kvs \<subseteq> keys s"
  shows "\<exists>s'. write_all put s kvs = ret s' \<and> inv s' \<and> keys s' = keys s
     \<and> (\<forall>j \<in> keys s. get s' j = (case map_of (rev kvs) j of Some v \<Rightarrow> ret v | None \<Rightarrow> get s j))"
  using assms
proof (induction kvs arbitrary: s)
  case Nil
  then show ?case by simp
next
  case (Cons kv kvs)
  obtain k v where kv: "kv = (k, v)" by (cases kv)
  with Cons.prems have k: "k \<in> keys s" by simp
  from write_readE [OF Cons.prems(1) k, of v] obtain s1
    where s1: "put s k v = ret s1" "inv s1" "keys s1 = keys s"
      and rd: "\<And>j. j \<in> keys s \<Longrightarrow> get s1 j = (if j = k then ret v else get s j)" by blast
  from Cons.IH [OF s1(2)] Cons.prems(2) s1(3) obtain s'
    where s': "write_all put s1 kvs = ret s'" "inv s'" "keys s' = keys s"
      and rd': "\<forall>j \<in> keys s. get s' j
          = (case map_of (rev kvs) j of Some v \<Rightarrow> ret v | None \<Rightarrow> get s1 j)" by auto
  have "\<forall>j \<in> keys s. get s' j
      = (case map_of (rev (kv # kvs)) j of Some v \<Rightarrow> ret v | None \<Rightarrow> get s j)"
    using rd' rd by (auto simp: kv map_add_def split: option.splits)
  with s1(1) s'(1,2,3) show ?case by (simp add: kv)
qed

end

section \<open>Flag stores\<close>

locale flag_store =
  fixes inv :: "'s \<Rightarrow> bool"
    and keys :: "'s \<Rightarrow> 'k set"
    and flag :: "'s \<Rightarrow> 'k \<Rightarrow> u32 run"
    and mark :: "'s \<Rightarrow> 'k \<Rightarrow> 's run"
  assumes mark_ok: "inv s \<Longrightarrow> k \<in> keys s \<Longrightarrow>
      \<exists>s'. mark s k = ret s' \<and> inv s' \<and> keys s' = keys s
         \<and> (\<forall>j \<in> keys s. flag s' j = (if j = k then ret 1 else flag s j))"
    and flag_ok: "inv s \<Longrightarrow> k \<in> keys s \<Longrightarrow> returns (flag s k)"
begin

lemma mark_flagE:
  assumes "inv s" "k \<in> keys s"
  obtains s' where "mark s k = ret s'" "inv s'" "keys s' = keys s" "flag s' k = ret 1"
    "\<And>j. j \<in> keys s \<Longrightarrow> j \<noteq> k \<Longrightarrow> flag s' j = flag s j"
  using mark_ok [OF assms] assms(2) by auto

text \<open>A mark is never lost by a later mark.\<close>

lemma mark_keeps:
  assumes "inv s" "k \<in> keys s" "j \<in> keys s" "flag s j = ret 1" "mark s k = ret s'"
  shows "flag s' j = ret 1"
  using mark_ok [OF assms(1,2)] assms(3-5) by auto

text \<open>Marking twice is observably marking once.\<close>

lemma mark_idem:
  assumes "inv s" "k \<in> keys s"
  shows "\<exists>s1 s2. mark s k = ret s1 \<and> mark s1 k = ret s2
     \<and> (\<forall>j \<in> keys s. flag s2 j = flag s1 j)"
proof -
  from mark_ok [OF assms] obtain s1 where s1: "mark s k = ret s1" "inv s1" "keys s1 = keys s"
    "\<forall>j \<in> keys s. flag s1 j = (if j = k then ret 1 else flag s j)" by blast
  from mark_ok [OF s1(2), of k] s1(3) assms(2) obtain s2 where "mark s1 k = ret s2"
    "\<forall>j \<in> keys s. flag s2 j = (if j = k then ret 1 else flag s1 j)" by auto
  with s1 show ?thesis by auto
qed

end

text \<open>An indexed store of 32 bit words, written with the value 1 only, is a flag store.\<close>

locale word_store = indexed_store inv keys get put
  for inv :: "'s \<Rightarrow> bool" and keys :: "'s \<Rightarrow> 'k set"
    and get :: "'s \<Rightarrow> 'k \<Rightarrow> u32 run" and put :: "'s \<Rightarrow> 'k \<Rightarrow> u32 \<Rightarrow> 's run"
begin

lemma mark_law:
  assumes "inv s" "k \<in> keys s"
  shows "\<exists>s'. put s k 1 = ret s' \<and> inv s' \<and> keys s' = keys s
         \<and> (\<forall>j \<in> keys s. get s' j = (if j = k then ret 1 else get s j))"
  by (rule write_ok [OF assms])

end

sublocale word_store \<subseteq> flags: flag_store inv keys get "\<lambda>s k. put s k 1"
  by unfold_locales (rule mark_law read_ok; assumption)+

section \<open>Queues\<close>

text \<open>
  A queue as its clients use it: a call either fails or returns the new queue. The
  contract is the one of a list: put at the end, take from the front.
\<close>

datatype 'a queue_op = Put 'a | Take

text \<open>Running a sequence of operations collects what the \<open>Take\<close>s return.\<close>

fun run_queue :: "('q \<Rightarrow> 'a \<Rightarrow> 'q run) \<Rightarrow> ('q \<Rightarrow> ('a option \<times> 'q) run) \<Rightarrow> 'q \<Rightarrow> 'a queue_op list
    \<Rightarrow> ('a option list \<times> 'q) run" where
  "run_queue enq deq q [] = ret ([], q)"
| "run_queue enq deq q (Put x # ops) = bnd (enq q x) (\<lambda>q'. run_queue enq deq q' ops)"
| "run_queue enq deq q (Take # ops) = bnd (deq q) (\<lambda>(r, q').
     bnd (run_queue enq deq q' ops) (\<lambda>(rs, q''). ret (r # rs, q'')))"

text \<open>The same operations on a list: the specification.\<close>

fun run_list :: "'a list \<Rightarrow> 'a queue_op list \<Rightarrow> 'a option list \<times> 'a list" where
  "run_list xs [] = ([], xs)"
| "run_list xs (Put x # ops) = run_list (xs @ [x]) ops"
| "run_list [] (Take # ops) = (let (rs, ys) = run_list [] ops in (None # rs, ys))"
| "run_list (x # xs) (Take # ops) = (let (rs, ys) = run_list xs ops in (Some x # rs, ys))"

definition puts :: "'a queue_op list \<Rightarrow> nat" where
  "puts ops = length (filter (\<lambda>op. op \<noteq> Take) ops)"

lemma puts_simps [simp]: "puts [] = 0" "puts (Put x # ops) = Suc (puts ops)" "puts (Take # ops) = puts ops"
  by (simp_all add: puts_def)

locale fifo_queue =
  fixes inv :: "'q \<Rightarrow> bool"
    and contents :: "'q \<Rightarrow> 'a list"
    and bound :: nat
    and enq :: "'q \<Rightarrow> 'a \<Rightarrow> 'q run"
    and deq :: "'q \<Rightarrow> ('a option \<times> 'q) run"
  assumes enq_ok: "inv q \<Longrightarrow> length (contents q) < bound \<Longrightarrow>
      \<exists>q'. enq q x = ret q' \<and> inv q' \<and> contents q' = contents q @ [x]"
    and deq_empty: "inv q \<Longrightarrow> contents q = [] \<Longrightarrow> deq q = ret (None, q)"
    and deq_ok: "inv q \<Longrightarrow> contents q = x # xs \<Longrightarrow>
      \<exists>q'. deq q = ret (Some x, q') \<and> inv q' \<and> contents q' = xs"
begin

text \<open>Every sequence of operations behaves as on the list.\<close>

lemma run_refines:
  assumes "inv q" and "length (contents q) + puts ops \<le> bound"
  shows "\<exists>q'. run_queue enq deq q ops = ret (fst (run_list (contents q) ops), q')
     \<and> inv q' \<and> contents q' = snd (run_list (contents q) ops)"
  using assms
proof (induction ops arbitrary: q)
  case Nil
  then show ?case by simp
next
  case (Cons op ops)
  show ?case
  proof (cases op)
    case (Put x)
    with Cons.prems have "length (contents q) < bound" by simp
    from enq_ok [OF Cons.prems(1) this, of x] obtain q1 where
      q1: "enq q x = ret q1" "inv q1" "contents q1 = contents q @ [x]" by blast
    with Cons.IH [OF q1(2)] Cons.prems(2) Put show ?thesis by simp
  next
    case Take
    show ?thesis
    proof (cases "contents q")
      case Nil
      with Cons.IH [OF Cons.prems(1)] Cons.prems(2) Take deq_empty [OF Cons.prems(1) Nil]
      show ?thesis by (auto split: prod.splits)
    next
      case front: (Cons x xs)
      from deq_ok [OF Cons.prems(1) front] obtain q1 where
        q1: "deq q = ret (Some x, q1)" "inv q1" "contents q1 = xs" by blast
      from Cons.IH [OF q1(2)] Cons.prems(2) Take front q1(3) obtain q' where
        "run_queue enq deq q1 ops = ret (fst (run_list xs ops), q')" "inv q'"
        "contents q' = snd (run_list xs ops)" by auto
      with q1 Take front show ?thesis by (auto split: prod.splits)
    qed
  qed
qed

end

end
