(* ===== verification/AddrBook.thy ===== *)
theory AddrBook
  imports Stores
begin

text \<open>
  The address book (include/addrbook.h, src/addrbook.c): the IPv4 address of every
  process, an array indexed by process id minus one.
\<close>

record sockaddr_in =
  sin_family :: u16
  sin_port :: u16
  sin_addr :: u32

record addr_book =
  ab_num_proc :: nat
  addresses :: "sockaddr_in ptr"

text \<open>\<open>pid - 1\<close> on a 64 bit \<open>size_t\<close>.\<close>

definition size_dec :: "nat \<Rightarrow> nat" where
  "size_dec n = (if n = 0 then 2 ^ 64 - 1 else n - 1)"

lemma size_dec_simps [simp]: "0 < n \<Longrightarrow> size_dec n = n - 1" "size_dec (Suc m) = m"
  by (simp_all add: size_dec_def)

definition zero_addr :: sockaddr_in where
  "zero_addr = \<lparr>sin_family = 0, sin_port = 0, sin_addr = 0\<rparr>"

text \<open>A null pointer is \<open>None\<close>; \<open>sizeof(addr_book_t)\<close> and \<open>sizeof(struct sockaddr_in)\<close> are 16.\<close>

definition alloc_addr_book :: "env \<Rightarrow> nat \<Rightarrow> addr_book option" where
  "alloc_addr_book e num_entries =
     (if num_entries = 0 then None
      else if \<not> grant e 16 then None
      else if \<not> grant e (num_entries * 16) then None
      else Some \<lparr>ab_num_proc = num_entries, addresses = Arr (replicate num_entries zero_addr)\<rparr>)"

text \<open>The result is the address book after the call: its memory may no longer be used.\<close>

definition free_addr_book :: "addr_book option \<Rightarrow> addr_book option run" where
  "free_addr_book book =
     (case book of None \<Rightarrow> ret None
      | Some b \<Rightarrow> bnd (free (addresses b)) (\<lambda>p. ret (Some (b\<lparr>addresses := p\<rparr>))))"

definition add_entry :: "addr_book option \<Rightarrow> nat \<Rightarrow> sockaddr_in \<Rightarrow> (int \<times> addr_book option) run" where
  "add_entry book pid addr =
     (case book of None \<Rightarrow> ret (err ERROR_MEMORY, book)
      | Some b \<Rightarrow>
        if addresses b = Null then ret (err ERROR_MEMORY, book)
        else if ab_num_proc b + 1 < pid then ret (err ERROR_PID, book)
        else bnd (store (addresses b) (size_dec pid) addr)
               (\<lambda>p. ret (0, Some (b\<lparr>addresses := p\<rparr>))))"

text \<open>The out parameter \<open>addr\<close> is never null at the callers; on an error it is not written.\<close>

definition get_addr :: "addr_book option \<Rightarrow> nat \<Rightarrow> (int \<times> sockaddr_in option) run" where
  "get_addr book pid =
     (case book of None \<Rightarrow> ret (err ERROR_MEMORY, None)
      | Some b \<Rightarrow>
        if addresses b = Null then ret (err ERROR_MEMORY, None)
        else if ab_num_proc b + 1 < pid then ret (err ERROR_PID, None)
        else bnd (load (addresses b) (size_dec pid)) (\<lambda>a. ret (0, Some a)))"

section \<open>Invariant\<close>

definition book_ok :: "addr_book option \<Rightarrow> bool" where
  "book_ok book = (case book of None \<Rightarrow> False
     | Some b \<Rightarrow> (case addresses b of Arr xs \<Rightarrow> length xs = ab_num_proc b \<and> ab_num_proc b < 2 ^ 63 | _ \<Rightarrow> False))"

definition book_pids :: "addr_book option \<Rightarrow> nat set" where
  "book_pids book = (case book of None \<Rightarrow> {} | Some b \<Rightarrow> {1..ab_num_proc b})"

lemma book_okE:
  assumes "book_ok book"
  obtains b xs where "book = Some b" "addresses b = Arr xs" "length xs = ab_num_proc b"
    "ab_num_proc b < 2 ^ 63"
  using assms by (auto simp: book_ok_def split: option.splits ptr.splits)

lemma alloc_addr_book_ok:
  assumes "0 < n" "n < 2 ^ 63" "grant e 16" "grant e (n * 16)"
  shows "book_ok (alloc_addr_book e n) \<and> book_pids (alloc_addr_book e n) = {1..n}"
  using assms by (simp add: alloc_addr_book_def book_ok_def book_pids_def)

lemma size_dec_zero: "size_dec 0 = 18446744073709551615"
  by (simp add: size_dec_def)

lemma store_pid:
  assumes "addresses b = Arr xs" "length xs = ab_num_proc b" "0 < pid" "pid \<le> ab_num_proc b"
  shows "store (addresses b) (size_dec pid) a = ret (Arr (xs[pid - 1 := a]))"
  using assms by simp

text \<open>The outcome of \<open>add_entry\<close> and \<open>get_addr\<close> for every process id.\<close>

lemma add_entry_cases:
  assumes "book_ok book"
  shows "add_entry book pid a =
    (let n = card (book_pids book) in
     if n + 1 < pid then ret (err ERROR_PID, book)
     else if pid = 0 \<or> pid = n + 1 then ub
     else ret (0, map_option (\<lambda>b. b\<lparr>addresses := Arr ((case addresses b of Arr xs \<Rightarrow> xs)[pid - 1 := a])\<rparr>) book))"
proof -
  from assms obtain b xs where b: "book = Some b" "addresses b = Arr xs"
    "length xs = ab_num_proc b" "ab_num_proc b < 2 ^ 63" by (rule book_okE)
  then show ?thesis
    by (auto simp: add_entry_def book_pids_def size_dec_def Let_def store_def)
qed

lemma get_addr_cases:
  assumes "book_ok book"
  shows "get_addr book pid =
    (let n = card (book_pids book) in
     if n + 1 < pid then ret (err ERROR_PID, None)
     else if pid = 0 \<or> pid = n + 1 then ub
     else ret (0, Some ((case addresses (the book) of Arr xs \<Rightarrow> xs) ! (pid - 1))))"
proof -
  from assms obtain b xs where b: "book = Some b" "addresses b = Arr xs"
    "length xs = ab_num_proc b" "ab_num_proc b < 2 ^ 63" by (rule book_okE)
  then show ?thesis
    by (auto simp: get_addr_def book_pids_def size_dec_def Let_def load_def)
qed

section \<open>The address book is an indexed store\<close>

text \<open>
  The operations as the clients use them: a call that succeeds, with its result; any
  other outcome of the call is undefined here.
\<close>

definition book_read :: "addr_book option \<Rightarrow> nat \<Rightarrow> sockaddr_in run" where
  "book_read book pid = bnd (get_addr book pid) (\<lambda>(r, a). case a of Some x \<Rightarrow> ret x | None \<Rightarrow> ub)"

definition book_write :: "addr_book option \<Rightarrow> nat \<Rightarrow> sockaddr_in \<Rightarrow> addr_book option run" where
  "book_write book pid a = bnd (add_entry book pid a) (\<lambda>(r, book'). if r = 0 then ret book' else ub)"

interpretation book: indexed_store book_ok book_pids book_read book_write
proof unfold_locales
  fix s k v
  assume s: "book_ok s" and k: "k \<in> book_pids s"
  then obtain b xs where b: "s = Some b" "addresses b = Arr xs"
    "length xs = ab_num_proc b" "ab_num_proc b < 2 ^ 63" by (elim book_okE)
  let ?s' = "Some (b\<lparr>addresses := Arr (xs[k - 1 := v])\<rparr>)"
  from k b have k': "0 < k" "k \<le> ab_num_proc b" by (auto simp: book_pids_def)
  have "book_write s k v = ret ?s'" "book_ok ?s'" "book_pids ?s' = book_pids s"
    using b k' by (auto simp: book_write_def add_entry_def book_ok_def book_pids_def)
  moreover have "\<forall>j \<in> book_pids s. book_read ?s' j = (if j = k then ret v else book_read s j)"
    using b k' by (auto simp: book_read_def get_addr_def book_pids_def nth_list_update)
  ultimately show "\<exists>s'. book_write s k v = ret s' \<and> book_ok s' \<and> book_pids s' = book_pids s
      \<and> (\<forall>j \<in> book_pids s. book_read s' j = (if j = k then ret v else book_read s j))"
    by blast
next
  fix s k
  assume "book_ok s" "k \<in> book_pids s"
  then show "returns (book_read s k)"
    by (elim book_okE) (auto simp: book_read_def get_addr_def book_pids_def)
qed

section \<open>The book for every process id\<close>

text \<open>In a book of \<open>n\<close> entries a write for a process id from 1 to \<open>n\<close> succeeds and is what
  every later read returns, the other entries being unchanged; ids above \<open>n + 1\<close> are refused
  with \<open>ERROR_PID\<close>; the ids 0 and \<open>n + 1\<close> pass the guard and access memory outside the array.\<close>

theorem address_book_by_pid:
  assumes "book_ok book" and "n = card (book_pids book)"
  shows "if 1 \<le> pid \<and> pid \<le> n then
      \<exists>book'. add_entry book pid a = ret (0, book') \<and> book_ok book' \<and> card (book_pids book') = n
        \<and> (\<forall>j \<in> {1..n}. get_addr book' j = (if j = pid then ret (0, Some a) else get_addr book j))
    else if pid = 0 \<or> pid = n + 1 then add_entry book pid a = ub \<and> get_addr book pid = ub
    else add_entry book pid a = ret (err ERROR_PID, book) \<and> get_addr book pid = ret (err ERROR_PID, None)"
proof -
  from assms(1) obtain b xs where b: "book = Some b" "addresses b = Arr xs"
    "length xs = ab_num_proc b" "ab_num_proc b < 2 ^ 63" by (rule book_okE)
  with assms(2) have n: "n = ab_num_proc b" by (simp add: book_pids_def)
  show ?thesis
  proof (cases "1 \<le> pid \<and> pid \<le> n")
    case True
    let ?book' = "Some (b\<lparr>addresses := Arr (xs[pid - 1 := a])\<rparr>)"
    have "pid - 1 < length xs" "0 < pid" using True b n by auto
    then have "add_entry book pid a = ret (0, ?book')" using True b n by (simp add: add_entry_def)
    moreover have "book_ok ?book'" "card (book_pids ?book') = n" using b n
      by (simp_all add: book_ok_def book_pids_def)
    moreover have "get_addr ?book' j = (if j = pid then ret (0, Some a) else get_addr book j)"
      if "j \<in> {1..n}" for j
      using that True b n by (auto simp: get_addr_def load_def nth_list_update)
    ultimately show ?thesis using True by auto
  next
    case False
    then show ?thesis
      using add_entry_cases [OF assms(1), of pid a] get_addr_cases [OF assms(1), of pid] assms(2)
      by (auto simp: Let_def)
  qed
qed

theorem address_book_by_pid_witness:
  "let book = Some \<lparr>ab_num_proc = 2, addresses = Arr [zero_addr, zero_addr]\<rparr> in
     add_entry book 3 zero_addr = ub \<and> add_entry book 4 zero_addr = ret (err ERROR_PID, book)"
proof -
  let ?book = "Some \<lparr>ab_num_proc = 2, addresses = Arr [zero_addr, zero_addr]\<rparr>"
  have ok: "book_ok ?book" "2 = card (book_pids ?book)" by (simp_all add: book_ok_def book_pids_def)
  show ?thesis
    using address_book_by_pid [OF ok, of 3 zero_addr] address_book_by_pid [OF ok, of 4 zero_addr]
    by simp
qed

end
