(* ===== verification/Data.thy ===== *)
theory Data
  imports AddrBook
begin

text \<open>
  The shared data types of the program (include/data.h), in the order of the header. A
  struct is a record; an array behind a pointer is a \<open>ptr\<close>; a mutex is a boolean, true
  while it is held. A struct that holds only pointers to statically allocated structs
  (\<open>net_data_t\<close>) holds the structs themselves: those pointers are never null.
\<close>

definition BACK_TO_QUEUE :: int where "BACK_TO_QUEUE = 42"

type_synonym mid_t = u32

section \<open>Tables\<close>

record urb_entry =
  seen :: u32
  delivered :: u32

record urb_table =
  urb_values :: "urb_entry ptr"
  urb_no_msgs :: u32
  urb_no_process :: u32
  urb_total_entries :: u32

record pending_tab =
  bol :: "u32 ptr"
  bol_no_msgs :: u32
  bol_no_process :: u32
  bol_total_entries :: u32

record next_tab =
  next_no_process :: u32
  next_entries :: "u32 ptr"

record uid_table =
  no_msgs :: u32
  no_process :: u32
  total_entries :: u32
  entries :: "u32 ptr"

record ack_table =
  table_mutex :: bool
  ack_tab :: uid_table

section \<open>Messages\<close>

record fifo_msg =
  sequence_num :: u32
  original_sender :: u32

record vec_clock =
  vc_num_proc :: u32
  vector :: "u32 ptr"
  vc_mutex :: bool

record lcb_msg =
  lcb_clock :: vec_clock
  lcb_original_sender :: u32

record urb_msg =
  lcb_part :: lcb_msg
  fifo_part :: fifo_msg
  seen_id :: u32
  urb_mid :: mid_t

record msg =
  urb_part :: urb_msg
  msg_mid :: mid_t
  ackid :: u32
  sender :: u32
  mtype :: u32

section \<open>Queues and the other tables\<close>

record queue_task =
  pid_dest :: u32
  task_msg :: msg

record msg_queue =
  no_elem :: u32
  qsize :: u32
  q_front :: u32
  q_back :: u32
  elems :: "queue_task ptr"
  queue_mutex :: bool

record pl_delivered =
  pl_tab :: uid_table

record urb_ack_table =
  urb_ack_tab :: uid_table

text \<open>
  A \<open>pthread_t\<close> handle: the number of the call of \<open>pthread_create\<close> that set it, or \<open>None\<close> when no
  successful call has (the zeroed or indeterminate handle names no thread).
\<close>

type_synonym pthread = "nat option"

record sender_thread =
  sender_handle :: pthread
  sender_idx :: nat
  sender_fd :: int

text \<open>The log: an in-memory buffer and the contents of the open file, if it is open.\<close>

record log_data =
  buf_max_size :: nat
  buf_current_size :: nat
  buffer :: "char ptr"
  log_file :: "string option"
  loglok :: bool

section \<open>Structures of localized causal broadcast\<close>

record dependency_list =
  pid_list :: "nat ptr"
  list_len :: nat

record dependencies =
  dep_lists :: "dependency_list ptr"
  dep_num_proc :: nat

text \<open>
  The nodes of the pending lists are linked by pointers. A node lives in a heap, a finite
  map from addresses; an address outside the map is not allocated (never, or no more), so
  a read through a pointer to a freed node is undefined behaviour. \<open>next_addr\<close> is the
  address the next \<open>malloc\<close> returns; addresses are not reused.
\<close>

type_synonym ref = "nat option"

record vec_node =
  node_clock :: vec_clock
  node_next :: ref
  node_previous :: ref

record node_heap =
  nodes :: "nat \<Rightarrow> vec_node option"
  next_addr :: nat

record vec_list =
  num_elems :: nat
  list_head :: ref
  list_tail :: ref

record lcb_pending =
  lcb_num_proc :: nat
  lists :: "vec_list ptr"
  node_mem :: node_heap

section \<open>The state of a process\<close>

text \<open>
  \<open>net_out\<close> records the datagrams handed to the kernel, each with its destination: the
  output of the sockets, which the program does not store.
\<close>

record net_data =
  address_book :: "addr_book option"
  self_pid :: nat
  num_proc :: nat
  num_msg :: nat
  pl_acks :: ack_table
  pl_deliv :: pl_delivered
  task_q :: msg_queue
  urb_tab :: urb_table
  senders :: "sender_thread ptr"
  receiver_thread :: pthread
  pending :: pending_tab
  next_deliver :: next_tab
  urbacks :: urb_ack_table
  receiver_fd :: int
  logdata :: log_data
  log_filename :: string
  rec_mutex :: bool
  deps :: "dependencies option"
  pending_lcb :: lcb_pending
  vector_clock :: vec_clock
  net_out :: "(sockaddr_in \<times> byte list) list"

section \<open>Zeroed and indeterminate values\<close>

text \<open>What \<open>calloc\<close> leaves in a block, and what an uninitialised local variable holds.\<close>

definition zero_urb_entry :: urb_entry where
  "zero_urb_entry = \<lparr>seen = 0, delivered = 0\<rparr>"

definition zero_clock :: vec_clock where
  "zero_clock = \<lparr>vc_num_proc = 0, vector = Null, vc_mutex = False\<rparr>"

definition zero_msg :: msg where
  "zero_msg = \<lparr>urb_part = \<lparr>lcb_part = \<lparr>lcb_clock = zero_clock, lcb_original_sender = 0\<rparr>,
      fifo_part = \<lparr>sequence_num = 0, original_sender = 0\<rparr>, seen_id = 0, urb_mid = 0\<rparr>,
     msg_mid = 0, ackid = 0, sender = 0, mtype = 0\<rparr>"

definition zero_task :: queue_task where
  "zero_task = \<lparr>pid_dest = 0, task_msg = zero_msg\<rparr>"

definition uninit_clock :: "env \<Rightarrow> vec_clock" where
  "uninit_clock e = \<lparr>vc_num_proc = junk e 0, vector = Wild, vc_mutex = False\<rparr>"

definition uninit_urb_msg :: "env \<Rightarrow> urb_msg" where
  "uninit_urb_msg e = \<lparr>lcb_part = \<lparr>lcb_clock = uninit_clock e, lcb_original_sender = junk e 1\<rparr>,
     fifo_part = \<lparr>sequence_num = junk e 2, original_sender = junk e 3\<rparr>,
     seen_id = junk e 4, urb_mid = junk e 5\<rparr>"

definition uninit_msg :: "env \<Rightarrow> msg" where
  "uninit_msg e = \<lparr>urb_part = uninit_urb_msg e, msg_mid = junk e 6, ackid = junk e 7,
     sender = junk e 8, mtype = junk e 9\<rparr>"

section \<open>Mutexes\<close>

text \<open>
  \<open>pthread_mutex_lock\<close> returns with the lock held when it is free; when it is held by a
  thread that never releases it, the call never returns. Within one operation of the
  model no other thread runs, so a lock found held is one that nobody releases.
\<close>

definition mutex_lock :: "bool \<Rightarrow> bool run" where
  "mutex_lock m = (if m then hang else ret True)"

lemma mutex_lock_simps [simp]: "mutex_lock True = hang" "mutex_lock False = ret True"
  by (simp_all add: mutex_lock_def)

lemma mutex_lock_eq_ret [simp]: "mutex_lock m = ret x \<longleftrightarrow> \<not> m \<and> x"
  by (auto simp: mutex_lock_def)

end
