(* ===== verification/UidTable.thy ===== *)
theory UidTable
  imports Data
begin

text \<open>
  The table of message ids (src/plink.c, first half): an array of words indexed by message
  id that is doubled when an id lies beyond its end. It is the representation of the
  acknowledgement table and the delivered table of the perfect link, and of the
  acknowledgement table of uniform reliable broadcast.
\<close>

section \<open>realloc and memset on arrays of unsigned int\<close>

text \<open>
  \<open>realloc\<close> to \<open>n\<close> words keeps the old contents; the rest of the new block is
  indeterminate. When it fails the caller gets a null pointer.
\<close>

definition realloc_words :: "env \<Rightarrow> nat \<Rightarrow> u32 list \<Rightarrow> u32 list" where
  "realloc_words e n xs = map (\<lambda>i. if i < length xs then xs ! i else junk e i) [0..<n]"

definition realloc_u32 :: "env \<Rightarrow> u32 ptr \<Rightarrow> nat \<Rightarrow> u32 ptr run" where
  "realloc_u32 e p n =
     (case p of Wild \<Rightarrow> ub
      | Null \<Rightarrow> ret (if grant e (4 * n) then Arr (realloc_words e n []) else Null)
      | Arr xs \<Rightarrow> ret (if grant e (4 * n) then Arr (realloc_words e n xs) else Null))"

text \<open>
  \<open>memset(&p[k], 0, nb)\<close> clears \<open>nb\<close> bytes, not \<open>nb\<close> words: whole words first, then the
  low bytes of the next one.
\<close>

definition clear_low :: "nat \<Rightarrow> u32 \<Rightarrow> u32" where
  "clear_low r w = push_bit (8 * r) (drop_bit (8 * r) w)"

definition memset_words :: "nat \<Rightarrow> nat \<Rightarrow> u32 list \<Rightarrow> u32 list" where
  "memset_words k nb xs = map (\<lambda>i. if i < k then xs ! i
      else if 4 * (i - k) + 4 \<le> nb then 0
      else if 4 * (i - k) < nb then clear_low (nb - 4 * (i - k)) (xs ! i)
      else xs ! i) [0..<length xs]"

definition memset_zero :: "u32 ptr \<Rightarrow> nat \<Rightarrow> nat \<Rightarrow> u32 ptr run" where
  "memset_zero p k nb =
     (case p of Arr xs \<Rightarrow> if 4 * k + nb \<le> 4 * length xs then ret (Arr (memset_words k nb xs)) else ub
      | _ \<Rightarrow> ub)"

lemma length_realloc_words [simp]: "length (realloc_words e n xs) = n"
  and length_memset_words [simp]: "length (memset_words k nb xs) = length xs"
  by (simp_all add: realloc_words_def memset_words_def)

lemma nth_realloc_words:
  "i < n \<Longrightarrow> realloc_words e n xs ! i = (if i < length xs then xs ! i else junk e i)"
  by (simp add: realloc_words_def)

lemma nth_memset_words:
  "i < length xs \<Longrightarrow> memset_words k nb xs ! i = (if i < k then xs ! i
      else if 4 * (i - k) + 4 \<le> nb then 0
      else if 4 * (i - k) < nb then clear_low (nb - 4 * (i - k)) (xs ! i)
      else xs ! i)"
  by (simp add: memset_words_def)

lemma clear_low_0 [simp]: "clear_low r 0 = 0"
  by (simp add: clear_low_def)

section \<open>The operations\<close>

definition MAX_SIZE :: u32 where "MAX_SIZE = 1024 * 8"

lemma unat_MAX_SIZE [simp]: "unat MAX_SIZE = 8192"
  by (simp add: MAX_SIZE_def)

definition init_table_uid :: "env \<Rightarrow> uid_table \<Rightarrow> u32 \<Rightarrow> u32 \<Rightarrow> int \<times> uid_table" where
  "init_table_uid e t n_msgs n_process =
     (let n = n_msgs * n_process * n_process in
      if \<not> grant e (4 * unat n) then (err ERROR_MEMORY, t\<lparr>entries := Null\<rparr>)
      else (0, t\<lparr>entries := Arr (replicate (unat n) 0), no_msgs := n_msgs,
                no_process := n_process, total_entries := n\<rparr>))"

definition table_read_entry :: "uid_table \<Rightarrow> mid_t \<Rightarrow> u32 run" where
  "table_read_entry t mid = (if total_entries t \<le> mid then ret 0 else load (entries t) (unat mid))"

text \<open>The growth loop of \<open>table_write_entry\<close>.\<close>

partial_function (option) table_grow :: "env \<Rightarrow> mid_t \<Rightarrow> uid_table \<Rightarrow> (int \<times> uid_table) run" where
  "table_grow e mid t =
     (if total_entries t \<le> mid then
        bnd (realloc_u32 e (entries t) (unat (total_entries t * 2))) (\<lambda>p.
          if p = Null then ret (err ERROR_MEMORY, t\<lparr>entries := Null\<rparr>)
          else bnd (memset_zero p (unat (total_entries t))
                      (unat (total_entries t * 2 - total_entries t))) (\<lambda>q.
            table_grow e mid (t\<lparr>entries := q, total_entries := total_entries t * 2,
                                no_msgs := no_msgs t * 2\<rparr>)))
      else ret (0, t))"

definition table_write_entry :: "env \<Rightarrow> uid_table \<Rightarrow> mid_t \<Rightarrow> u32 \<Rightarrow> (int \<times> uid_table) run" where
  "table_write_entry e t mid v =
     (if MAX_SIZE < mid then ret (err ERROR_TABLE, t)
      else bnd (table_grow e mid t) (\<lambda>(r, t').
        if r \<noteq> 0 then ret (r, t')
        else bnd (store (entries t') (unat mid) v) (\<lambda>p. ret (0, t'\<lparr>entries := p\<rparr>))))"

definition free_table_uid :: "uid_table \<Rightarrow> (int \<times> uid_table) run" where
  "free_table_uid t = bnd (free (entries t)) (\<lambda>_. ret (0, t\<lparr>entries := Null\<rparr>))"

section \<open>Invariant\<close>

definition table_ok :: "uid_table \<Rightarrow> bool" where
  "table_ok t \<longleftrightarrow> (case entries t of Arr xs \<Rightarrow> length xs = unat (total_entries t) \<and> 0 < total_entries t
     | _ \<Rightarrow> False)"

lemma table_okE:
  assumes "table_ok t"
  obtains xs where "entries t = Arr xs" "length xs = unat (total_entries t)" "0 < unat (total_entries t)"
  using assms by (auto simp: table_ok_def word_less_nat_alt split: ptr.splits)

lemma table_okI:
  "entries t = Arr xs \<Longrightarrow> length xs = unat (total_entries t) \<Longrightarrow> 0 < unat (total_entries t) \<Longrightarrow> table_ok t"
  by (auto simp: table_ok_def word_less_nat_alt)

text \<open>The ids that can be written without growing the table.\<close>

definition table_ids :: "uid_table \<Rightarrow> mid_t set" where
  "table_ids t = {i. i < total_entries t \<and> i \<le> MAX_SIZE}"

lemma table_ids_nat: "i \<in> table_ids t \<longleftrightarrow> unat i < unat (total_entries t) \<and> unat i \<le> 8192"
  by (simp add: table_ids_def word_less_nat_alt word_le_nat_alt)

lemma init_table_uid_ok:
  assumes "grant e (4 * unat (n * p * p))" "0 < n * p * p"
  shows "\<exists>t'. init_table_uid e t n p = (0, t') \<and> table_ok t' \<and> total_entries t' = n * p * p
    \<and> no_process t' = p \<and> (\<forall>i. table_read_entry t' i = ret 0)"
  using assms
  by (auto simp: init_table_uid_def Let_def table_ok_def table_read_entry_def word_le_nat_alt
      word_less_nat_alt)

lemma table_grow_in_range: "mid < total_entries t \<Longrightarrow> table_grow e mid t = ret (0, t)"
  by (subst table_grow.simps) (auto dest: leD)

lemma table_write_in_range:
  assumes "entries t = Arr xs" "length xs = unat (total_entries t)" "mid < total_entries t" "mid \<le> MAX_SIZE"
  shows "table_write_entry e t mid v = ret (0, t\<lparr>entries := Arr (xs[unat mid := v])\<rparr>)"
  using assms by (simp add: table_write_entry_def table_grow_in_range word_less_nat_alt word_le_nat_alt)

lemma table_read_in_range:
  assumes "entries t = Arr xs" "length xs = unat (total_entries t)" "mid < total_entries t"
  shows "table_read_entry t mid = ret (xs ! unat mid)"
  using assms by (simp add: table_read_entry_def word_less_nat_alt word_le_nat_alt)

lemma table_write_too_big: "MAX_SIZE < mid \<Longrightarrow> table_write_entry e t mid v = ret (err ERROR_TABLE, t)"
  by (simp add: table_write_entry_def)

section \<open>The table is a word store\<close>

definition table_put :: "env \<Rightarrow> uid_table \<Rightarrow> mid_t \<Rightarrow> u32 \<Rightarrow> uid_table run" where
  "table_put e t i v = bnd (table_write_entry e t i v) (\<lambda>(r, t'). if r = 0 then ret t' else ub)"

lemma table_put_in_range:
  assumes "entries t = Arr xs" "length xs = unat (total_entries t)" "i \<in> table_ids t"
  shows "table_put e t i v = ret (t\<lparr>entries := Arr (xs[unat i := v])\<rparr>)"
  using assms by (simp add: table_put_def table_ids_def table_write_in_range)

interpretation table: word_store table_ok table_ids table_read_entry "table_put e" for e
proof unfold_locales
  fix t i v
  assume t: "table_ok t" and i: "i \<in> table_ids t"
  from t obtain xs where xs: "entries t = Arr xs" "length xs = unat (total_entries t)"
    "0 < unat (total_entries t)" by (rule table_okE)
  let ?t' = "t\<lparr>entries := Arr (xs[unat i := v])\<rparr>"
  have "table_put e t i v = ret ?t'" using xs i by (simp add: table_put_in_range)
  moreover have "table_ok ?t'" using xs by (simp add: table_ok_def word_less_nat_alt)
  moreover have "table_ids ?t' = table_ids t" by (simp add: table_ids_def)
  moreover have "\<forall>j \<in> table_ids t. table_read_entry ?t' j = (if j = i then ret v else table_read_entry t j)"
  proof
    fix j assume "j \<in> table_ids t"
    then have j: "j < total_entries t" by (simp add: table_ids_def)
    with xs have "table_read_entry ?t' j = ret (xs[unat i := v] ! unat j)"
      by (simp add: table_read_in_range)
    with xs j i show "table_read_entry ?t' j = (if j = i then ret v else table_read_entry t j)"
      by (auto simp: table_read_in_range nth_list_update table_ids_nat word_less_nat_alt word_unat_eq_iff)
  qed
  ultimately show "\<exists>t'. table_put e t i v = ret t' \<and> table_ok t' \<and> table_ids t' = table_ids t
      \<and> (\<forall>j \<in> table_ids t. table_read_entry t' j = (if j = i then ret v else table_read_entry t j))"
    by blast
next
  fix t i
  assume "table_ok t" "i \<in> table_ids t"
  then show "returns (table_read_entry t i)"
    by (elim table_okE) (simp add: table_read_in_range table_ids_def)
qed

section \<open>Growth\<close>

text \<open>One round of the growth loop, when the allocation succeeds.\<close>

definition grow_once :: "env \<Rightarrow> uid_table \<Rightarrow> uid_table" where
  "grow_once e t = (case entries t of
     Arr xs \<Rightarrow> t\<lparr>entries := Arr (memset_words (length xs) (length xs) (realloc_words e (2 * length xs) xs)),
                total_entries := total_entries t * 2, no_msgs := no_msgs t * 2\<rparr>
   | _ \<Rightarrow> t)"

lemma double_u32: "unat (n :: u32) \<le> 8192 \<Longrightarrow> unat (n * 2) = 2 * unat n"
  by (simp add: unat_word_ariths)

lemma table_grow_step:
  assumes t: "entries t = Arr xs" "length xs = unat (total_entries t)"
    and mid: "total_entries t \<le> mid" "mid \<le> MAX_SIZE"
  shows "table_grow e mid t = (if grant e (8 * length xs) then table_grow e mid (grow_once e t)
     else ret (err ERROR_MEMORY, t\<lparr>entries := Null\<rparr>))"
proof -
  have n: "unat (total_entries t) \<le> 8192" using mid by (simp add: word_le_nat_alt)
  then have d: "unat (total_entries t * 2) = 2 * length xs"
    and sub: "unat (total_entries t * 2 - total_entries t) = length xs"
    using t(2) by (simp_all add: double_u32 unat_sub word_le_nat_alt)
  have "4 * (2 * length xs) = 8 * length xs" by simp
  then show ?thesis
    using t mid(1) d sub
    by (subst table_grow.simps) (simp add: realloc_u32_def memset_zero_def grow_once_def)
qed

lemma grow_once_ok:
  assumes "table_ok t" "total_entries t \<le> MAX_SIZE"
  shows "table_ok (grow_once e t) \<and> unat (total_entries (grow_once e t)) = 2 * unat (total_entries t)
    \<and> no_process (grow_once e t) = no_process t"
proof -
  from assms(1) obtain xs where xs: "entries t = Arr xs" "length xs = unat (total_entries t)"
    "0 < unat (total_entries t)" by (rule table_okE)
  have d: "unat (total_entries t * 2) = 2 * unat (total_entries t)"
    using assms(2) by (simp add: double_u32 word_le_nat_alt)
  then show ?thesis using xs by (auto simp: grow_once_def intro: table_okI)
qed

text \<open>The contents of a table as a function of the id: absent ids read as zero.\<close>

definition table_view :: "uid_table \<Rightarrow> mid_t \<Rightarrow> u32" where
  "table_view t i = (if total_entries t \<le> i then 0
     else case entries t of Arr xs \<Rightarrow> xs ! unat i | _ \<Rightarrow> 0)"

lemma table_read_view: "table_ok t \<Longrightarrow> table_read_entry t i = ret (table_view t i)"
  by (elim table_okE) (auto simp: table_read_entry_def table_view_def word_le_nat_alt)

lemma table_view_beyond: "unat (total_entries t) \<le> unat i \<Longrightarrow> table_view t i = 0"
  by (simp add: table_view_def word_le_nat_alt)

lemma grow_once_view:
  assumes "table_ok t" "total_entries t \<le> MAX_SIZE"
  shows "table_view (grow_once e t) i =
    (let n = unat (total_entries t); k = unat i in
     if k < n then table_view t i
     else if 4 * (k - n) + 4 \<le> n \<or> 2 * n \<le> k then 0
     else if 4 * (k - n) < n then clear_low (n - 4 * (k - n)) (junk e k) else junk e k)"
proof -
  from assms(1) obtain xs where xs: "entries t = Arr xs" "length xs = unat (total_entries t)"
    "0 < unat (total_entries t)" by (rule table_okE)
  have d: "unat (total_entries t * 2) = 2 * unat (total_entries t)"
    using assms(2) by (simp add: double_u32 word_le_nat_alt)
  show ?thesis using xs d
    by (auto simp: table_view_def grow_once_def Let_def nth_memset_words nth_realloc_words
        word_le_nat_alt)
qed

text \<open>The loop ends, whatever the environment does, and what it leaves.\<close>

definition grown :: "env \<Rightarrow> mid_t \<Rightarrow> uid_table \<Rightarrow> int \<Rightarrow> uid_table \<Rightarrow> bool" where
  "grown e mid t r t' \<longleftrightarrow>
     (r = 0 \<and> table_ok t' \<and> mid < total_entries t' \<and> total_entries t \<le> total_entries t'
        \<and> no_process t' = no_process t
        \<and> (\<forall>i. i < total_entries t \<longrightarrow> table_view t' i = table_view t i)
        \<and> ((\<forall>i. junk e i = 0) \<longrightarrow> table_view t' = table_view t))
     \<or> (r = err ERROR_MEMORY \<and> entries t' = Null \<and> (\<exists>n. \<not> grant e n))"

lemma table_grow_spec:
  assumes "table_ok t" "mid \<le> MAX_SIZE"
  shows "\<exists>r t'. table_grow e mid t = ret (r, t') \<and> grown e mid t r t'"
  using assms(1)
proof (induction "8193 - unat (total_entries t)" arbitrary: t rule: less_induct)
  case less
  show ?case
  proof (cases "mid < total_entries t")
    case True
    then show ?thesis using less.prems by (simp add: table_grow_in_range grown_def)
  next
    case False
    from less.prems obtain xs where xs: "entries t = Arr xs" "length xs = unat (total_entries t)"
      "0 < unat (total_entries t)" by (rule table_okE)
    from False have le: "total_entries t \<le> mid" by simp
    with assms(2) have small: "total_entries t \<le> MAX_SIZE" by simp
    note step = table_grow_step [OF xs(1,2) le assms(2), of e]
    note once = grow_once_ok [OF less.prems small, of e]
    show ?thesis
    proof (cases "grant e (8 * length xs)")
      case False
      then show ?thesis using step by (auto simp: grown_def)
    next
      case True
      have "8193 - unat (total_entries (grow_once e t)) < 8193 - unat (total_entries t)"
        using once xs(3) small by (simp add: word_le_nat_alt)
      from less.hyps [OF this] once obtain r t' where
        t': "table_grow e mid (grow_once e t) = ret (r, t')" "grown e mid (grow_once e t) r t'"
        by blast
      have "total_entries t \<le> total_entries (grow_once e t)"
        using once by (simp add: word_le_nat_alt)
      moreover have "\<forall>i. i < total_entries t \<longrightarrow> table_view (grow_once e t) i = table_view t i"
        by (simp add: grow_once_view [OF less.prems small] Let_def word_less_nat_alt)
      moreover have "(\<forall>i. junk e i = 0) \<longrightarrow> table_view (grow_once e t) = table_view t"
        by (auto simp: fun_eq_iff grow_once_view [OF less.prems small] Let_def
            table_view_beyond word_le_nat_alt)
      ultimately have "grown e mid t r t'"
        using t'(2) once by (auto simp: grown_def)
      with t'(1) True step show ?thesis by simp
    qed
  qed
qed

lemma table_write_spec:
  assumes "table_ok t" "mid \<le> MAX_SIZE"
  shows "\<exists>r t'. table_write_entry e t mid v = ret (r, t')
    \<and> ((r = 0 \<and> table_ok t' \<and> mid < total_entries t' \<and> total_entries t \<le> total_entries t'
          \<and> no_process t' = no_process t \<and> table_view t' mid = v
          \<and> (\<forall>i. i < total_entries t \<longrightarrow> i \<noteq> mid \<longrightarrow> table_view t' i = table_view t i)
          \<and> ((\<forall>i. junk e i = 0) \<longrightarrow> table_view t' = (table_view t)(mid := v)))
       \<or> (r = err ERROR_MEMORY \<and> (\<exists>n. \<not> grant e n)))"
proof -
  from table_grow_spec [OF assms, of e] obtain r t1 where
    g: "table_grow e mid t = ret (r, t1)" "grown e mid t r t1" by blast
  show ?thesis
  proof (cases "r = 0")
    case False
    then show ?thesis using g assms(2) by (auto simp: table_write_entry_def grown_def)
  next
    case True
    with g(2) have ok: "table_ok t1" "mid < total_entries t1" by (simp_all add: grown_def)
    from ok(1) obtain xs where xs: "entries t1 = Arr xs" "length xs = unat (total_entries t1)"
      "0 < unat (total_entries t1)" by (rule table_okE)
    let ?t' = "t1\<lparr>entries := Arr (xs[unat mid := v])\<rparr>"
    have w: "table_write_entry e t mid v = ret (0, ?t')"
      using True g(1) xs ok(2) assms(2) by (simp add: table_write_entry_def word_less_nat_alt not_less [symmetric] word_le_nat_alt)
    have view: "table_view ?t' = (table_view t1)(mid := v)"
      using xs ok(2) by (auto simp: fun_eq_iff table_view_def nth_list_update word_unat_eq_iff word_le_nat_alt word_less_nat_alt)
    have "table_ok ?t'" using xs by (auto intro: table_okI)
    with w view g(2) True show ?thesis by (auto simp: grown_def)
  qed
qed

section \<open>Writing inside the table\<close>

lemma table_write_view:
  assumes "table_ok t" "mid \<in> table_ids t"
  shows "\<exists>t'. table_write_entry e t mid v = ret (0, t') \<and> table_ok t'
    \<and> total_entries t' = total_entries t \<and> no_process t' = no_process t
    \<and> table_view t' = (table_view t)(mid := v)"
proof -
  from assms(1) obtain xs where xs: "entries t = Arr xs"
    "length xs = unat (total_entries t)" "0 < unat (total_entries t)" by (rule table_okE)
  let ?t' = "t\<lparr>entries := Arr (xs[unat mid := v])\<rparr>"
  have "table_write_entry e t mid v = ret (0, ?t')"
    using assms(2) xs by (simp add: table_ids_def table_write_in_range)
  moreover have "table_view ?t' = (table_view t)(mid := v)"
    using xs assms(2)
    by (auto simp: fun_eq_iff table_view_def nth_list_update word_unat_eq_iff word_le_nat_alt
        table_ids_nat)
  moreover have "table_ok ?t'" using xs by (auto intro: table_okI)
  ultimately show ?thesis by auto
qed

section \<open>What a write does\<close>

text \<open>C25: a write into the table always returns, whatever the allocator does: the growth loop
  ends. It either stores the value, keeping the other entries of the old table, or reports
  \<open>ERROR_TABLE\<close> for an id above 8192, with the table as it was, or reports \<open>ERROR_MEMORY\<close>
  after a refused allocation. When fresh memory happens to be zero the write is exactly a
  function update.\<close>

theorem table_write_terminates:
  assumes "table_ok t"
  shows "\<exists>r t'. table_write_entry e t mid v = ret (r, t')
    \<and> ((r = 0 \<and> table_ok t' \<and> mid \<le> MAX_SIZE \<and> table_read_entry t' mid = ret v
          \<and> (\<forall>i. i < total_entries t \<longrightarrow> i \<noteq> mid \<longrightarrow> table_read_entry t' i = table_read_entry t i)
          \<and> ((\<forall>i. junk e i = 0) \<longrightarrow> table_view t' = (table_view t)(mid := v)))
       \<or> (r = err ERROR_TABLE \<and> MAX_SIZE < mid \<and> t' = t)
       \<or> (r = err ERROR_MEMORY \<and> (\<exists>n. \<not> grant e n)))"
proof (cases "mid \<le> MAX_SIZE")
  case False
  then show ?thesis by (simp add: table_write_too_big)
next
  case True
  from table_write_spec [OF assms this, of e v] show ?thesis
  proof (elim exE conjE disjE)
    fix r t'
    assume "table_write_entry e t mid v = ret (r, t')" "r = 0" "table_ok t'" "table_view t' mid = v"
      "\<forall>i. i < total_entries t \<longrightarrow> i \<noteq> mid \<longrightarrow> table_view t' i = table_view t i"
      "(\<forall>i. junk e i = 0) \<longrightarrow> table_view t' = (table_view t)(mid := v)"
    with True assms show ?thesis by (auto simp: table_read_view)
  qed auto
qed

lemma past_the_cleared:
  assumes "(n :: nat) + (n + 3) div 4 \<le> k"
  shows "\<not> 4 * (k - n) < n \<and> \<not> k < n \<and> \<not> 4 * (k - n) + 4 \<le> n"
proof -
  from assms have "(n + 3) div 4 < Suc (k - n)" "n \<le> k" by simp_all
  then show ?thesis by (simp add: div_less_iff_less_mult)
qed

definition octet_table :: uid_table where
  "octet_table = \<lparr>no_msgs = 8, no_process = 1, total_entries = 8, entries = Arr (replicate 8 0)\<rparr>"

lemma octet_table_ok: "table_ok octet_table" "total_entries octet_table = 8"
  "entries octet_table = Arr (replicate 8 0)"
  by (simp_all add: octet_table_def table_ok_def)

theorem table_write_terminates_witness:
  "\<exists>t'. table_write_entry good_env octet_table 20 1 = ret (0, t')
     \<and> table_view t' = (table_view octet_table)(20 := 1)"
  using table_write_terminates [OF octet_table_ok(1), of good_env 20 1]
  by (auto simp: MAX_SIZE_def)

text \<open>C26: growing the table clears bytes, not words: after a write that doubles a table of
  \<open>n\<close> entries, the entries from \<open>n + (n + 3) div 4\<close> on, except the one written, read as
  whatever the allocator left there, so that an id that was never marked may read as marked.\<close>

theorem table_growth_reads_junk:
  assumes "table_ok t" and "n = unat (total_entries t)"
    and "n \<le> unat mid" "unat mid < 2 * n" "mid \<le> MAX_SIZE" "grant e (8 * n)"
  shows "\<exists>t'. table_write_entry e t mid v = ret (0, t')
    \<and> (\<forall>k. n + (n + 3) div 4 \<le> unat k \<longrightarrow> unat k < 2 * n \<longrightarrow> k \<noteq> mid
         \<longrightarrow> table_read_entry t' k = ret (junk e (unat k)))"
proof -
  from assms(1) obtain xs where xs: "entries t = Arr xs" "length xs = unat (total_entries t)"
    "0 < unat (total_entries t)" by (rule table_okE)
  let ?g = "grow_once e t"
  have small: "total_entries t \<le> MAX_SIZE" using assms(2,3,5) by (simp add: word_le_nat_alt)
  note once = grow_once_ok [OF assms(1) small, of e]
  have le: "total_entries t \<le> mid" using assms(2,3) by (simp add: word_le_nat_alt)
  have "mid < total_entries ?g" using once assms(2,4) by (simp add: word_less_nat_alt)
  then have g: "table_grow e mid t = ret (0, ?g)"
    using table_grow_step [OF xs(1,2) le assms(5), of e] assms(2,6) xs(2)
    by (simp add: table_grow_in_range)
  have ids: "mid \<in> table_ids ?g" using once assms(2,4,5) by (simp add: table_ids_nat word_le_nat_alt)
  from table_write_view [OF _ ids, of e v] once obtain t' where
    t': "table_write_entry e ?g mid v = ret (0, t')" "table_ok t'" "table_view t' = (table_view ?g)(mid := v)"
    by auto
  have "table_grow e mid ?g = ret (0, ?g)"
    using ids by (simp add: table_grow_in_range table_ids_def)
  then have "table_write_entry e t mid v = ret (0, t')"
    using t'(1) g by (simp add: table_write_entry_def split: if_splits)
  moreover have "table_read_entry t' k = ret (junk e (unat k))"
    if "n + (n + 3) div 4 \<le> unat k" "unat k < 2 * n" "k \<noteq> mid" for k
  proof -
    note far = past_the_cleared [OF that(1)]
    then show ?thesis
      using that(2,3) far t'(2,3) grow_once_view [OF assms(1) small, of e k] assms(2)
      by (simp add: table_read_view Let_def)
  qed
  ultimately show ?thesis by blast
qed

theorem table_growth_reads_junk_witness:
  "\<exists>t'. table_write_entry (good_env\<lparr>junk := (\<lambda>_. 1)\<rparr>) octet_table 8 1 = ret (0, t')
     \<and> table_read_entry t' 12 = ret 1 \<and> table_read_entry octet_table 12 = ret 0"
proof -
  have "\<exists>t'. table_write_entry (good_env\<lparr>junk := (\<lambda>_. 1)\<rparr>) octet_table 8 1 = ret (0, t')
    \<and> (\<forall>k. 8 + (8 + 3) div 4 \<le> unat k \<longrightarrow> unat k < 2 * 8 \<longrightarrow> k \<noteq> 8
         \<longrightarrow> table_read_entry t' k = ret (junk (good_env\<lparr>junk := (\<lambda>_. 1)\<rparr>) (unat k)))"
    by (rule table_growth_reads_junk)
      (simp_all add: octet_table_ok MAX_SIZE_def good_env_def)
  then obtain t' where t': "table_write_entry (good_env\<lparr>junk := (\<lambda>_. 1)\<rparr>) octet_table 8 1 = ret (0, t')"
    and all: "\<forall>k. 8 + (8 + 3) div 4 \<le> unat k \<longrightarrow> unat k < 2 * 8 \<longrightarrow> k \<noteq> 8
         \<longrightarrow> table_read_entry t' k = ret (junk (good_env\<lparr>junk := (\<lambda>_. 1)\<rparr>) (unat k))" by blast
  from all [rule_format, of 12] have "table_read_entry t' 12 = ret 1" by simp
  with t' show ?thesis by (simp add: table_read_entry_def octet_table_ok)
qed

end
