(* ===== verification/PlinkTables.thy ===== *)
theory PlinkTables
  imports UidTable
begin

text \<open>
  The two tables of the perfect link layer (src/plink.c): the acknowledgement table, shared
  by the receiver and the sender threads under a mutex, and the table of delivered
  messages, used by the receiver thread only.
\<close>

section \<open>Acknowledgement table\<close>

definition init_ack_table :: "env \<Rightarrow> ack_table \<Rightarrow> u32 \<Rightarrow> u32 \<Rightarrow> int \<times> ack_table" where
  "init_ack_table e acks no_ent no_proc =
     (if \<not> mutex_init_ok e then (err ERROR_MUTEX, acks)
      else let acks1 = acks\<lparr>table_mutex := False\<rparr>;
               (r, t) = init_table_uid e (ack_tab acks1) no_ent no_proc
           in (r, acks1\<lparr>ack_tab := t\<rparr>))"

definition is_ack :: "ack_table \<Rightarrow> mid_t \<Rightarrow> (u32 \<times> ack_table) run" where
  "is_ack acks mid =
     bnd (mutex_lock (table_mutex acks)) (\<lambda>_.
     bnd (table_read_entry (ack_tab acks) mid) (\<lambda>v.
     ret (v, acks\<lparr>table_mutex := False\<rparr>)))"

definition set_ack :: "env \<Rightarrow> ack_table \<Rightarrow> mid_t \<Rightarrow> (int \<times> ack_table) run" where
  "set_ack e acks mid =
     bnd (mutex_lock (table_mutex acks)) (\<lambda>_.
     bnd (table_write_entry e (ack_tab acks) mid 1) (\<lambda>(r, t).
     ret (r, acks\<lparr>ack_tab := t, table_mutex := False\<rparr>)))"

definition free_ack_table :: "ack_table \<Rightarrow> (int \<times> ack_table) run" where
  "free_ack_table acks = bnd (free_table_uid (ack_tab acks)) (\<lambda>(_, t). ret (0, acks\<lparr>ack_tab := t\<rparr>))"

definition acks_ok :: "ack_table \<Rightarrow> bool" where
  "acks_ok acks \<longleftrightarrow> table_ok (ack_tab acks) \<and> \<not> table_mutex acks"

abbreviation ack_view :: "ack_table \<Rightarrow> mid_t \<Rightarrow> u32" where
  "ack_view acks \<equiv> table_view (ack_tab acks)"

lemma is_ack_view: "acks_ok acks \<Longrightarrow> is_ack acks mid = ret (ack_view acks mid, acks)"
  by (simp add: is_ack_def acks_ok_def table_read_view)

lemma set_ack_in_range:
  assumes "acks_ok acks" "mid \<in> table_ids (ack_tab acks)"
  shows "\<exists>acks'. set_ack e acks mid = ret (0, acks') \<and> acks_ok acks'
     \<and> table_ids (ack_tab acks') = table_ids (ack_tab acks)
     \<and> ack_view acks' = (ack_view acks)(mid := 1)"
  using assms table_write_view [of "ack_tab acks" mid e 1]
  by (auto simp: acks_ok_def set_ack_def table_ids_def)

section \<open>Delivered table\<close>

definition init_deliver_pl :: "env \<Rightarrow> pl_delivered \<Rightarrow> u32 \<Rightarrow> u32 \<Rightarrow> int \<times> pl_delivered" where
  "init_deliver_pl e d no_ent no_proc =
     (let (r, t) = init_table_uid e (pl_tab d) no_ent no_proc in (r, d\<lparr>pl_tab := t\<rparr>))"

definition is_delivered :: "pl_delivered \<Rightarrow> mid_t \<Rightarrow> u32 run" where
  "is_delivered d mid = table_read_entry (pl_tab d) mid"

definition set_delivered :: "env \<Rightarrow> pl_delivered \<Rightarrow> mid_t \<Rightarrow> (int \<times> pl_delivered) run" where
  "set_delivered e d mid =
     bnd (table_write_entry e (pl_tab d) mid 1) (\<lambda>(r, t). ret (r, d\<lparr>pl_tab := t\<rparr>))"

definition free_delivered :: "pl_delivered \<Rightarrow> (int \<times> pl_delivered) run" where
  "free_delivered d = bnd (free (entries (pl_tab d))) (\<lambda>p. ret (0, d\<lparr>pl_tab := (pl_tab d)\<lparr>entries := p\<rparr>\<rparr>))"

section \<open>Both tables are flag stores\<close>

definition ack_flag :: "ack_table \<Rightarrow> mid_t \<Rightarrow> u32 run" where
  "ack_flag acks mid = bnd (is_ack acks mid) (\<lambda>(v, _). ret v)"

definition ack_mark :: "env \<Rightarrow> ack_table \<Rightarrow> mid_t \<Rightarrow> ack_table run" where
  "ack_mark e acks mid = bnd (set_ack e acks mid) (\<lambda>(r, acks'). if r = 0 then ret acks' else ub)"

definition delivered_mark :: "env \<Rightarrow> pl_delivered \<Rightarrow> mid_t \<Rightarrow> pl_delivered run" where
  "delivered_mark e d mid = bnd (set_delivered e d mid) (\<lambda>(r, d'). if r = 0 then ret d' else ub)"

interpretation acks: flag_store acks_ok "\<lambda>a. table_ids (ack_tab a)" ack_flag "ack_mark e" for e
proof unfold_locales
  fix s k
  assume s: "acks_ok s" and k: "k \<in> table_ids (ack_tab s)"
  from set_ack_in_range [OF s k, of e] obtain s' where s': "set_ack e s k = ret (0, s')"
    "acks_ok s'" "table_ids (ack_tab s') = table_ids (ack_tab s)"
    "ack_view s' = (ack_view s)(k := 1)" by blast
  then have "ack_mark e s k = ret s'" by (simp add: ack_mark_def)
  moreover have "\<forall>j \<in> table_ids (ack_tab s). ack_flag s' j = (if j = k then ret 1 else ack_flag s j)"
    using s s' by (simp add: ack_flag_def is_ack_view)
  ultimately show "\<exists>s'. ack_mark e s k = ret s' \<and> acks_ok s'
      \<and> table_ids (ack_tab s') = table_ids (ack_tab s)
      \<and> (\<forall>j \<in> table_ids (ack_tab s). ack_flag s' j = (if j = k then ret 1 else ack_flag s j))"
    using s'(2,3) by blast
next
  fix s k
  assume "acks_ok s"
  then show "returns (ack_flag s k)" by (simp add: ack_flag_def is_ack_view)
qed

lemma delivered_mark_put:
  "delivered_mark e d mid = bnd (table_put e (pl_tab d) mid 1) (\<lambda>t. ret (d\<lparr>pl_tab := t\<rparr>))"
  unfolding delivered_mark_def set_delivered_def table_put_def bnd_assoc
  by (rule bnd_cong) (auto split: prod.splits)

interpretation pl_deliv: flag_store "\<lambda>d. table_ok (pl_tab d)" "\<lambda>d. table_ids (pl_tab d)"
  is_delivered "delivered_mark e" for e
proof unfold_locales
  fix s :: pl_delivered and k
  assume s: "table_ok (pl_tab s)" and k: "k \<in> table_ids (pl_tab s)"
  from table.flags.mark_ok [OF s k, of e] obtain t' where
    "table_put e (pl_tab s) k 1 = ret t'" "table_ok t'" "table_ids t' = table_ids (pl_tab s)"
    "\<forall>j \<in> table_ids (pl_tab s). table_read_entry t' j = (if j = k then ret 1 else table_read_entry (pl_tab s) j)"
    by blast
  then show "\<exists>s'. delivered_mark e s k = ret s' \<and> table_ok (pl_tab s')
      \<and> table_ids (pl_tab s') = table_ids (pl_tab s)
      \<and> (\<forall>j \<in> table_ids (pl_tab s). is_delivered s' j = (if j = k then ret 1 else is_delivered s j))"
    by (intro exI [of _ "s\<lparr>pl_tab := t'\<rparr>"]) (simp add: delivered_mark_put is_delivered_def)
next
  fix s :: pl_delivered and k
  assume "table_ok (pl_tab s)" "k \<in> table_ids (pl_tab s)"
  then show "returns (is_delivered s k)" by (simp add: is_delivered_def table.read_ok)
qed

end
