(* ===== verification/UrbTable.thy ===== *)
theory UrbTable
  imports UidTable
begin

text \<open>
  The tables of uniform reliable broadcast (src/urb.c): which messages this process has
  seen and delivered, and which processes have seen which message.
\<close>

section \<open>Seen and delivered\<close>

definition MAX_SIZE_URB :: u32 where "MAX_SIZE_URB = 1024 * 8"

lemma unat_MAX_SIZE_URB [simp]: "unat MAX_SIZE_URB = 8192"
  by (simp add: MAX_SIZE_URB_def)

text \<open>\<open>sizeof(urb_entry_t)\<close> is 8.\<close>

definition init_urb_table :: "env \<Rightarrow> urb_table \<Rightarrow> u32 \<Rightarrow> u32 \<Rightarrow> int \<times> urb_table" where
  "init_urb_table e t n_msgs n_process =
     (let n = n_msgs * n_process; t1 = t\<lparr>urb_total_entries := n\<rparr> in
      if \<not> grant e (8 * unat n) then (err ERROR_MEMORY, t1\<lparr>urb_values := Null\<rparr>)
      else (0, t1\<lparr>urb_values := Arr (replicate (unat n) zero_urb_entry),
                urb_no_msgs := n_msgs, urb_no_process := n_process\<rparr>))"

text \<open>
  \<open>realloc_table\<close> passes the new number of entries to \<open>realloc\<close> as a number of bytes:
  the block it gets holds \<open>new_size\<close> bytes, while the entries that follow are written at
  byte \<open>8 * old_size\<close>. The write is inside the block only if
  \<open>8 * old_size + (new_size - old_size)\<close> is at most \<open>new_size\<close>.
\<close>

definition urb_realloc_bytes :: "env \<Rightarrow> urb_entry ptr \<Rightarrow> nat \<Rightarrow> urb_entry ptr run" where
  "urb_realloc_bytes e p nbytes =
     (case p of Wild \<Rightarrow> ub
      | Null \<Rightarrow> ret (if grant e nbytes then
          Arr (map (\<lambda>i. \<lparr>seen = junk e (2 * i), delivered = junk e (2 * i + 1)\<rparr>) [0..<nbytes div 8]) else Null)
      | Arr xs \<Rightarrow> ret (if grant e nbytes then
          Arr (map (\<lambda>i. if i < length xs then xs ! i
                 else \<lparr>seen = junk e (2 * i), delivered = junk e (2 * i + 1)\<rparr>) [0..<nbytes div 8]) else Null))"

definition realloc_table :: "env \<Rightarrow> urb_table \<Rightarrow> (int \<times> urb_table) run" where
  "realloc_table e t =
     (let old_size = urb_total_entries t; new_size = urb_total_entries t * 2 in
      bnd (urb_realloc_bytes e (urb_values t) (unat new_size)) (\<lambda>p.
      if p = Null then ret (err ERROR_MEMORY, t\<lparr>urb_values := Null\<rparr>)
      else if 8 * unat old_size + unat (new_size - old_size) \<le> unat new_size then
        ret (0, t\<lparr>urb_values := p, urb_total_entries := urb_total_entries t * 2,
                 urb_no_msgs := urb_no_msgs t * 2\<rparr>)
      else ub))"

definition is_delivered_urb :: "urb_table \<Rightarrow> u32 \<Rightarrow> u32 run" where
  "is_delivered_urb t sid =
     (if urb_total_entries t \<le> sid then ret 0
      else bnd (load (urb_values t) (unat sid)) (\<lambda>v. ret (delivered v)))"

definition is_seen_urb :: "urb_table \<Rightarrow> u32 \<Rightarrow> u32 run" where
  "is_seen_urb t sid =
     (if urb_total_entries t \<le> sid then ret 0
      else bnd (load (urb_values t) (unat sid)) (\<lambda>v. ret (seen v)))"

text \<open>The growth loop shared by the two writers.\<close>

partial_function (option) urb_grow :: "env \<Rightarrow> u32 \<Rightarrow> urb_table \<Rightarrow> (int \<times> urb_table) run" where
  "urb_grow e sid t =
     (if urb_total_entries t \<le> sid then
        bnd (realloc_table e t) (\<lambda>(r, t'). if r \<noteq> 0 then ret (r, t') else urb_grow e sid t')
      else ret (0, t))"

definition add_delivered_urb :: "env \<Rightarrow> urb_table \<Rightarrow> u32 \<Rightarrow> (int \<times> urb_table) run" where
  "add_delivered_urb e t sid =
     (if MAX_SIZE_URB < sid then ret (err ERROR_TABLE, t)
      else bnd (urb_grow e sid t) (\<lambda>(r, t').
        if r \<noteq> 0 then ret (r, t')
        else bnd (load (urb_values t') (unat sid)) (\<lambda>v.
             bnd (store (urb_values t') (unat sid) (v\<lparr>delivered := 1\<rparr>)) (\<lambda>p.
             ret (0, t'\<lparr>urb_values := p\<rparr>)))))"

definition add_seen_urb :: "env \<Rightarrow> urb_table \<Rightarrow> u32 \<Rightarrow> (int \<times> urb_table) run" where
  "add_seen_urb e t sid =
     (if MAX_SIZE_URB < sid then ret (err ERROR_TABLE, t)
      else bnd (urb_grow e sid t) (\<lambda>(r, t').
        if r \<noteq> 0 then ret (r, t')
        else bnd (load (urb_values t') (unat sid)) (\<lambda>v.
             bnd (store (urb_values t') (unat sid) (v\<lparr>seen := 1\<rparr>)) (\<lambda>p.
             ret (0, t'\<lparr>urb_values := p\<rparr>)))))"

definition free_urb_table :: "urb_table \<Rightarrow> (int \<times> urb_table) run" where
  "free_urb_table t = bnd (free (urb_values t)) (\<lambda>_. ret (0, t\<lparr>urb_values := Null\<rparr>))"

section \<open>Invariant and behaviour in range\<close>

definition urb_ok :: "urb_table \<Rightarrow> bool" where
  "urb_ok t \<longleftrightarrow> (case urb_values t of Arr xs \<Rightarrow> length xs = unat (urb_total_entries t) | _ \<Rightarrow> False)"

definition urb_ids :: "urb_table \<Rightarrow> u32 set" where
  "urb_ids t = {i. i < urb_total_entries t \<and> i \<le> MAX_SIZE_URB}"

lemma urb_okE:
  assumes "urb_ok t"
  obtains xs where "urb_values t = Arr xs" "length xs = unat (urb_total_entries t)"
  using assms by (auto simp: urb_ok_def split: ptr.splits)

lemma urb_ids_nat: "i \<in> urb_ids t \<longleftrightarrow> unat i < unat (urb_total_entries t) \<and> unat i \<le> 8192"
  by (simp add: urb_ids_def word_less_nat_alt word_le_nat_alt)

definition seen_view :: "urb_table \<Rightarrow> u32 \<Rightarrow> u32" where
  "seen_view t i = (if urb_total_entries t \<le> i then 0
     else case urb_values t of Arr xs \<Rightarrow> seen (xs ! unat i) | _ \<Rightarrow> 0)"

definition delivered_view :: "urb_table \<Rightarrow> u32 \<Rightarrow> u32" where
  "delivered_view t i = (if urb_total_entries t \<le> i then 0
     else case urb_values t of Arr xs \<Rightarrow> delivered (xs ! unat i) | _ \<Rightarrow> 0)"

lemma is_seen_view: "urb_ok t \<Longrightarrow> is_seen_urb t i = ret (seen_view t i)"
  and is_delivered_view: "urb_ok t \<Longrightarrow> is_delivered_urb t i = ret (delivered_view t i)"
  by (auto simp: urb_ok_def is_seen_urb_def is_delivered_urb_def seen_view_def delivered_view_def
      word_le_nat_alt split: ptr.splits)

lemma urb_grow_in_range: "sid < urb_total_entries t \<Longrightarrow> urb_grow e sid t = ret (0, t)"
  by (subst urb_grow.simps) (auto dest: leD)

lemma init_urb_table_ok:
  assumes "grant e (8 * unat (n * p))"
  shows "\<exists>t'. init_urb_table e t n p = (0, t') \<and> urb_ok t' \<and> urb_total_entries t' = n * p
    \<and> (\<forall>i. seen_view t' i = 0 \<and> delivered_view t' i = 0)"
  using assms
  by (auto simp: init_urb_table_def Let_def urb_ok_def seen_view_def delivered_view_def
      zero_urb_entry_def word_le_nat_alt)

lemma add_seen_in_range:
  assumes "urb_ok t" "i \<in> urb_ids t"
  shows "\<exists>t'. add_seen_urb e t i = ret (0, t') \<and> urb_ok t' \<and> urb_ids t' = urb_ids t
    \<and> urb_total_entries t' = urb_total_entries t
    \<and> seen_view t' = (seen_view t)(i := 1) \<and> delivered_view t' = delivered_view t"
proof -
  from assms(1) obtain xs where xs: "urb_values t = Arr xs" "length xs = unat (urb_total_entries t)"
    by (rule urb_okE)
  from assms(2) have i: "i < urb_total_entries t" "\<not> MAX_SIZE_URB < i" "unat i < unat (urb_total_entries t)"
    by (auto simp: urb_ids_nat word_less_nat_alt)
  let ?t' = "t\<lparr>urb_values := Arr (xs[unat i := (xs ! unat i)\<lparr>seen := 1\<rparr>])\<rparr>"
  have "add_seen_urb e t i = ret (0, ?t')"
    using xs i by (simp add: add_seen_urb_def urb_grow_in_range)
  moreover have "seen_view ?t' = (seen_view t)(i := 1)" "delivered_view ?t' = delivered_view t"
    using xs i by (auto simp: fun_eq_iff seen_view_def delivered_view_def nth_list_update
        word_unat_eq_iff word_le_nat_alt)
  ultimately show ?thesis using xs by (auto simp: urb_ok_def urb_ids_def)
qed

lemma add_delivered_in_range:
  assumes "urb_ok t" "i \<in> urb_ids t"
  shows "\<exists>t'. add_delivered_urb e t i = ret (0, t') \<and> urb_ok t' \<and> urb_ids t' = urb_ids t
    \<and> urb_total_entries t' = urb_total_entries t
    \<and> delivered_view t' = (delivered_view t)(i := 1) \<and> seen_view t' = seen_view t"
proof -
  from assms(1) obtain xs where xs: "urb_values t = Arr xs" "length xs = unat (urb_total_entries t)"
    by (rule urb_okE)
  from assms(2) have i: "i < urb_total_entries t" "\<not> MAX_SIZE_URB < i" "unat i < unat (urb_total_entries t)"
    by (auto simp: urb_ids_nat word_less_nat_alt)
  let ?t' = "t\<lparr>urb_values := Arr (xs[unat i := (xs ! unat i)\<lparr>delivered := 1\<rparr>])\<rparr>"
  have "add_delivered_urb e t i = ret (0, ?t')"
    using xs i by (simp add: add_delivered_urb_def urb_grow_in_range)
  moreover have "seen_view ?t' = seen_view t" "delivered_view ?t' = (delivered_view t)(i := 1)"
    using xs i by (auto simp: fun_eq_iff seen_view_def delivered_view_def nth_list_update
        word_unat_eq_iff word_le_nat_alt)
  ultimately show ?thesis using xs by (auto simp: urb_ok_def urb_ids_def)
qed

text \<open>
  Outside the range the first growth is undefined behaviour: the new block is a quarter of
  the old one.
\<close>

lemma realloc_table_ub:
  assumes "urb_ok t" "0 < urb_total_entries t" "urb_total_entries t \<le> MAX_SIZE_URB"
    "grant e (2 * unat (urb_total_entries t))"
  shows "realloc_table e t = ub"
proof -
  from assms(1) obtain xs where xs: "urb_values t = Arr xs" by (rule urb_okE)
  from assms(3) have d: "unat (urb_total_entries t * 2) = 2 * unat (urb_total_entries t)"
    by (simp add: double_u32 word_le_nat_alt)
  then have "unat (urb_total_entries t * 2 - urb_total_entries t) = unat (urb_total_entries t)"
    by (simp add: unat_sub word_le_nat_alt)
  with d assms(2,4) xs show ?thesis
    by (simp add: realloc_table_def Let_def urb_realloc_bytes_def word_less_nat_alt)
qed

lemma urb_grow_beyond:
  assumes "urb_ok t" "0 < urb_total_entries t" "urb_total_entries t \<le> sid" "sid \<le> MAX_SIZE_URB"
  shows "urb_grow e sid t = (if grant e (2 * unat (urb_total_entries t)) then ub
    else ret (err ERROR_MEMORY, t\<lparr>urb_values := Null\<rparr>))"
proof (cases "grant e (2 * unat (urb_total_entries t))")
  case True
  have "realloc_table e t = ub"
    by (rule realloc_table_ub [OF assms(1,2) _ True]) (use assms(3,4) in simp)
  with True assms(3) show ?thesis by (subst urb_grow.simps) simp
next
  case False
  from assms(1) obtain xs where "urb_values t = Arr xs" by (rule urb_okE)
  moreover have "unat (urb_total_entries t * 2) = 2 * unat (urb_total_entries t)"
    using assms(3,4) by (simp add: double_u32 word_le_nat_alt)
  ultimately have "realloc_table e t = ret (err ERROR_MEMORY, t\<lparr>urb_values := Null\<rparr>)"
    using False by (simp add: realloc_table_def Let_def urb_realloc_bytes_def)
  with False assms(3) show ?thesis by (subst urb_grow.simps) simp
qed

section \<open>The flag stores of the table\<close>

definition seen_mark :: "env \<Rightarrow> urb_table \<Rightarrow> u32 \<Rightarrow> urb_table run" where
  "seen_mark e t i = bnd (add_seen_urb e t i) (\<lambda>(r, t'). if r = 0 then ret t' else ub)"

definition delivered_urb_mark :: "env \<Rightarrow> urb_table \<Rightarrow> u32 \<Rightarrow> urb_table run" where
  "delivered_urb_mark e t i = bnd (add_delivered_urb e t i) (\<lambda>(r, t'). if r = 0 then ret t' else ub)"

interpretation urb_seen: flag_store urb_ok urb_ids is_seen_urb "seen_mark e" for e
proof unfold_locales
  fix t i assume t: "urb_ok t" and i: "i \<in> urb_ids t"
  from add_seen_in_range [OF t i, of e] obtain t' where "add_seen_urb e t i = ret (0, t')" "urb_ok t'"
    "urb_ids t' = urb_ids t" "seen_view t' = (seen_view t)(i := 1)" by blast
  then show "\<exists>t'. seen_mark e t i = ret t' \<and> urb_ok t' \<and> urb_ids t' = urb_ids t
      \<and> (\<forall>j \<in> urb_ids t. is_seen_urb t' j = (if j = i then ret 1 else is_seen_urb t j))"
    using t by (intro exI [of _ t']) (simp add: seen_mark_def is_seen_view)
next
  fix t i assume "urb_ok t" "i \<in> urb_ids t"
  then show "returns (is_seen_urb t i)" by (simp add: is_seen_view)
qed

interpretation urb_delivered: flag_store urb_ok urb_ids is_delivered_urb "delivered_urb_mark e" for e
proof unfold_locales
  fix t i assume t: "urb_ok t" and i: "i \<in> urb_ids t"
  from add_delivered_in_range [OF t i, of e] obtain t' where
    "add_delivered_urb e t i = ret (0, t')" "urb_ok t'"
    "urb_ids t' = urb_ids t" "delivered_view t' = (delivered_view t)(i := 1)" by blast
  then show "\<exists>t'. delivered_urb_mark e t i = ret t' \<and> urb_ok t' \<and> urb_ids t' = urb_ids t
      \<and> (\<forall>j \<in> urb_ids t. is_delivered_urb t' j = (if j = i then ret 1 else is_delivered_urb t j))"
    using t by (intro exI [of _ t']) (simp add: delivered_urb_mark_def is_delivered_view)
next
  fix t i assume "urb_ok t" "i \<in> urb_ids t"
  then show "returns (is_delivered_urb t i)" by (simp add: is_delivered_view)
qed

section \<open>Beyond the table\<close>

text \<open>C40: recording a message beyond the end of the table is undefined behaviour whenever the
  allocator grants the request: \<open>realloc\<close> is asked for a number of entries as if it were a
  number of bytes, the block shrinks to a quarter, and the bytes cleared lie outside it.\<close>

theorem urb_table_growth_overflows:
  assumes "urb_ok t" "0 < urb_total_entries t" "urb_total_entries t \<le> sid" "sid \<le> MAX_SIZE_URB"
    and "grant e (2 * unat (urb_total_entries t))"
  shows "add_seen_urb e t sid = ub \<and> add_delivered_urb e t sid = ub"
  using assms urb_grow_beyond [OF assms(1-4), of e]
  by (auto simp: add_seen_urb_def add_delivered_urb_def)

theorem urb_table_growth_overflows_witness:
  "add_seen_urb good_env \<lparr>urb_values = Arr [zero_urb_entry], urb_no_msgs = 1, urb_no_process = 1,
     urb_total_entries = 1\<rparr> 1 = ub"
  using urb_table_growth_overflows
    [of "\<lparr>urb_values = Arr [zero_urb_entry], urb_no_msgs = 1, urb_no_process = 1, urb_total_entries = 1\<rparr>" 1 good_env]
  by (simp add: urb_ok_def MAX_SIZE_URB_def)

end
