(* ===== verification/UrbAcks.thy ===== *)
theory UrbAcks
  imports UidTable
begin

text \<open>
  The acknowledgement table of uniform reliable broadcast (src/urb.c): entry
  \<open>seen_id * N + p - 1\<close> is 1 when process \<open>p\<close> is known to have the message \<open>seen_id\<close>;
  a message may be delivered when more than half of the entries of its row are 1.
\<close>

definition init_ack_urb :: "env \<Rightarrow> urb_ack_table \<Rightarrow> u32 \<Rightarrow> u32 \<Rightarrow> int \<times> urb_ack_table" where
  "init_ack_urb e d no_ent no_proc =
     (let (r, t) = init_table_uid e (urb_ack_tab d) no_ent no_proc in (r, d\<lparr>urb_ack_tab := t\<rparr>))"

definition set_ack_urb :: "env \<Rightarrow> urb_ack_table \<Rightarrow> mid_t \<Rightarrow> (int \<times> urb_ack_table) run" where
  "set_ack_urb e d mid =
     bnd (table_write_entry e (urb_ack_tab d) mid 1) (\<lambda>(r, t). ret (r, d\<lparr>urb_ack_tab := t\<rparr>))"

definition free_ack_urb :: "urb_ack_table \<Rightarrow> (int \<times> urb_ack_table) run" where
  "free_ack_urb d =
     bnd (free (entries (urb_ack_tab d))) (\<lambda>p. ret (0, d\<lparr>urb_ack_tab := (urb_ack_tab d)\<lparr>entries := p\<rparr>\<rparr>))"

text \<open>The counting loop of \<open>can_deliver\<close>, from index \<open>i\<close> up to \<open>stop\<close>.\<close>

function count_acks :: "u32 ptr \<Rightarrow> u32 \<Rightarrow> u32 \<Rightarrow> nat \<Rightarrow> nat run" where
  "count_acks p i stop counter =
     (if i < stop then
        bnd (load p (unat i)) (\<lambda>v.
          count_acks p (i + 1) stop (if v = 1 then counter + 1 else counter))
      else ret counter)"
  by pat_completeness auto
termination
proof (relation "measure (\<lambda>(p, i, stop, counter). unat stop - unat i)")
  fix p :: "u32 ptr" and i stop :: u32 and counter v
  assume "i < stop"
  then show "((p, i + 1, stop, if v = 1 then counter + 1 else counter), p, i, stop, counter)
      \<in> measure (\<lambda>(p, i, stop, counter). unat stop - unat i)"
    using unat_u32_lt [of stop] by (simp add: word_less_nat_alt unat_word_ariths)
qed simp

declare count_acks.simps [simp del]

definition can_deliver :: "urb_ack_table \<Rightarrow> u32 \<Rightarrow> int run" where
  "can_deliver d sid =
     (let t = urb_ack_tab d; no_proc = no_process t in
      if total_entries t \<le> no_proc * sid + no_proc then ret 0
      else bnd (count_acks (entries t) (sid * no_proc) (sid * no_proc + no_proc) 0) (\<lambda>counter.
        ret (if unat no_proc div 2 < counter then 1 else 0)))"

section \<open>Majorities\<close>

text \<open>The processes (counted from 0) whose acknowledgement of a message is recorded.\<close>

definition ackers :: "urb_ack_table \<Rightarrow> u32 \<Rightarrow> nat set" where
  "ackers d sid = {k. k < unat (no_process (urb_ack_tab d))
     \<and> table_view (urb_ack_tab d) (sid * no_process (urb_ack_tab d) + of_nat k) = 1}"

lemma finite_ackers [simp]: "finite (ackers d sid)"
  by (simp add: ackers_def)

lemma count_acks_spec:
  assumes "unat i + n < 2 ^ 32" "unat i + n \<le> length xs"
  shows "count_acks (Arr xs) i (i + of_nat n) c
    = ret (c + card {k. k < n \<and> xs ! (unat i + k) = 1})"
  using assms
proof (induction n arbitrary: i c)
  case 0
  then show ?case by (subst count_acks.simps) simp
next
  case (Suc n)
  have i1: "unat (i + 1) = unat i + 1" using Suc.prems(1) by (simp add: unat_word_ariths)
  have stop: "unat (i + of_nat (Suc n)) = unat i + Suc n"
    using Suc.prems(1) by (simp add: unat_word_ariths unat_of_nat take_bit_nat_eq_self)
  have less: "i < i + of_nat (Suc n)" using stop by (simp add: word_less_nat_alt del: of_nat_Suc)
  have set: "{k. k < Suc n \<and> xs ! (unat i + k) = 1}
      = (if xs ! unat i = 1 then {0} else {}) \<union> Suc ` {k. k < n \<and> xs ! (unat i + 1 + k) = 1}"
    by (auto simp: image_iff less_Suc_eq_0_disj)
  have card: "card {k. k < Suc n \<and> xs ! (unat i + k) = 1}
      = (if xs ! unat i = 1 then 1 else 0) + card {k. k < n \<and> xs ! (unat i + 1 + k) = 1}"
    unfolding set by (subst card_Un_disjoint) (auto simp: card_image)
  have "count_acks (Arr xs) i (i + of_nat (Suc n)) c
      = count_acks (Arr xs) (i + 1) (i + 1 + of_nat n) (if xs ! unat i = 1 then c + 1 else c)"
    using less Suc.prems(2) by (subst count_acks.simps) (simp add: add.assoc)
  also have "\<dots> = ret ((if xs ! unat i = 1 then c + 1 else c) + card {k. k < n \<and> xs ! (unat (i + 1) + k) = 1})"
    by (rule Suc.IH) (use Suc.prems i1 in simp_all)
  finally show ?case using i1 card by simp
qed

text \<open>What \<open>can_deliver\<close> decides: the row is strictly inside the table, and a majority.\<close>

lemma can_deliver_spec:
  assumes t: "table_ok (urb_ack_tab d)"
    and nowrap: "unat sid * unat (no_process (urb_ack_tab d)) + unat (no_process (urb_ack_tab d)) < 2 ^ 32"
  shows "can_deliver d sid = ret (if unat sid * unat (no_process (urb_ack_tab d))
       + unat (no_process (urb_ack_tab d)) < unat (total_entries (urb_ack_tab d))
     \<and> unat (no_process (urb_ack_tab d)) div 2 < card (ackers d sid) then 1 else 0)"
proof -
  let ?t = "urb_ack_tab d" and ?P = "no_process (urb_ack_tab d)"
  from t obtain xs where xs: "entries ?t = Arr xs" "length xs = unat (total_entries ?t)"
    by (rule table_okE)
  have a: "unat (sid * ?P) = unat sid * unat ?P" using nowrap by (simp add: unat_word_ariths)
  have b: "unat (?P * sid + ?P) = unat sid * unat ?P + unat ?P"
    using nowrap by (simp add: unat_word_ariths mult.commute)
  show ?thesis
  proof (cases "unat sid * unat ?P + unat ?P < unat (total_entries ?t)")
    case False
    then show ?thesis using b by (simp add: can_deliver_def Let_def word_le_nat_alt)
  next
    case True
    then have guard: "\<not> total_entries ?t \<le> ?P * sid + ?P" using b by (simp add: word_le_nat_alt)
    have "count_acks (Arr xs) (sid * ?P) (sid * ?P + of_nat (unat ?P)) 0
        = ret (0 + card {k. k < unat ?P \<and> xs ! (unat (sid * ?P) + k) = 1})"
      by (rule count_acks_spec) (use True nowrap xs(2) a in simp_all)
    moreover have "{k. k < unat ?P \<and> xs ! (unat (sid * ?P) + k) = 1} = ackers d sid"
    proof -
      have "unat (sid * ?P + of_nat k) = unat (sid * ?P) + k" if "k < unat ?P" for k
        using that nowrap a by (simp add: unat_word_ariths unat_of_nat take_bit_nat_eq_self)
      then show ?thesis
        using xs True a by (auto simp: ackers_def table_view_def word_le_nat_alt)
    qed
    ultimately show ?thesis
      using guard xs True by (simp add: can_deliver_def Let_def)
  qed
qed

lemma set_ack_urb_in_range:
  assumes "table_ok (urb_ack_tab d)" "mid \<in> table_ids (urb_ack_tab d)"
  shows "\<exists>d'. set_ack_urb e d mid = ret (0, d') \<and> table_ok (urb_ack_tab d')
     \<and> total_entries (urb_ack_tab d') = total_entries (urb_ack_tab d)
     \<and> no_process (urb_ack_tab d') = no_process (urb_ack_tab d)
     \<and> table_view (urb_ack_tab d') = (table_view (urb_ack_tab d))(mid := 1)"
  using table_write_view [OF assms, of e 1] by (auto simp: set_ack_urb_def)

section \<open>The majority test\<close>

text \<open>C22: in a table of \<open>rows\<close> messages of \<open>P\<close> processes the counting loop of \<open>can_deliver\<close>
  computes the majority test: it answers 1 exactly when the message is not the last of the
  table and more than half of the processes are recorded as having it. The last row is never
  deliverable, whatever is recorded there.\<close>

theorem can_deliver_is_majority:
  assumes "table_ok (urb_ack_tab d)" and "P = unat (no_process (urb_ack_tab d))"
    and "unat (total_entries (urb_ack_tab d)) = rows * P" and "unat sid < rows"
  shows "can_deliver d sid = ret (if unat sid + 1 < rows \<and> P < 2 * card (ackers d sid) then 1 else 0)"
proof -
  from assms(1) have pos: "0 < rows * P" by (elim table_okE) (simp add: assms(3))
  then obtain P' where P': "P = Suc P'" by (cases P) auto
  have le: "unat sid * P + P \<le> rows * P"
    using mult_le_mono1 [of "Suc (unat sid)" rows P] assms(4) by simp
  have lt: "rows * P < 2 ^ 32" using unat_u32_lt [of "total_entries (urb_ack_tab d)"] assms(3) by simp
  have "unat sid * P + P = Suc (unat sid) * P" by simp
  then have "unat sid * P + P < rows * P \<longleftrightarrow> unat sid + 1 < rows"
    using P' by (simp only: mult_less_cancel2) simp
  moreover have "P div 2 < c \<longleftrightarrow> P < 2 * c" for c :: nat by presburger
  ultimately show ?thesis
    using can_deliver_spec [OF assms(1), of sid] le lt assms(2,3) by auto
qed

definition acked_pair :: urb_ack_table where
  "acked_pair = \<lparr>urb_ack_tab = \<lparr>no_msgs = 2, no_process = 3, total_entries = 6,
     entries = Arr [1, 0, 1, 1, 1, 1]\<rparr>\<rparr>"

lemma acked_pair_view:
  "table_view (urb_ack_tab acked_pair) 0 = 1 \<and> table_view (urb_ack_tab acked_pair) 1 = 0
   \<and> table_view (urb_ack_tab acked_pair) 2 = 1"
  by code_simp

theorem can_deliver_is_majority_witness:
  "can_deliver acked_pair 0 = ret 1 \<and> can_deliver acked_pair 1 = ret 0"
proof -
  have ok: "table_ok (urb_ack_tab acked_pair)" "3 = unat (no_process (urb_ack_tab acked_pair))"
    "unat (total_entries (urb_ack_tab acked_pair)) = 2 * 3"
    by (simp_all add: acked_pair_def table_ok_def)
  have "k \<in> ackers acked_pair 0 \<longleftrightarrow> k = 0 \<or> k = 2" for k
  proof -
    have "k \<in> ackers acked_pair 0 \<longleftrightarrow> k < 3 \<and> table_view (urb_ack_tab acked_pair) (of_nat k) = 1"
      by (simp add: ackers_def acked_pair_def)
    note mem = this
    consider "k = 0" | "k = 1" | "k = 2" | "3 \<le> k" by linarith
    then show ?thesis using acked_pair_view mem by cases simp_all
  qed
  then have "ackers acked_pair 0 = {0, 2}" by auto
  then have "card (ackers acked_pair 0) = 2" by simp
  then show ?thesis
    using can_deliver_is_majority [OF ok, of 0] can_deliver_is_majority [OF ok, of 1] by simp
qed

end
