(* ===== verification/MQueue.thy ===== *)
theory MQueue
  imports Data
begin

text \<open>
  The queue of send tasks (src/mqueue.c): a circular buffer under a mutex, doubled when it
  is full. The receiver and the main thread put tasks in, the sender threads take them out.
\<close>

definition EMPTY_QUEUE :: int where "EMPTY_QUEUE = -1"

text \<open>
  \<open>sizeof(queue_task_t)\<close>: a vector clock takes 56 bytes (with its mutex), a causal message
  64, a broadcast message 80, a link message 96.
\<close>

definition sizeof_task :: nat where "sizeof_task = 104"

definition init_queue :: "env \<Rightarrow> msg_queue \<Rightarrow> nat \<Rightarrow> int \<times> msg_queue" where
  "init_queue e q len =
     (if \<not> mutex_init_ok e then (err ERROR_MUTEX, q)
      else let q1 = q\<lparr>queue_mutex := False, no_elem := 0\<rparr> in
        if \<not> grant e (len * sizeof_task) then (err ERROR_MEMORY, q1\<lparr>elems := Null\<rparr>)
        else (0, q1\<lparr>elems := Arr (replicate len zero_task), qsize := of_nat len,
                    q_front := 0, q_back := 0\<rparr>))"

definition queue_empty :: "msg_queue \<Rightarrow> bool" where
  "queue_empty q \<longleftrightarrow> no_elem q = 0"

text \<open>
  The copy loop of \<open>realloc_queue\<close>: element \<open>i\<close> of the new block is the element at
  \<open>index\<close> of the old one, and \<open>index\<close> goes round. \<open>k\<close> rounds are left.
\<close>

fun copy_ring :: "nat \<Rightarrow> queue_task ptr \<Rightarrow> u32 \<Rightarrow> u32 \<Rightarrow> nat \<Rightarrow> queue_task ptr \<Rightarrow> queue_task ptr run" where
  "copy_ring 0 old index osize i new = ret new"
| "copy_ring (Suc k) old index osize i new =
     bnd (load old (unat index)) (\<lambda>x.
     bnd (store new i x) (\<lambda>new'.
     if osize = 0 then ub
     else copy_ring k old ((index + 1) mod osize) osize (i + 1) new'))"

definition realloc_queue :: "env \<Rightarrow> msg_queue \<Rightarrow> (int \<times> msg_queue) run" where
  "realloc_queue e q =
     (let nsize = qsize q * 2 in
      if \<not> grant e (unat nsize * sizeof_task) then ret (err ERROR_MEMORY, q\<lparr>elems := Null\<rparr>)
      else bnd (copy_ring (unat (no_elem q)) (elems q) (q_front q) (qsize q) 0
                 (Arr (replicate (unat nsize) zero_task))) (\<lambda>new.
           bnd (free (elems q)) (\<lambda>_.
           ret (0, q\<lparr>elems := new, q_front := 0, q_back := no_elem q, qsize := nsize,
                    no_elem := no_elem q\<rparr>))))"

text \<open>
  When the growth fails \<open>enqueue\<close> returns without releasing the mutex, and so it does
  when the block is null.
\<close>

definition enqueue :: "env \<Rightarrow> msg_queue \<Rightarrow> queue_task \<Rightarrow> (int \<times> msg_queue) run" where
  "enqueue e q x =
     bnd (mutex_lock (queue_mutex q)) (\<lambda>m.
     let q = q\<lparr>queue_mutex := m\<rparr> in
     bnd (if no_elem q = qsize q then realloc_queue e q else ret (0, q)) (\<lambda>(r, q).
     if r \<noteq> 0 then ret (r, q)
     else if elems q = Null then ret (err ERROR_MEMORY, q)
     else bnd (store (elems q) (unat (q_back q)) x) (\<lambda>p.
          if qsize q = 0 then ub
          else ret (0, q\<lparr>elems := p, no_elem := no_elem q + 1,
                        q_back := (q_back q + 1) mod qsize q, queue_mutex := False\<rparr>))))"

text \<open>The out parameter is \<open>None\<close> when the call leaves it unwritten.\<close>

definition dequeue :: "msg_queue \<Rightarrow> (int \<times> queue_task option \<times> msg_queue) run" where
  "dequeue q =
     bnd (mutex_lock (queue_mutex q)) (\<lambda>m.
     let q = q\<lparr>queue_mutex := m\<rparr> in
     if queue_empty q then ret (EMPTY_QUEUE, None, q\<lparr>queue_mutex := False\<rparr>)
     else bnd (load (elems q) (unat (q_front q))) (\<lambda>x.
          if qsize q = 0 then ub
          else ret (0, Some x, q\<lparr>no_elem := no_elem q - 1,
                        q_front := (q_front q + 1) mod qsize q, queue_mutex := False\<rparr>)))"

definition free_queue :: "msg_queue \<Rightarrow> (int \<times> msg_queue) run" where
  "free_queue q = bnd (free (elems q)) (\<lambda>_. ret (0, q\<lparr>elems := Null\<rparr>))"

section \<open>Invariant and abstraction\<close>

text \<open>The tasks in the buffer, from the front.\<close>

definition ring :: "queue_task list \<Rightarrow> nat \<Rightarrow> nat \<Rightarrow> queue_task list" where
  "ring xs f n = map (\<lambda>k. xs ! ((f + k) mod length xs)) [0..<n]"

definition queue_tasks :: "msg_queue \<Rightarrow> queue_task list" where
  "queue_tasks q = (case elems q of Arr xs \<Rightarrow> ring xs (unat (q_front q)) (unat (no_elem q)) | _ \<Rightarrow> [])"

definition queue_ok :: "msg_queue \<Rightarrow> bool" where
  "queue_ok q \<longleftrightarrow> \<not> queue_mutex q \<and> (case elems q of
     Arr xs \<Rightarrow> length xs = unat (qsize q) \<and> 0 < unat (qsize q) \<and> unat (no_elem q) \<le> unat (qsize q)
        \<and> unat (q_front q) < unat (qsize q)
        \<and> unat (q_back q) = (unat (q_front q) + unat (no_elem q)) mod unat (qsize q)
   | _ \<Rightarrow> False)"

lemma queue_okE:
  assumes "queue_ok q"
  obtains xs where "\<not> queue_mutex q" "elems q = Arr xs" "length xs = unat (qsize q)"
    "0 < unat (qsize q)" "unat (no_elem q) \<le> unat (qsize q)" "unat (q_front q) < unat (qsize q)"
    "unat (q_back q) = (unat (q_front q) + unat (no_elem q)) mod unat (qsize q)"
  using assms by (auto simp: queue_ok_def split: ptr.splits)

lemma length_ring [simp]: "length (ring xs f n) = n"
  by (simp add: ring_def)

lemma length_queue_tasks: "queue_ok q \<Longrightarrow> length (queue_tasks q) = unat (no_elem q)"
  by (elim queue_okE) (simp add: queue_tasks_def)

lemma ring_snoc: "ring xs f (Suc n) = ring xs f n @ [xs ! ((f + n) mod length xs)]"
  by (simp add: ring_def)

lemma ring_Cons: "ring xs f (Suc n) = xs ! (f mod length xs) # ring xs (f + 1) n"
  by (simp add: ring_def upt_conv_Cons map_Suc_upt [symmetric] del: upt_Suc)

lemma ring_mod: "ring xs (f mod length xs) n = ring xs f n"
  by (simp add: ring_def mod_add_left_eq)

lemma mod_shift_eq:
  assumes "k < (m :: nat)" "m < n"
  shows "(f + m) mod n \<noteq> (f + k) mod n"
proof
  assume "(f + m) mod n = (f + k) mod n"
  with assms have "n dvd (f + m) - (f + k)" by (simp add: mod_eq_dvd_iff_nat)
  with assms show False by (auto dest: dvd_imp_le)
qed

lemma ring_update:
  assumes "n \<le> m" "m < length xs"
  shows "ring (xs[(f + m) mod length xs := x]) f n = ring xs f n"
  using assms by (auto simp: ring_def nth_list_update mod_shift_eq)

lemma copy_ring_spec:
  assumes "xs \<noteq> []" "length xs = unat osize" "unat index < length xs" "unat osize < 2 ^ 31"
    "i + k \<le> length ys" "length ys < 2 ^ 32"
  shows "copy_ring k (Arr xs) index osize (of_nat i) (Arr ys)
    = ret (Arr (take i ys @ ring xs (unat index) k @ drop (i + k) ys))"
  using assms(3,5,6)
proof (induction k arbitrary: index i ys)
  case 0
  then show ?case by (simp add: ring_def)
next
  case (Suc k)
  have i: "unat (of_nat i :: u32) = i" using Suc.prems by (simp add: unat_of_nat_u32)
  have pos: "0 < unat osize" using assms(1,2) by (metis length_greater_0_conv)
  then have nz: "osize \<noteq> 0" by auto
  have plus: "unat (index + 1) = unat index + 1"
    using Suc.prems(1) assms(2,4) by (simp add: unat_word_ariths)
  have step: "unat ((index + 1) mod osize) = (unat index + 1) mod length xs"
    using assms(2) by (simp add: unat_mod_distrib plus)
  let ?ys = "ys[i := xs ! unat index]"
  have "copy_ring (Suc k) (Arr xs) index osize (of_nat i) (Arr ys)
      = copy_ring k (Arr xs) ((index + 1) mod osize) osize (of_nat (Suc i)) (Arr ?ys)"
    using Suc.prems i nz by (simp add: add.commute)
  also have "\<dots> = ret (Arr (take (Suc i) ?ys @ ring xs (unat ((index + 1) mod osize)) k
      @ drop (Suc i + k) ?ys))"
    by (rule Suc.IH) (use Suc.prems step pos assms(2) in simp_all)
  also have "take (Suc i) ?ys = take i ys @ [xs ! unat index]"
    using Suc.prems(2) by (simp add: take_Suc_conv_app_nth)
  also have "ring xs (unat ((index + 1) mod osize)) k = ring xs (unat index + 1) k"
    using step ring_mod [of xs "unat index + 1" k] by simp
  finally show ?case
    using Suc.prems(1) by (simp add: ring_Cons)
qed

section \<open>What the operations do to the list of tasks\<close>

lemma realloc_queue_spec:
  assumes q: "elems q = Arr xs" "length xs = unat (qsize q)" "0 < unat (qsize q)"
      "unat (no_elem q) \<le> unat (qsize q)" "unat (q_front q) < unat (qsize q)"
    and small: "unat (qsize q) < 2 ^ 31"
    and grant: "grant e (unat (qsize q) * 2 * sizeof_task)"
  shows "\<exists>ys. realloc_queue e q = ret (0, q\<lparr>elems := Arr ys, q_front := 0, q_back := no_elem q,
      qsize := qsize q * 2\<rparr>) \<and> length ys = unat (qsize q * 2)
    \<and> ring ys 0 (unat (no_elem q)) = ring xs (unat (q_front q)) (unat (no_elem q))"
proof -
  have d: "unat (qsize q * 2) = unat (qsize q) * 2"
    using small by (simp add: unat_word_ariths)
  let ?n = "unat (no_elem q)" and ?f = "unat (q_front q)"
  let ?ys = "ring xs ?f ?n @ drop ?n (replicate (unat (qsize q * 2)) zero_task)"
  have "copy_ring ?n (Arr xs) (q_front q) (qsize q) (of_nat 0) (Arr (replicate (unat (qsize q * 2)) zero_task))
      = ret (Arr (take 0 (replicate (unat (qsize q * 2)) zero_task) @ ring xs ?f ?n
          @ drop (0 + ?n) (replicate (unat (qsize q * 2)) zero_task)))"
    by (rule copy_ring_spec) (use q small d in auto)
  then have "realloc_queue e q = ret (0, q\<lparr>elems := Arr ?ys, q_front := 0, q_back := no_elem q,
      qsize := qsize q * 2\<rparr>)"
    using q(1) grant d by (simp add: realloc_queue_def Let_def)
  moreover have "ring ?ys 0 ?n = ring xs ?f ?n"
    by (rule nth_equalityI) (use q(4) d in \<open>auto simp: ring_def nth_append\<close>)
  moreover have "length ?ys = unat (qsize q * 2)" using q(4) d by simp
  ultimately show ?thesis by blast
qed

text \<open>Inserting into a ring with room.\<close>

definition put_back :: "msg_queue \<Rightarrow> queue_task \<Rightarrow> msg_queue" where
  "put_back q x = q\<lparr>elems := (case elems q of Arr xs \<Rightarrow> Arr (xs[unat (q_back q) := x]) | p \<Rightarrow> p),
     no_elem := no_elem q + 1, q_back := (q_back q + 1) mod qsize q, queue_mutex := False\<rparr>"

lemma put_back_ok:
  assumes q: "queue_ok q" and room: "unat (no_elem q) < unat (qsize q)" and small: "unat (qsize q) < 2 ^ 32"
  shows "queue_ok (put_back q x) \<and> queue_tasks (put_back q x) = queue_tasks q @ [x]"
proof -
  from q obtain xs where xs: "elems q = Arr xs" "length xs = unat (qsize q)"
    "0 < unat (qsize q)" "unat (q_front q) < unat (qsize q)"
    "unat (q_back q) = (unat (q_front q) + unat (no_elem q)) mod unat (qsize q)"
    by (rule queue_okE)
  let ?b = "unat (q_back q)" and ?n = "unat (no_elem q)" and ?f = "unat (q_front q)"
  have b: "?b < unat (qsize q)" using xs(3,5) by simp
  have n1: "unat (no_elem q + 1) = ?n + 1"
    using room unat_u32_lt [of "qsize q"] by (simp add: unat_word_ariths)
  have b1: "unat (q_back q + 1) = ?b + 1"
    using b unat_u32_lt [of "qsize q"] by (simp add: unat_word_ariths)
  have "(?b + 1) mod unat (qsize q) = (?f + ?n + 1) mod unat (qsize q)"
    using xs(5) by (simp add: mod_Suc_eq)
  then have ok: "queue_ok (put_back q x)"
    using xs b n1 b1 room by (simp add: queue_ok_def put_back_def unat_mod_distrib)
  have "ring (xs[?b := x]) ?f (Suc ?n) = ring xs ?f ?n @ [x]"
    using ring_update [of ?n ?n xs ?f x] xs room b by (simp add: ring_snoc)
  then have "queue_tasks (put_back q x) = queue_tasks q @ [x]"
    using xs(1) n1 by (simp add: queue_tasks_def put_back_def)
  with ok show ?thesis by blast
qed

lemma enqueue_put_back:
  assumes "queue_ok q" "unat (no_elem q) < unat (qsize q)"
  shows "enqueue e q x = ret (0, put_back q x)"
proof -
  from assms(1) obtain xs where xs: "\<not> queue_mutex q" "elems q = Arr xs" "length xs = unat (qsize q)"
    "0 < unat (qsize q)"
    "unat (q_back q) = (unat (q_front q) + unat (no_elem q)) mod unat (qsize q)"
    by (rule queue_okE)
  then have "unat (q_back q) < length xs" "qsize q \<noteq> 0" by auto
  moreover have "no_elem q \<noteq> qsize q" using assms(2) by auto
  ultimately show ?thesis
    using xs by (simp add: enqueue_def put_back_def Let_def)
qed

lemma enqueue_ok:
  assumes q: "queue_ok q" and room: "length (queue_tasks q) < 2 ^ 31"
    and grant: "\<And>n. grant e n"
  shows "\<exists>q'. enqueue e q x = ret (0, q') \<and> queue_ok q' \<and> queue_tasks q' = queue_tasks q @ [x]"
proof (cases "no_elem q = qsize q")
  case False
  from q have "unat (no_elem q) \<le> unat (qsize q)" by (rule queue_okE)
  with False have less: "unat (no_elem q) < unat (qsize q)"
    by (metis le_neq_implies_less word_unat_eq_iff)
  from put_back_ok [OF q less] enqueue_put_back [OF q less] unat_u32_lt [of "qsize q"]
  show ?thesis by auto
next
  case True
  from q obtain xs where xs: "\<not> queue_mutex q" "elems q = Arr xs" "length xs = unat (qsize q)"
    "0 < unat (qsize q)" "unat (no_elem q) \<le> unat (qsize q)" "unat (q_front q) < unat (qsize q)"
    by (rule queue_okE)
  have small: "unat (qsize q) < 2 ^ 31" using room True length_queue_tasks [OF q] by simp
  let ?q = "q\<lparr>queue_mutex := True\<rparr>"
  from realloc_queue_spec [of ?q xs e] xs small grant obtain ys where
    r: "realloc_queue e ?q = ret (0, ?q\<lparr>elems := Arr ys, q_front := 0, q_back := no_elem q,
          qsize := qsize q * 2\<rparr>)" "length ys = unat (qsize q * 2)"
       "ring ys 0 (unat (no_elem q)) = ring xs (unat (q_front q)) (unat (no_elem q))" by auto
  have d: "unat (qsize q * 2) = unat (qsize q) * 2" using small by (simp add: unat_word_ariths)
  let ?q1 = "q\<lparr>elems := Arr ys, q_front := 0, q_back := no_elem q, qsize := qsize q * 2\<rparr>"
  have ok1: "queue_ok ?q1" and less1: "unat (no_elem ?q1) < unat (qsize ?q1)"
    using xs r(2) d by (auto simp: queue_ok_def)
  have tasks1: "queue_tasks ?q1 = queue_tasks q" using r(3) xs(2) by (simp add: queue_tasks_def)
  have "enqueue e q x = enqueue e ?q1 x"
    using xs r True d less1 by (auto simp: enqueue_def Let_def)
  with put_back_ok [OF ok1 less1] enqueue_put_back [OF ok1 less1] tasks1 unat_u32_lt [of "qsize ?q1"]
  show ?thesis by simp
qed

text \<open>Whatever the environment: a call that returns has appended the task, or holds the mutex.\<close>

lemma copy_ring_short:
  assumes "i \<le> length ys" "length ys < i + k"
  shows "copy_ring k old index osize i (Arr ys) \<noteq> ret new"
  using assms
proof (induction k arbitrary: index i ys)
  case (Suc k)
  show ?case
  proof
    assume "copy_ring (Suc k) old index osize i (Arr ys) = ret new"
    then obtain x where i: "i < length ys"
      and rest: "copy_ring k old ((index + 1) mod osize) osize (i + 1) (Arr (ys[i := x])) = ret new"
      by (auto simp: bnd_eq_ret store_eq_ret split: if_splits)
    from i Suc.prems Suc.IH [of "i + 1" "ys[i := x]" "(index + 1) mod osize"] rest show False by simp
  qed
qed simp

lemma enqueue_granted:
  assumes "grant e (unat (qsize q * 2) * sizeof_task)"
  shows "enqueue e q x = enqueue (with_memory e) q x"
proof -
  have "realloc_queue e (q\<lparr>queue_mutex := m\<rparr>) = realloc_queue (with_memory e) (q\<lparr>queue_mutex := m\<rparr>)" for m
    using assms by (simp add: realloc_queue_def Let_def)
  then show ?thesis by (simp add: enqueue_def Let_def cong: if_cong)
qed

lemma enqueue_ret:
  assumes q: "queue_ok q" and run: "enqueue e q x = ret (r, q')"
  shows "(r = 0 \<and> queue_ok q' \<and> queue_tasks q' = queue_tasks q @ [x]) \<or> (r \<noteq> 0 \<and> queue_mutex q')"
proof -
  from q obtain xs where xs: "\<not> queue_mutex q" "elems q = Arr xs" "length xs = unat (qsize q)"
    "unat (no_elem q) \<le> unat (qsize q)" by (rule queue_okE)
  consider "no_elem q \<noteq> qsize q" | "no_elem q = qsize q" "\<not> grant e (unat (qsize q * 2) * sizeof_task)"
    | "no_elem q = qsize q" "grant e (unat (qsize q * 2) * sizeof_task)" "unat (qsize q) < 2 ^ 31"
    | "no_elem q = qsize q" "grant e (unat (qsize q * 2) * sizeof_task)" "2 ^ 31 \<le> unat (qsize q)"
    by linarith
  then show ?thesis
  proof cases
    case 1
    then have "unat (no_elem q) \<noteq> unat (qsize q)" by (simp add: word_unat_eq_iff)
    with xs(4) have less: "unat (no_elem q) < unat (qsize q)" by simp
    from put_back_ok [OF q less, of x] enqueue_put_back [OF q less, of e x] run
      unat_u32_lt [of "qsize q"] show ?thesis by auto
  next
    case 2
    with run xs show ?thesis by (auto simp: enqueue_def realloc_queue_def Let_def)
  next
    case 3
    then have "length (queue_tasks q) < 2 ^ 31" using length_queue_tasks [OF q] by simp
    from enqueue_ok [OF q this, of "with_memory e" x] enqueue_granted [OF 3(2), of x] run
    show ?thesis by auto
  next
    case 4
    have "unat (qsize q * 2) < unat (qsize q)"
      using 4(3) unat_u32_lt [of "qsize q"] by (simp add: unat_word_ariths mod_if) linarith
    then have "copy_ring (unat (no_elem q)) (elems q) (q_front q) (qsize q) 0
        (Arr (replicate (unat (qsize q * 2)) zero_task)) \<noteq> ret new" for new
      using 4(1) by (intro copy_ring_short) simp_all
    then show ?thesis using run xs 4(1,2)
      by (auto simp: enqueue_def realloc_queue_def Let_def bnd_eq_ret)
  qed
qed

lemma dequeue_empty:
  assumes "queue_ok q" "queue_tasks q = []"
  shows "dequeue q = ret (EMPTY_QUEUE, None, q)"
proof -
  from assms length_queue_tasks [of q] have "unat (no_elem q) = 0" by simp
  then have "no_elem q = 0" by (simp add: unat_eq_0)
  with assms(1) show ?thesis
    by (elim queue_okE) (simp add: dequeue_def queue_empty_def Let_def)
qed

lemma dequeue_ok:
  assumes q: "queue_ok q" and tasks: "queue_tasks q = x # xs"
  shows "\<exists>q'. dequeue q = ret (0, Some x, q') \<and> queue_ok q' \<and> queue_tasks q' = xs"
proof -
  from q obtain es where es: "\<not> queue_mutex q" "elems q = Arr es" "length es = unat (qsize q)"
    "0 < unat (qsize q)" "unat (no_elem q) \<le> unat (qsize q)" "unat (q_front q) < unat (qsize q)"
    "unat (q_back q) = (unat (q_front q) + unat (no_elem q)) mod unat (qsize q)"
    by (rule queue_okE)
  let ?f = "unat (q_front q)" and ?n = "unat (no_elem q)"
  from tasks length_queue_tasks [OF q] have n: "?n = Suc (length xs)" by simp
  then have ne: "no_elem q \<noteq> 0" and n1: "unat (no_elem q - 1) = length xs"
    by (auto simp: unat_sub_u32)
  have f1: "unat (q_front q + 1) = ?f + 1"
    using es(6) unat_u32_lt [of "qsize q"] by (simp add: unat_word_ariths)
  have front: "es ! ?f = x" and rest: "ring es (?f + 1) (length xs) = xs"
    using tasks es n by (simp_all add: queue_tasks_def ring_Cons)
  let ?q' = "q\<lparr>no_elem := no_elem q - 1, q_front := (q_front q + 1) mod qsize q, queue_mutex := False\<rparr>"
  have "qsize q \<noteq> 0" using es(4) by auto
  then have "dequeue q = ret (0, Some x, ?q')"
    using es ne front by (simp add: dequeue_def queue_empty_def Let_def)
  moreover have "queue_ok ?q'"
    using es n n1 f1 by (simp add: queue_ok_def unat_mod_distrib mod_add_left_eq)
  moreover have "queue_tasks ?q' = xs"
    using es n1 f1 rest ring_mod [of es "?f + 1" "length xs"]
    by (simp add: queue_tasks_def unat_mod_distrib)
  ultimately show ?thesis by blast
qed

section \<open>The queue meets the contract\<close>

definition queue_put :: "env \<Rightarrow> msg_queue \<Rightarrow> queue_task \<Rightarrow> msg_queue run" where
  "queue_put e q x = bnd (enqueue e q x) (\<lambda>(r, q'). if r = 0 then ret q' else ub)"

definition queue_take :: "msg_queue \<Rightarrow> (queue_task option \<times> msg_queue) run" where
  "queue_take q = bnd (dequeue q) (\<lambda>(r, x, q'). ret (x, q'))"

interpretation queue: fifo_queue queue_ok queue_tasks "2 ^ 31" "queue_put (with_memory e)" queue_take for e
proof unfold_locales
  fix q :: msg_queue and x
  assume "queue_ok q" "length (queue_tasks q) < 2 ^ 31"
  from enqueue_ok [OF this, of "with_memory e" x]
  show "\<exists>q'. queue_put (with_memory e) q x = ret q' \<and> queue_ok q' \<and> queue_tasks q' = queue_tasks q @ [x]"
    by (auto simp: queue_put_def)
next
  fix q :: msg_queue
  assume "queue_ok q" "queue_tasks q = []"
  then show "queue_take q = ret (None, q)" by (simp add: queue_take_def dequeue_empty)
next
  fix q :: msg_queue and x xs
  assume "queue_ok q" "queue_tasks q = x # xs"
  from dequeue_ok [OF this]
  show "\<exists>q'. queue_take q = ret (Some x, q') \<and> queue_ok q' \<and> queue_tasks q' = xs"
    by (auto simp: queue_take_def)
qed

lemma init_queue_ok:
  assumes "mutex_init_ok e" "grant e (len * sizeof_task)" "0 < len" "len < 2 ^ 32"
  shows "\<exists>q'. init_queue e q len = (0, q') \<and> queue_ok q' \<and> queue_tasks q' = []"
  using assms
  by (auto simp: init_queue_def Let_def queue_ok_def queue_tasks_def ring_def unat_of_nat_u32)

lemma held_queue_hangs:
  assumes "queue_mutex q"
  shows "enqueue e q x = hang" "dequeue q = hang"
  using assms by (simp_all add: enqueue_def dequeue_def)

section \<open>Properties\<close>

text \<open>A queue of length one that is full, for the witnesses.\<close>

definition full_queue :: msg_queue where
  "full_queue = \<lparr>no_elem = 1, qsize = 1, q_front = 0, q_back = 0, elems = Arr [zero_task],
     queue_mutex = False\<rparr>"

text \<open>C16: a queue created with any positive length behaves as an unbounded first-in
  first-out list: every sequence of enqueues and dequeues (fewer than 2^31 enqueues, with
  memory available) returns, hands out the tasks in the order they were put in, each once,
  and reports an empty queue exactly when the list is empty, across every growth and every
  wrap of the circular buffer. (The comments on \<open>init_queue\<close> and \<open>enqueue\<close> promise a bound on
  the number of elements and the result -1 when the queue is full; the code has neither.)\<close>

theorem queue_refines_list:
  assumes "init_queue (with_memory e) q0 len = (0, q)" "0 < len" "len < 2 ^ 32" "puts ops \<le> 2 ^ 31"
  shows "\<exists>q'. run_queue (queue_put (with_memory e)) queue_take q ops
      = ret (fst (run_list [] ops), q')
    \<and> queue_ok q' \<and> queue_tasks q' = snd (run_list [] ops)"
proof -
  have "mutex_init_ok (with_memory e)"
    using assms(1) err_nz by (auto simp: init_queue_def split: if_splits)
  from init_queue_ok [OF this _ assms(2,3), of q0] assms(1)
  have "queue_ok q" "queue_tasks q = []" by auto
  with queue.run_refines [of q ops e] assms(4) show ?thesis by simp
qed

theorem queue_refines_list_witness:
  "\<exists>q'. run_queue (queue_put (with_memory good_env)) queue_take
      (snd (init_queue (with_memory good_env) full_queue 2)) [Put zero_task, Take, Take]
    = ret ([Some zero_task, None], q')"
proof -
  have "init_queue (with_memory good_env) full_queue 2
      = (0, snd (init_queue (with_memory good_env) full_queue 2))"
    by (simp add: init_queue_def Let_def with_memory_def)
  from queue_refines_list [OF this, of "[Put zero_task, Take, Take]"] show ?thesis by auto
qed

text \<open>C17: when the queue is full and the larger block cannot be allocated, \<open>enqueue\<close>
  returns ERROR_MEMORY with the mutex still held, and every later \<open>enqueue\<close> or
  \<open>dequeue\<close> on the queue blocks for ever.\<close>

theorem enqueue_failure_keeps_lock:
  assumes "queue_ok q" "no_elem q = qsize q" "\<not> grant e (unat (qsize q * 2) * sizeof_task)"
  shows "\<exists>q'. enqueue e q x = ret (err ERROR_MEMORY, q')
    \<and> (\<forall>e' y. enqueue e' q' y = hang) \<and> dequeue q' = hang"
proof -
  from assms(1) obtain xs where "\<not> queue_mutex q" "elems q = Arr xs" by (rule queue_okE)
  with assms(2,3) have "enqueue e q x = ret (err ERROR_MEMORY, q\<lparr>queue_mutex := True, elems := Null\<rparr>)"
    by (simp add: enqueue_def realloc_queue_def Let_def)
  then show ?thesis by (auto simp: held_queue_hangs)
qed

theorem enqueue_failure_keeps_lock_witness:
  "\<exists>q'. enqueue (good_env\<lparr>grant := \<lambda>_. False\<rparr>) full_queue zero_task = ret (err ERROR_MEMORY, q')
    \<and> dequeue q' = hang"
proof -
  have "queue_ok full_queue" "no_elem full_queue = qsize full_queue"
    "\<not> grant (good_env\<lparr>grant := \<lambda>_. False\<rparr>) (unat (qsize full_queue * 2) * sizeof_task)"
    by (simp_all add: queue_ok_def full_queue_def)
  from enqueue_failure_keeps_lock [OF this, of zero_task] show ?thesis by blast
qed

end
