(* ===== verification/VecClock.thy ===== *)
theory VecClock
  imports Data
begin

text \<open>
  Vector clocks (src/pending.c): allocation from an array of values, and release.
\<close>

definition alloc_vector :: "env \<Rightarrow> vec_clock \<Rightarrow> u32 \<Rightarrow> u32 ptr \<Rightarrow> (int \<times> vec_clock) run" where
  "alloc_vector e clocky n values =
     (let c = clocky\<lparr>vc_num_proc := n\<rparr> in
      if \<not> grant e (unat n * 4) then ret (err ERROR_MEMORY, c\<lparr>vector := Null\<rparr>)
      else bnd (read_block values (unat n)) (\<lambda>xs. ret (0, c\<lparr>vector := Arr xs\<rparr>)))"

text \<open>The argument is never a null clock at the callers.\<close>

definition destroy_vector :: "vec_clock \<Rightarrow> (int \<times> vec_clock) run" where
  "destroy_vector clocky =
     (if vector clocky = Null then ret (err ERROR_POINTER, clocky)
      else bnd (free (vector clocky)) (\<lambda>p. ret (0, clocky\<lparr>vector := p\<rparr>)))"

definition init_vector_mutex :: "env \<Rightarrow> vec_clock \<Rightarrow> u32 \<Rightarrow> (int \<times> vec_clock) run" where
  "init_vector_mutex e clocky n =
     (if \<not> mutex_init_ok e then ret (err ERROR_MUTEX, clocky)
      else bnd (alloc_vector e (clocky\<lparr>vc_mutex := False\<rparr>) n (Arr (replicate (unat n) 0))) (\<lambda>(r, c).
        if r \<noteq> 0 then ret (r, c) else ret (0, c)))"

text \<open>The entries of a clock; a clock that is usable has one per process.\<close>

definition clock_ok :: "nat \<Rightarrow> vec_clock \<Rightarrow> bool" where
  "clock_ok n c \<longleftrightarrow> (case vector c of Arr xs \<Rightarrow> length xs = n | _ \<Rightarrow> False)"

definition clock_val :: "vec_clock \<Rightarrow> nat \<Rightarrow> u32" where
  "clock_val c i = (case vector c of Arr xs \<Rightarrow> if i < length xs then xs ! i else 0 | _ \<Rightarrow> 0)"

lemma clock_okE:
  assumes "clock_ok n c"
  obtains xs where "vector c = Arr xs" "length xs = n"
  using assms by (auto simp: clock_ok_def split: ptr.splits)

lemma alloc_vector_Arr:
  assumes "unat n \<le> length xs"
  shows "alloc_vector e c n (Arr xs) =
    ret (if grant e (unat n * 4) then (0, c\<lparr>vc_num_proc := n, vector := Arr (take (unat n) xs)\<rparr>)
         else (err ERROR_MEMORY, c\<lparr>vc_num_proc := n, vector := Null\<rparr>))"
  using assms by (simp add: alloc_vector_def Let_def)

lemma init_vector_mutex_ok:
  assumes "mutex_init_ok e" "grant e (unat n * 4)"
  shows "\<exists>c'. init_vector_mutex e c n = ret (0, c') \<and> clock_ok (unat n) c' \<and> \<not> vc_mutex c'
    \<and> (\<forall>i. clock_val c' i = 0)"
  using assms by (simp add: init_vector_mutex_def alloc_vector_Arr clock_ok_def clock_val_def)

end
