(* ===== verification/Wire.thy ===== *)
theory Wire
  imports VecClock
begin

text \<open>
  The datagram format (src/layerzero.c): a message as an array of \<open>unsigned int\<close> sent as
  bytes, the fixed fields first and then the vector clock, an acknowledgement with the
  first four fields only (the rest of its datagram is indeterminate).
\<close>

section \<open>Words as bytes\<close>

definition le_bytes :: "u32 \<Rightarrow> byte list" where
  "le_bytes w = [ucast w, ucast (drop_bit 8 w), ucast (drop_bit 16 w), ucast (drop_bit 24 w)]"

fun words_of :: "byte list \<Rightarrow> u32 list" where
  "words_of (a # b # c # d # bs) =
     or (ucast a) (or (push_bit 8 (ucast b)) (or (push_bit 16 (ucast c)) (push_bit 24 (ucast d)))) # words_of bs"
| "words_of _ = []"

definition bytes_of :: "u32 list \<Rightarrow> byte list" where
  "bytes_of ws = concat (map le_bytes ws)"

lemma le_bytes_join:
  "or (ucast (ucast w :: byte)) (or (push_bit 8 (ucast (ucast (drop_bit 8 w) :: byte)))
     (or (push_bit 16 (ucast (ucast (drop_bit 16 w) :: byte)))
         (push_bit 24 (ucast (ucast (drop_bit 24 w) :: byte))))) = (w :: u32)"
  (is "?l = w")
proof (rule bit_word_eqI)
  fix n assume n: "n < LENGTH(32)"
  consider "n < 8" | "8 \<le> n" "n < 16" | "16 \<le> n" "n < 24" | "24 \<le> n" "n < 32"
    using n by force
  then show "bit ?l n = bit w n"
    by cases (auto simp: bit_simps)
qed

lemma words_of_le_bytes: "words_of (le_bytes w @ bs) = w # words_of bs"
  using le_bytes_join [of w] by (simp add: le_bytes_def)

lemma words_of_bytes_of [simp]: "words_of (bytes_of ws) = ws"
proof (induction ws)
  case (Cons w ws)
  have "bytes_of (w # ws) = le_bytes w @ bytes_of ws" by (simp add: bytes_of_def)
  with Cons show ?case by (simp only: words_of_le_bytes)
qed (simp add: bytes_of_def)

lemma length_bytes_of [simp]: "length (bytes_of ws) = 4 * length ws"
  by (induction ws) (simp_all add: bytes_of_def le_bytes_def)

lemma length_words_of: "length (words_of bs) = length bs div 4"
  by (induction bs rule: words_of.induct) simp_all

section \<open>The operations\<close>

definition message_size :: "nat \<Rightarrow> nat" where "message_size n = 4 * 7 + 4 * n"

definition num_fields :: "nat \<Rightarrow> nat" where "num_fields n = 7 + n"

definition num_static :: nat where "num_static = 7"

text \<open>The array \<open>temp\<close> before any assignment: indeterminate words.\<close>

definition temp_junk :: "env \<Rightarrow> nat \<Rightarrow> u32 list" where
  "temp_junk e n = map (junk e) [0..<num_fields n]"

definition serialize :: "env \<Rightarrow> msg \<Rightarrow> nat \<Rightarrow> (int \<times> byte ptr) run" where
  "serialize e m n =
     (if \<not> grant e (message_size n) then ret (err ERROR_MEMORY, Null)
      else let temp = (temp_junk e n)[0 := msg_mid m, 1 := ackid m, 2 := sender m, 3 := mtype m] in
        if mtype m = 1 then ret (0, Arr (bytes_of temp))
        else let temp = temp[4 := urb_mid (urb_part m), 5 := seen_id (urb_part m),
                             6 := lcb_original_sender (lcb_part (urb_part m))] in
          bnd (read_block (vector (lcb_clock (lcb_part (urb_part m)))) n) (\<lambda>vec.
          ret (0, Arr (bytes_of (take num_static temp @ vec)))))"

text \<open>The buffer read as an array of \<open>unsigned int\<close>.\<close>

definition buffer_words :: "byte ptr \<Rightarrow> u32 ptr" where
  "buffer_words p = (case p of Null \<Rightarrow> Null | Wild \<Rightarrow> Wild | Arr bs \<Rightarrow> Arr (words_of bs))"

definition offset_words :: "nat \<Rightarrow> u32 ptr \<Rightarrow> u32 ptr" where
  "offset_words k p = (case p of Arr xs \<Rightarrow> Arr (drop k xs) | q \<Rightarrow> q)"

definition deserialize :: "env \<Rightarrow> msg \<Rightarrow> byte ptr \<Rightarrow> nat \<Rightarrow> (int \<times> msg) run" where
  "deserialize e m buf n =
     (if buf = Null then ret (err ERROR_POINTER, m)
      else let ptr = buffer_words buf in
        bnd (load ptr 0) (\<lambda>w0. bnd (load ptr 1) (\<lambda>w1.
        bnd (load ptr 2) (\<lambda>w2. bnd (load ptr 3) (\<lambda>w3.
        let m = m\<lparr>msg_mid := w0, ackid := w1, sender := w2, mtype := w3\<rparr> in
        if mtype m = 1 then ret (0, m)
        else bnd (load ptr 4) (\<lambda>w4. bnd (load ptr 5) (\<lambda>w5. bnd (load ptr 6) (\<lambda>w6.
          let u = (urb_part m)\<lparr>urb_mid := w4, seen_id := w5\<rparr>;
              l = (lcb_part u)\<lparr>lcb_original_sender := w6\<rparr> in
          bnd (alloc_vector e (lcb_clock l) (of_nat n) (offset_words num_static ptr)) (\<lambda>(r, c).
          let m = m\<lparr>urb_part := u\<lparr>lcb_part := l\<lparr>lcb_clock := c\<rparr>\<rparr>\<rparr> in
          if r \<noteq> 0 then ret (r, m) else ret (0, m))))))))))"

definition send_message :: "env \<Rightarrow> net_data \<Rightarrow> u32 \<Rightarrow> msg \<Rightarrow> (int \<times> net_data) run" where
  "send_message e data dest_pid m =
     bnd (get_addr (address_book data) (unat dest_pid)) (\<lambda>(r, addr).
     if r \<noteq> 0 then ret (r, data)
     else case addr of None \<Rightarrow> ub | Some address \<Rightarrow>
       bnd (serialize e m (num_proc data)) (\<lambda>(r, buf).
       if r \<noteq> 0 then ret (r, data)
       else bnd (read_block buf (message_size (num_proc data))) (\<lambda>bytes.
         if \<not> sendto_ok e (length (net_out data)) then ret (err ERROR_SEND, data)
         else bnd (free buf) (\<lambda>_.
           ret (0, data\<lparr>net_out := net_out data @ [(address, bytes)]\<rparr>)))))"

text \<open>
  \<open>recvfrom\<close> puts the first \<open>message_size\<close> bytes of a datagram into the buffer and drops
  the rest; \<open>None\<close> stands for an error of the call. The out parameter comes back as it is
  after the call.
\<close>

definition receive_msg ::
  "env \<Rightarrow> net_data \<Rightarrow> byte ptr \<Rightarrow> byte list option \<Rightarrow> msg \<Rightarrow> (int \<times> msg \<times> byte ptr) run" where
  "receive_msg e data buf datagram next_message =
     (if buf = Null then ret (err ERROR_POINTER, next_message, buf)
      else case datagram of None \<Rightarrow> ret (err ERROR_NETWORK, next_message, buf)
      | Some bytes \<Rightarrow>
        bnd (read_block buf (message_size (num_proc data))) (\<lambda>old.
        let got = take (message_size (num_proc data)) bytes;
            buf' = Arr (got @ drop (length got) old) in
        bnd (deserialize e next_message buf' (num_proc data)) (\<lambda>(r, m).
        if r \<noteq> 0 then ret (r, m, buf') else ret (0, m, buf'))))"

section \<open>What is transported\<close>

text \<open>The part of a message that its datagram carries.\<close>

datatype wire =
    WireAck u32 u32 u32
  | WireMsg u32 u32 u32 u32 u32 u32 u32 "u32 list"

definition clock_entries :: "vec_clock \<Rightarrow> nat \<Rightarrow> u32 list" where
  "clock_entries c n = (case vector c of Arr xs \<Rightarrow> take n xs | _ \<Rightarrow> [])"

definition wire_of :: "nat \<Rightarrow> msg \<Rightarrow> wire" where
  "wire_of n m = (if mtype m = 1 then WireAck (msg_mid m) (ackid m) (sender m)
     else WireMsg (msg_mid m) (ackid m) (sender m) (mtype m) (urb_mid (urb_part m)) (seen_id (urb_part m))
            (lcb_original_sender (lcb_part (urb_part m)))
            (clock_entries (lcb_clock (lcb_part (urb_part m))) n))"

text \<open>A message that can be serialized: an acknowledgement, or one with a clock of full length.\<close>

definition sendable :: "nat \<Rightarrow> msg \<Rightarrow> bool" where
  "sendable n m \<longleftrightarrow> mtype m = 1
     \<or> (case vector (lcb_clock (lcb_part (urb_part m))) of Arr xs \<Rightarrow> n \<le> length xs | _ \<Rightarrow> False)"

lemma length_temp_junk [simp]: "length (temp_junk e n) = 7 + n"
  by (simp add: temp_junk_def num_fields_def)

lemma temp_junk_split: "temp_junk e n = map (junk e) [0..<7] @ map (junk e) [7..<7 + n]"
proof -
  have "[0..<7 + n] = [0..<7] @ [7..<7 + n]" using upt_add_eq_append [of 0 7 n] by simp
  then show ?thesis by (simp only: temp_junk_def num_fields_def map_append)
qed

lemma upt7: "[0..<7] = [0, 1, 2, 3, 4, 5, 6 :: nat]"
  by code_simp

lemma temp_ack: "(temp_junk e n)[0 := a, Suc 0 := b, 2 := c, 3 := d]
    = a # b # c # d # map (junk e) [4, 5, 6] @ map (junk e) [7..<7 + n]"
  by (simp add: temp_junk_split upt7)

lemma temp_msg: "take num_static ((temp_junk e n)[0 := a, Suc 0 := b, 2 := c, 3 := d, 4 := f, 5 := g, 6 := h])
    = [a, b, c, d, f, g, h]"
  by (simp add: temp_junk_split upt7 num_static_def)

lemma serialize_ok:
  assumes "sendable n m" "grant e (message_size n)"
  shows "\<exists>bs. serialize e m n = ret (0, Arr bs) \<and> length bs = message_size n"
proof (cases "mtype m = 1")
  case True
  with assms(2) show ?thesis
    by (simp add: serialize_def Let_def temp_ack message_size_def del: list_update.simps upt_Suc)
next
  case False
  with assms(1) obtain xs where "vector (lcb_clock (lcb_part (urb_part m))) = Arr xs" "n \<le> length xs"
    by (auto simp: sendable_def split: ptr.splits)
  with False assms(2) show ?thesis
    by (simp add: serialize_def Let_def message_size_def num_static_def)
qed

text \<open>
  Deserializing what \<open>serialize\<close> produced: the transported part is the one of the message
  sent; the fields that are not transported keep the values of the receiving variable.
\<close>

lemma wire_roundtrip:
  assumes m: "sendable n m" and grants: "\<And>k. grant e k" "\<And>k. grant e' k" and n: "n < 2 ^ 32"
    and ser: "serialize e m n = ret (0, buf)"
  shows "\<exists>m'. deserialize e' m0 buf n = ret (0, m') \<and> wire_of n m' = wire_of n m
    \<and> fifo_part (urb_part m') = fifo_part (urb_part m0)
    \<and> (mtype m = 1 \<longrightarrow> urb_part m' = urb_part m0)
    \<and> (mtype m \<noteq> 1 \<longrightarrow> clock_ok n (lcb_clock (lcb_part (urb_part m'))))"
proof (cases "mtype m = 1")
  case True
  with ser grants have "buf = Arr (bytes_of (msg_mid m # ackid m # sender m # 1
      # map (junk e) [4, 5, 6] @ map (junk e) [7..<7 + n]))"
    by (simp add: serialize_def Let_def temp_ack del: list_update.simps upt_Suc)
  with True show ?thesis
    by (simp add: deserialize_def buffer_words_def wire_of_def Let_def del: upt_Suc)
next
  case False
  with m obtain xs where xs: "vector (lcb_clock (lcb_part (urb_part m))) = Arr xs" "n \<le> length xs"
    by (auto simp: sendable_def split: ptr.splits)
  with ser grants False have "buf = Arr (bytes_of ([msg_mid m, ackid m, sender m, mtype m,
      urb_mid (urb_part m), seen_id (urb_part m), lcb_original_sender (lcb_part (urb_part m))] @ take n xs))"
    by (simp add: serialize_def Let_def temp_msg del: list_update.simps upt_Suc take_append)
  with False xs n grants show ?thesis
    by (simp add: deserialize_def buffer_words_def offset_words_def num_static_def Let_def
        alloc_vector_Arr unat_of_nat_u32 wire_of_def clock_entries_def clock_ok_def)
qed

section \<open>Round trip\<close>

text \<open>C23: the bytes that \<open>serialize\<close> produces for a message, read back by \<open>deserialize\<close> into any
  variable of any process, give a message with the same ids, type, sender and vector clock; an
  acknowledgement carries its four fields and leaves the rest of the variable alone; the
  sequence number of the FIFO part is not transported.\<close>

theorem datagram_roundtrip:
  assumes "sendable n m" and "\<And>k. grant e k" and "\<And>k. grant e' k" and "n < 2 ^ 32"
  shows "\<exists>bs m'. serialize e m n = ret (0, Arr bs) \<and> length bs = message_size n
    \<and> deserialize e' m0 (Arr bs) n = ret (0, m') \<and> wire_of n m' = wire_of n m
    \<and> fifo_part (urb_part m') = fifo_part (urb_part m0)
    \<and> (mtype m = 1 \<longrightarrow> urb_part m' = urb_part m0)"
  using serialize_ok [OF assms(1,2)] wire_roundtrip [OF assms(1-4)] by blast

theorem datagram_roundtrip_witness:
  "\<exists>bs m'. serialize good_env (zero_msg\<lparr>mtype := 1, ackid := 7\<rparr>) 2 = ret (0, Arr bs)
     \<and> deserialize good_env zero_msg (Arr bs) 2 = ret (0, m') \<and> ackid m' = 7"
proof -
  have "sendable 2 (zero_msg\<lparr>mtype := 1, ackid := 7\<rparr>)" by (simp add: sendable_def)
  from datagram_roundtrip [OF this, of good_env good_env zero_msg] show ?thesis
    by (auto simp: wire_of_def split: if_splits)
qed

end
