(* ===== verification/VecList.thy ===== *)
theory VecList
  imports VecClock
begin

text \<open>
  The doubly linked lists of vector clocks (src/pending.c) on an explicit heap of nodes:
  appending, unlinking and freeing, with every pointer dereference checked.
\<close>

section \<open>The heap of nodes\<close>

definition node_get :: "node_heap \<Rightarrow> ref \<Rightarrow> vec_node run" where
  "node_get h r = (case r of None \<Rightarrow> ub
     | Some a \<Rightarrow> (case nodes h a of None \<Rightarrow> ub | Some nd \<Rightarrow> ret nd))"

definition node_set :: "node_heap \<Rightarrow> ref \<Rightarrow> vec_node \<Rightarrow> node_heap" where
  "node_set h r nd = (case r of None \<Rightarrow> h | Some a \<Rightarrow> h\<lparr>nodes := (nodes h)(a \<mapsto> nd)\<rparr>)"

definition node_free :: "node_heap \<Rightarrow> nat \<Rightarrow> node_heap" where
  "node_free h a = h\<lparr>nodes := (nodes h)(a := None)\<rparr>"

text \<open>\<open>malloc(sizeof(vec_node_t))\<close>: the new node, indeterminate, at a fresh address.\<close>

definition sizeof_node :: nat where "sizeof_node = 72"

definition node_alloc :: "env \<Rightarrow> node_heap \<Rightarrow> nat \<times> node_heap" where
  "node_alloc e h = (next_addr h,
     \<lparr>nodes = (nodes h)(next_addr h \<mapsto>
        \<lparr>node_clock = uninit_clock e, node_next = None, node_previous = None\<rparr>),
      next_addr = next_addr h + 1\<rparr>)"

lemma node_get_Some: "node_get h (Some a) = ret nd \<longleftrightarrow> nodes h a = Some nd"
  by (simp add: node_get_def split: option.splits)

section \<open>The operations\<close>

definition init_veclist :: "vec_list \<Rightarrow> int \<times> vec_list" where
  "init_veclist l = (0, \<lparr>num_elems = 0, list_head = None, list_tail = None\<rparr>)"

definition add_veclist :: "env \<Rightarrow> vec_clock \<Rightarrow> vec_list \<Rightarrow> node_heap \<Rightarrow> (int \<times> vec_list \<times> node_heap) run" where
  "add_veclist e clock l h =
     (if vector clock = Null then ret (err ERROR_POINTER, l, h)
      else if \<not> grant e sizeof_node then ret (err ERROR_MEMORY, l, h)
      else let (a, h) = node_alloc e h in
        bnd (node_get h (Some a)) (\<lambda>nd.
        bnd (alloc_vector e (node_clock nd) (vc_num_proc clock) (vector clock)) (\<lambda>(r, c).
        let nd = nd\<lparr>node_clock := c\<rparr>; h = node_set h (Some a) nd in
        if r \<noteq> 0 then ret (r, l, h)
        else let nd = nd\<lparr>node_next := None\<rparr> in
          bnd (if num_elems l = 0
               then ret (l\<lparr>list_head := Some a, list_tail := Some a\<rparr>,
                         node_set h (Some a) (nd\<lparr>node_previous := None\<rparr>))
               else bnd (node_get h (list_tail l)) (\<lambda>t.
                    let h = node_set h (list_tail l) (t\<lparr>node_next := Some a\<rparr>) in
                    ret (l\<lparr>list_tail := Some a\<rparr>, node_set h (Some a) (nd\<lparr>node_previous := list_tail l\<rparr>))))
            (\<lambda>(l, h). ret (0, l\<lparr>num_elems := num_elems l + 1\<rparr>, h)))))"

text \<open>The two halves of unlinking: the link into the node, and the link back to it.\<close>

definition unlink_next :: "ref \<Rightarrow> vec_node \<Rightarrow> vec_list \<Rightarrow> node_heap \<Rightarrow> (vec_list \<times> node_heap) run" where
  "unlink_next node nd l h =
     (if list_head l = node then ret (l\<lparr>list_head := node_next nd\<rparr>, h)
      else bnd (node_get h (node_previous nd)) (\<lambda>p.
           ret (l, node_set h (node_previous nd) (p\<lparr>node_next := node_next nd\<rparr>))))"

definition unlink_previous :: "ref \<Rightarrow> vec_node \<Rightarrow> vec_list \<Rightarrow> node_heap \<Rightarrow> (vec_list \<times> node_heap) run" where
  "unlink_previous node nd l h =
     (if list_tail l = node then ret (l\<lparr>list_tail := node_previous nd\<rparr>, h)
      else bnd (node_get h (node_next nd)) (\<lambda>q.
           ret (l, node_set h (node_next nd) (q\<lparr>node_previous := node_previous nd\<rparr>))))"

definition remove_veclist :: "ref \<Rightarrow> vec_list \<Rightarrow> node_heap \<Rightarrow> (int \<times> vec_list \<times> node_heap) run" where
  "remove_veclist node l h =
     (case node of None \<Rightarrow> ret (err ERROR_POINTER, l, h)
      | Some a \<Rightarrow>
        bnd (node_get h node) (\<lambda>nd.
        if vector (node_clock nd) = Null then ret (err ERROR_POINTER, l, h)
        else
          bnd (unlink_next node nd l h) (\<lambda>(l, h).
          bnd (node_get h node) (\<lambda>nd.
          bnd (unlink_previous node nd l h) (\<lambda>(l, h).
          let l = l\<lparr>num_elems := size_dec (num_elems l)\<rparr> in
          bnd (node_get h node) (\<lambda>nd.
          bnd (destroy_vector (node_clock nd)) (\<lambda>(r, _).
          if r \<noteq> 0 then ret (r, l, h)
          else ret (0, l, node_free h a))))))))"

text \<open>The loop of \<open>free_veclist\<close> removes the head until the list is empty.\<close>

partial_function (option) free_veclist_loop :: "vec_list \<Rightarrow> node_heap \<Rightarrow> (int \<times> vec_list \<times> node_heap) run" where
  "free_veclist_loop l h =
     (if list_head l = None then ret (0, l\<lparr>list_tail := None, list_head := None\<rparr>, h)
      else bnd (remove_veclist (list_head l) l h) (\<lambda>(r, l', h').
        if r \<noteq> 0 then ret (r, l', h') else free_veclist_loop l' h'))"

definition free_veclist :: "vec_list \<Rightarrow> node_heap \<Rightarrow> (int \<times> vec_list \<times> node_heap) run" where
  "free_veclist l h = free_veclist_loop l h"

section \<open>Segments of a doubly linked list\<close>

text \<open>
  \<open>seg h p r as l q\<close>: from the pointer \<open>r\<close> the nodes \<open>as\<close> follow each other through
  \<open>next\<close>, and back through \<open>previous\<close>; \<open>p\<close> is the node before the first, \<open>l\<close> the last node
  (\<open>p\<close> if there is none), \<open>q\<close> what the last node's \<open>next\<close> holds.
\<close>

fun seg :: "(nat \<Rightarrow> vec_node option) \<Rightarrow> ref \<Rightarrow> ref \<Rightarrow> nat list \<Rightarrow> ref \<Rightarrow> ref \<Rightarrow> bool" where
  "seg h p r [] l q \<longleftrightarrow> r = q \<and> l = p"
| "seg h p r (a # as) l q \<longleftrightarrow> r = Some a \<and> (case h a of None \<Rightarrow> False
     | Some nd \<Rightarrow> node_previous nd = p \<and> seg h (Some a) (node_next nd) as l q)"

lemma seg_append: "seg h p r (as @ bs) l q \<longleftrightarrow> (\<exists>k m. seg h p r as k m \<and> seg h k m bs l q)"
  by (induction as arbitrary: p r) (auto split: option.splits)

lemma seg_frame: "(\<And>a. a \<in> set as \<Longrightarrow> h' a = h a) \<Longrightarrow> seg h' p r as l q = seg h p r as l q"
  by (induction as arbitrary: p r) (auto split: option.splits)

lemma seg_last: "seg h p r as l q \<Longrightarrow> l = (if as = [] then p else Some (last as))"
  by (induction as arbitrary: p r) (auto split: option.splits if_splits)

lemma seg_first: "seg h p r as l q \<Longrightarrow> r = (if as = [] then q else Some (hd as))"
  by (cases as) auto

lemma seg_alloc: "seg h p r as l q \<Longrightarrow> a \<in> set as \<Longrightarrow> \<exists>nd. h a = Some nd"
  by (induction as arbitrary: p r) (auto split: option.splits)

text \<open>Redirecting the \<open>next\<close> of the last node, and the \<open>previous\<close> of the first.\<close>

lemma seg_set_last:
  assumes "seg h p r (as @ [a]) l q" "a \<notin> set as" "h a = Some nd"
  shows "seg (h(a \<mapsto> nd\<lparr>node_next := q'\<rparr>)) p r (as @ [a]) l q'"
proof -
  from assms(1) obtain k m where km: "seg h p r as k m" "seg h k m [a] l q"
    by (auto simp: seg_append)
  have "seg (h(a \<mapsto> nd\<lparr>node_next := q'\<rparr>)) p r as k m"
    using km(1) assms(2) by (subst seg_frame [of as _ h]) auto
  moreover have "seg (h(a \<mapsto> nd\<lparr>node_next := q'\<rparr>)) k m [a] l q'"
    using km(2) assms(3) by simp
  ultimately show ?thesis unfolding seg_append by blast
qed

lemma seg_set_first:
  assumes "seg h p r (a # as) l q" "a \<notin> set as" "h a = Some nd"
  shows "seg (h(a \<mapsto> nd\<lparr>node_previous := p'\<rparr>)) p' r (a # as) l q"
proof -
  have "seg (h(a \<mapsto> nd\<lparr>node_previous := p'\<rparr>)) (Some a) (node_next nd) as l q"
    using assms by (subst seg_frame [of as _ h]) auto
  with assms show ?thesis by simp
qed

section \<open>The representation invariant\<close>

text \<open>
  The list \<open>l\<close> consists of the nodes \<open>as\<close>, in this order; each has a live vector.
\<close>

definition node_live :: "(nat \<Rightarrow> vec_node option) \<Rightarrow> nat \<Rightarrow> bool" where
  "node_live h a = (case h a of None \<Rightarrow> False
     | Some nd \<Rightarrow> (case vector (node_clock nd) of Arr _ \<Rightarrow> True | _ \<Rightarrow> False))"

definition veclist_ok :: "(nat \<Rightarrow> vec_node option) \<Rightarrow> vec_list \<Rightarrow> nat list \<Rightarrow> bool" where
  "veclist_ok h l as \<longleftrightarrow> seg h None (list_head l) as (list_tail l) None \<and> distinct as
     \<and> num_elems l = length as \<and> list_all (node_live h) as"

text \<open>The clocks of a list of nodes.\<close>

definition clock_at :: "(nat \<Rightarrow> vec_node option) \<Rightarrow> nat \<Rightarrow> vec_clock" where
  "clock_at h a = (case h a of Some nd \<Rightarrow> node_clock nd | None \<Rightarrow> zero_clock)"

lemma veclist_frame:
  assumes "veclist_ok h l as" "\<And>a. a \<in> set as \<Longrightarrow> h' a = h a"
  shows "veclist_ok h' l as"
  using assms by (auto simp: veclist_ok_def seg_frame [of as h' h] node_live_def list_all_iff)

lemma clock_at_frame: "h' a = h a \<Longrightarrow> clock_at h' a = clock_at h a"
  by (simp add: clock_at_def)

lemma node_liveE:
  assumes "node_live h a"
  obtains nd xs where "h a = Some nd" "vector (node_clock nd) = Arr xs"
  using assms by (auto simp: node_live_def split: option.splits ptr.splits)

section \<open>Appending\<close>

lemma add_veclist_ok:
  assumes l: "veclist_ok (nodes h) l as"
    and fresh: "\<And>b. next_addr h \<le> b \<Longrightarrow> nodes h b = None"
    and c: "vector clock = Arr xs" "unat (vc_num_proc clock) = length xs"
    and grants: "grant e sizeof_node" "grant e (unat (vc_num_proc clock) * 4)"
  shows "\<exists>l' h'. add_veclist e clock l h = ret (0, l', h')
    \<and> veclist_ok (nodes h') l' (as @ [next_addr h])
    \<and> vector (clock_at (nodes h') (next_addr h)) = Arr xs
    \<and> next_addr h' = next_addr h + 1
    \<and> (\<forall>b. b \<noteq> next_addr h \<longrightarrow> b \<notin> set as \<longrightarrow> nodes h' b = nodes h b)
    \<and> (\<forall>b \<in> set as. clock_at (nodes h') b = clock_at (nodes h) b)"
proof -
  let ?a = "next_addr h"
  let ?c = "(uninit_clock e)\<lparr>vc_num_proc := vc_num_proc clock, vector := Arr xs\<rparr>"
  let ?nd = "\<lparr>node_clock = ?c, node_next = None, node_previous = None\<rparr>"
  have a: "?a \<notin> set as"
  proof
    assume "?a \<in> set as"
    with l have "\<exists>nd. nodes h ?a = Some nd" by (auto simp: veclist_ok_def intro: seg_alloc)
    with fresh [of ?a] show False by simp
  qed
  have alloc: "alloc_vector e (uninit_clock e) (vc_num_proc clock) (Arr xs) = ret (0, ?c)"
    using c(2) grants(2) by (simp add: alloc_vector_Arr)
  show ?thesis
  proof (cases "as = []")
    case True
    let ?h' = "\<lparr>nodes = (nodes h)(?a \<mapsto> ?nd), next_addr = ?a + 1\<rparr>"
    let ?l' = "\<lparr>num_elems = 1, list_head = Some ?a, list_tail = Some ?a\<rparr>"
    from True l have "num_elems l = 0" by (simp add: veclist_ok_def)
    then have "add_veclist e clock l h = ret (0, ?l', ?h')"
      using c(1) grants(1) alloc
      by (simp add: add_veclist_def node_alloc_def node_get_def node_set_def Let_def)
    moreover have "veclist_ok (nodes ?h') ?l' (as @ [?a])"
      using True by (simp add: veclist_ok_def node_live_def)
    ultimately show ?thesis using True by (auto simp: clock_at_def)
  next
    case False
    let ?t = "last as"
    from False l have ne: "num_elems l \<noteq> 0" and tail: "list_tail l = Some ?t"
      by (auto simp: veclist_ok_def dest: seg_last)
    from False have t: "?t \<in> set as" by simp
    with l obtain td where td: "nodes h ?t = Some td" by (auto simp: veclist_ok_def dest: seg_alloc)
    from t a have ta: "?t \<noteq> ?a" by auto
    let ?nd' = "?nd\<lparr>node_previous := Some ?t\<rparr>"
    let ?h1 = "(nodes h)(?t \<mapsto> td\<lparr>node_next := Some ?a\<rparr>)"
    let ?h' = "\<lparr>nodes = ?h1(?a \<mapsto> ?nd'), next_addr = ?a + 1\<rparr>"
    let ?l' = "l\<lparr>list_tail := Some ?a, num_elems := num_elems l + 1\<rparr>"
    have run: "add_veclist e clock l h = ret (0, ?l', ?h')"
      using c(1) grants(1) alloc ne tail td ta
      by (simp add: add_veclist_def node_alloc_def node_get_def node_set_def Let_def fun_upd_twist)
    have "seg (nodes h) None (list_head l) (butlast as @ [?t]) (Some ?t) None"
      using l tail False by (simp add: veclist_ok_def)
    moreover have "?t \<notin> set (butlast as)"
      using l False by (metis append_butlast_last_id distinct_butlast not_distinct_conv_prefix veclist_ok_def)
    ultimately have "seg ?h1 None (list_head l) (butlast as @ [?t]) (Some ?t) (Some ?a)"
      using td by (rule seg_set_last)
    then have "seg ?h1 None (list_head l) as (Some ?t) (Some ?a)" using False by simp
    then have "seg (nodes ?h') None (list_head l) as (Some ?t) (Some ?a)"
      using a by (subst seg_frame [of as _ ?h1]) auto
    then have "seg (nodes ?h') None (list_head l) (as @ [?a]) (Some ?a) None"
      unfolding seg_append by (intro exI [of _ "Some ?t"] exI [of _ "Some ?a"]) simp
    moreover have "list_all (node_live (nodes ?h')) (as @ [?a])"
      using l td by (auto simp: veclist_ok_def list_all_iff node_live_def)
    ultimately have "veclist_ok (nodes ?h') ?l' (as @ [?a])"
      using l a by (simp add: veclist_ok_def)
    then show ?thesis using run t td a by (auto simp: clock_at_def)
  qed
qed

section \<open>Unlinking\<close>

lemma veclist_split:
  assumes "veclist_ok (nodes h) l (as @ a # bs)"
  obtains nd xs where "nodes h a = Some nd" "vector (node_clock nd) = Arr xs"
    "seg (nodes h) None (list_head l) as (node_previous nd) (Some a)"
    "seg (nodes h) (Some a) (node_next nd) bs (list_tail l) None"
    "a \<notin> set as" "a \<notin> set bs" "distinct as" "distinct bs" "set as \<inter> set bs = {}"
proof -
  from assms obtain k m where km: "seg (nodes h) None (list_head l) as k m"
      "seg (nodes h) k m (a # bs) (list_tail l) None"
    by (auto simp: veclist_ok_def seg_append)
  from assms have "node_live (nodes h) a" by (simp add: veclist_ok_def)
  then obtain nd xs where "nodes h a = Some nd" "vector (node_clock nd) = Arr xs"
    by (rule node_liveE)
  with km assms show thesis by (intro that [of nd xs]) (auto simp: veclist_ok_def)
qed

lemma unlink_next_ok:
  assumes s: "seg (nodes h) None (list_head l) as (node_previous nd) (Some a)"
    and a: "a \<notin> set as" "distinct as" "list_all (node_live (nodes h)) as"
  shows "\<exists>l' h'. unlink_next (Some a) nd l h = ret (l', h')
    \<and> seg (nodes h') None (list_head l') as (node_previous nd) (node_next nd)
    \<and> list_tail l' = list_tail l \<and> num_elems l' = num_elems l \<and> next_addr h' = next_addr h
    \<and> (\<forall>b. b \<notin> set as \<longrightarrow> nodes h' b = nodes h b)
    \<and> (\<forall>b \<in> set as. node_live (nodes h') b \<and> clock_at (nodes h') b = clock_at (nodes h) b)"
proof (cases "as = []")
  case True
  with s show ?thesis by (simp add: unlink_next_def)
next
  case False
  let ?t = "last as"
  from False have "hd as \<in> set as" by simp
  with seg_first [OF s] False a(1) have head: "list_head l \<noteq> Some a" by auto
  from False s have prev: "node_previous nd = Some ?t" by (auto dest: seg_last)
  from False have t: "?t \<in> set as" by simp
  with s obtain td where td: "nodes h ?t = Some td" by (auto dest: seg_alloc)
  let ?h' = "h\<lparr>nodes := (nodes h)(?t \<mapsto> td\<lparr>node_next := node_next nd\<rparr>)\<rparr>"
  have run: "unlink_next (Some a) nd l h = ret (l, ?h')"
    using head prev td by (simp add: unlink_next_def node_get_def node_set_def)
  have "?t \<notin> set (butlast as)"
    using a(2) False by (metis append_butlast_last_id distinct_butlast not_distinct_conv_prefix)
  moreover have "seg (nodes h) None (list_head l) (butlast as @ [?t]) (Some ?t) (Some a)"
    using s False prev by simp
  ultimately have "seg (nodes ?h') None (list_head l) (butlast as @ [?t]) (Some ?t) (node_next nd)"
    using td by (simp add: seg_set_last)
  then have "seg (nodes ?h') None (list_head l) as (node_previous nd) (node_next nd)"
    using False prev by simp
  moreover have "\<forall>b \<in> set as. node_live (nodes ?h') b \<and> clock_at (nodes ?h') b = clock_at (nodes h) b"
    using a(3) td by (auto simp: list_all_iff node_live_def clock_at_def)
  ultimately show ?thesis using run t by auto
qed

lemma unlink_previous_ok:
  assumes s: "seg (nodes h) (Some a) (node_next nd) bs (list_tail l) None"
    and a: "a \<notin> set bs" "distinct bs" "list_all (node_live (nodes h)) bs"
  shows "\<exists>l' h'. unlink_previous (Some a) nd l h = ret (l', h')
    \<and> seg (nodes h') (node_previous nd) (node_next nd) bs (list_tail l') None
    \<and> list_head l' = list_head l \<and> num_elems l' = num_elems l \<and> next_addr h' = next_addr h
    \<and> (\<forall>b. b \<notin> set bs \<longrightarrow> nodes h' b = nodes h b)
    \<and> (\<forall>b \<in> set bs. node_live (nodes h') b \<and> clock_at (nodes h') b = clock_at (nodes h) b)"
proof (cases bs)
  case Nil
  with s show ?thesis by (simp add: unlink_previous_def)
next
  case (Cons b bs')
  from Cons have "last bs \<in> set bs" by simp
  with seg_last [OF s] Cons a(1) have tail: "list_tail l \<noteq> Some a" by auto
  from Cons s have nxt: "node_next nd = Some b" by simp
  from Cons s obtain qd where qd: "nodes h b = Some qd" by (auto split: option.splits)
  let ?h' = "h\<lparr>nodes := (nodes h)(b \<mapsto> qd\<lparr>node_previous := node_previous nd\<rparr>)\<rparr>"
  have run: "unlink_previous (Some a) nd l h = ret (l, ?h')"
    using tail nxt qd by (simp add: unlink_previous_def node_get_def node_set_def)
  have "seg (nodes h) (Some a) (node_next nd) (b # bs') (list_tail l) None" using s Cons by simp
  moreover have "b \<notin> set bs'" using a(2) Cons by simp
  ultimately have "seg (nodes ?h') (node_previous nd) (node_next nd) (b # bs') (list_tail l) None"
    using qd seg_set_first by simp
  moreover have "\<forall>c \<in> set bs. node_live (nodes ?h') c \<and> clock_at (nodes ?h') c = clock_at (nodes h) c"
    using a(3) qd by (auto simp: list_all_iff node_live_def clock_at_def)
  ultimately show ?thesis using run Cons by auto
qed

lemma remove_veclist_ok:
  assumes l: "veclist_ok (nodes h) l (as @ a # bs)"
  shows "\<exists>l' h'. remove_veclist (Some a) l h = ret (0, l', h')
    \<and> veclist_ok (nodes h') l' (as @ bs) \<and> nodes h' a = None \<and> next_addr h' = next_addr h
    \<and> (\<forall>b. b \<notin> set (as @ a # bs) \<longrightarrow> nodes h' b = nodes h b)
    \<and> (\<forall>b \<in> set (as @ bs). clock_at (nodes h') b = clock_at (nodes h) b)"
proof -
  from l obtain nd xs where nd: "nodes h a = Some nd" "vector (node_clock nd) = Arr xs"
    and sg: "seg (nodes h) None (list_head l) as (node_previous nd) (Some a)"
      "seg (nodes h) (Some a) (node_next nd) bs (list_tail l) None"
    and dj: "a \<notin> set as" "a \<notin> set bs" "distinct as" "distinct bs" "set as \<inter> set bs = {}"
    by (rule veclist_split)
  from l have live: "list_all (node_live (nodes h)) as" "list_all (node_live (nodes h)) bs"
    and len: "num_elems l = Suc (length as + length bs)" by (simp_all add: veclist_ok_def)
  from unlink_next_ok [OF sg(1) dj(1,3) live(1)] obtain l1 h1 where
    u1: "unlink_next (Some a) nd l h = ret (l1, h1)"
      "seg (nodes h1) None (list_head l1) as (node_previous nd) (node_next nd)"
      "list_tail l1 = list_tail l" "num_elems l1 = num_elems l" "next_addr h1 = next_addr h"
    and f1: "\<And>b. b \<notin> set as \<Longrightarrow> nodes h1 b = nodes h b"
    and c1: "\<And>b. b \<in> set as \<Longrightarrow> node_live (nodes h1) b \<and> clock_at (nodes h1) b = clock_at (nodes h) b"
    by blast
  have nd1: "nodes h1 a = Some nd" using f1 dj(1) nd(1) by simp
  have bs1: "nodes h1 b = nodes h b" if "b \<in> set bs" for b using f1 that dj(5) by auto
  have "seg (nodes h1) (Some a) (node_next nd) bs (list_tail l1) None"
    using sg(2) u1(3) bs1 by (simp add: seg_frame [of bs "nodes h1" "nodes h"])
  moreover have "list_all (node_live (nodes h1)) bs"
    using live(2) bs1 by (simp add: list_all_iff node_live_def)
  ultimately obtain l2 h2 where
    u2: "unlink_previous (Some a) nd l1 h1 = ret (l2, h2)"
      "seg (nodes h2) (node_previous nd) (node_next nd) bs (list_tail l2) None"
      "list_head l2 = list_head l1" "num_elems l2 = num_elems l1" "next_addr h2 = next_addr h1"
    and f2: "\<And>b. b \<notin> set bs \<Longrightarrow> nodes h2 b = nodes h1 b"
    and c2: "\<And>b. b \<in> set bs \<Longrightarrow> node_live (nodes h2) b \<and> clock_at (nodes h2) b = clock_at (nodes h1) b"
    using unlink_previous_ok [of h1 a nd bs l1] dj(2,4) by blast
  have nd2: "nodes h2 a = Some nd" using f2 dj(2) nd1 by simp
  let ?l' = "l2\<lparr>num_elems := size_dec (num_elems l2)\<rparr>" and ?h' = "node_free h2 a"
  have run: "remove_veclist (Some a) l h = ret (0, ?l', ?h')"
    using nd nd1 nd2 u1(1) u2(1)
    by (simp add: remove_veclist_def node_get_def destroy_vector_def Let_def)
  have as2: "nodes h2 b = nodes h1 b" if "b \<in> set as" for b using f2 that dj(5) by auto
  have free: "nodes ?h' b = nodes h2 b" if "b \<noteq> a" for b using that by (simp add: node_free_def)
  have "seg (nodes ?h') None (list_head ?l') as (node_previous nd) (node_next nd)"
    using u1(2) u2(3) as2 free dj(1)
    by (subst seg_frame [of as _ "nodes h1"]) (auto, metis)
  moreover have "seg (nodes ?h') (node_previous nd) (node_next nd) bs (list_tail ?l') None"
    using u2(2) free dj(2) by (subst seg_frame [of bs _ "nodes h2"]) (auto, metis)
  ultimately have "seg (nodes ?h') None (list_head ?l') (as @ bs) (list_tail ?l') None"
    by (auto simp: seg_append)
  moreover have cl: "node_live (nodes ?h') b \<and> clock_at (nodes ?h') b = clock_at (nodes h) b"
    if "b \<in> set (as @ bs)" for b
  proof -
    from that dj have "b \<noteq> a" by auto
    with free have "node_live (nodes ?h') b = node_live (nodes h2) b"
      "clock_at (nodes ?h') b = clock_at (nodes h2) b" by (simp_all add: node_live_def clock_at_def)
    with that c1 c2 as2 bs1 show ?thesis by (auto simp: node_live_def clock_at_def)
  qed
  ultimately have "veclist_ok (nodes ?h') ?l' (as @ bs)"
    using dj u1(4) u2(4) len by (auto simp: veclist_ok_def list_all_iff)
  moreover have "nodes ?h' a = None" by (simp add: node_free_def)
  moreover have "next_addr ?h' = next_addr h" using u1(5) u2(5) by (simp add: node_free_def)
  moreover have "\<forall>b. b \<notin> set (as @ a # bs) \<longrightarrow> nodes ?h' b = nodes h b"
    using free f1 f2 by simp
  ultimately show ?thesis using run cl by blast
qed

lemma remove_null: "remove_veclist None l h = ret (err ERROR_POINTER, l, h)"
  by (simp add: remove_veclist_def)

section \<open>Freeing a list\<close>

lemma free_veclist_loop_ok:
  assumes "veclist_ok (nodes h) l as"
  shows "\<exists>l' h'. free_veclist_loop l h = ret (0, l', h') \<and> veclist_ok (nodes h') l' []
    \<and> (\<forall>a \<in> set as. nodes h' a = None) \<and> (\<forall>b. b \<notin> set as \<longrightarrow> nodes h' b = nodes h b)
    \<and> next_addr h' = next_addr h"
  using assms
proof (induction as arbitrary: l h)
  case Nil
  then show ?case
    by (subst free_veclist_loop.simps) (simp add: veclist_ok_def)
next
  case (Cons a as)
  from Cons.prems have head: "list_head l = Some a" by (simp add: veclist_ok_def)
  from remove_veclist_ok [of h l "[]" a as] Cons.prems obtain l1 h1 where
    r: "remove_veclist (Some a) l h = ret (0, l1, h1)" "veclist_ok (nodes h1) l1 as" "nodes h1 a = None"
      "next_addr h1 = next_addr h"
    and f1: "\<And>b. b \<notin> set (a # as) \<Longrightarrow> nodes h1 b = nodes h b" by auto
  from Cons.IH [OF r(2)] obtain l' h' where
    r': "free_veclist_loop l1 h1 = ret (0, l', h')" "veclist_ok (nodes h') l' []"
      "\<forall>b \<in> set as. nodes h' b = None" "\<forall>b. b \<notin> set as \<longrightarrow> nodes h' b = nodes h1 b"
      "next_addr h' = next_addr h1" by blast
  have "free_veclist_loop l h = ret (0, l', h')"
    using head r(1) r'(1) by (subst free_veclist_loop.simps) simp
  moreover have "a \<notin> set as" using Cons.prems by (simp add: veclist_ok_def)
  ultimately show ?case using r' r(3,4) f1 by auto
qed

section \<open>The list of nodes as a list of clocks\<close>

text \<open>C37: the doubly linked lists implement lists of clocks: removing any node of a well-formed
  list returns 0, frees that node and no other, and leaves the well-formed list without it,
  the other clocks unchanged and in order; appending adds one node at the end.\<close>

theorem veclist_refines_list:
  assumes "veclist_ok (nodes h) l as" and "a \<in> set as"
    and "\<And>b. next_addr h \<le> b \<Longrightarrow> nodes h b = None"
    and "vector clock = Arr xs" "unat (vc_num_proc clock) = length xs"
    and "grant e sizeof_node" "grant e (unat (vc_num_proc clock) * 4)"
  shows "\<exists>l1 h1 l2 h2. remove_veclist (Some a) l h = ret (0, l1, h1)
    \<and> veclist_ok (nodes h1) l1 (remove1 a as) \<and> nodes h1 a = None
    \<and> map (clock_at (nodes h1)) (remove1 a as) = map (clock_at (nodes h)) (remove1 a as)
    \<and> add_veclist e clock l h = ret (0, l2, h2)
    \<and> veclist_ok (nodes h2) l2 (as @ [next_addr h])
    \<and> map (vector \<circ> clock_at (nodes h2)) (as @ [next_addr h]) = map (vector \<circ> clock_at (nodes h)) as @ [Arr xs]"
proof -
  from assms(2) obtain ys zs where split: "as = ys @ a # zs" "a \<notin> set ys" by (meson split_list_first)
  then have rem: "remove1 a as = ys @ zs" by (simp add: remove1_append)
  from remove_veclist_ok [of h l ys a zs] assms(1) split(1) obtain l1 h1 where
    "remove_veclist (Some a) l h = ret (0, l1, h1)" "veclist_ok (nodes h1) l1 (ys @ zs)" "nodes h1 a = None"
    "\<forall>b \<in> set (ys @ zs). clock_at (nodes h1) b = clock_at (nodes h) b" by blast
  moreover from add_veclist_ok [OF assms(1,3-7)] obtain l2 h2 where
    "add_veclist e clock l h = ret (0, l2, h2)" "veclist_ok (nodes h2) l2 (as @ [next_addr h])"
    "vector (clock_at (nodes h2) (next_addr h)) = Arr xs"
    "\<forall>b \<in> set as. clock_at (nodes h2) b = clock_at (nodes h) b" by blast
  ultimately show ?thesis unfolding rem by (auto intro!: exI [of _ l1] exI [of _ h1])
qed

definition pair_heap :: node_heap where
  "pair_heap = \<lparr>nodes = [0 \<mapsto> \<lparr>node_clock = \<lparr>vc_num_proc = 1, vector = Arr [4], vc_mutex = False\<rparr>,
        node_next = Some 1, node_previous = None\<rparr>,
      1 \<mapsto> \<lparr>node_clock = \<lparr>vc_num_proc = 1, vector = Arr [5], vc_mutex = False\<rparr>,
        node_next = None, node_previous = Some 0\<rparr>], next_addr = 2\<rparr>"

definition pair_list :: vec_list where
  "pair_list = \<lparr>num_elems = 2, list_head = Some 0, list_tail = Some 1\<rparr>"

lemma pair_ok: "veclist_ok (nodes pair_heap) pair_list [0, 1]"
  by (simp add: veclist_ok_def pair_heap_def pair_list_def node_live_def)

theorem veclist_refines_list_witness:
  "\<exists>l h. remove_veclist (Some 0) pair_list pair_heap = ret (0, l, h) \<and> veclist_ok (nodes h) l [1]"
proof -
  have "\<And>b. next_addr pair_heap \<le> b \<Longrightarrow> nodes pair_heap b = None" by (simp add: pair_heap_def)
  from veclist_refines_list [OF pair_ok _ this, of 0 "\<lparr>vc_num_proc = 1, vector = Arr [6], vc_mutex = False\<rparr>" "[6]" good_env]
  show ?thesis by auto
qed

text \<open>Freeing a well-formed list ends, returns 0, leaves an empty list and frees exactly the
  nodes of the list.\<close>

theorem veclist_free_terminates:
  assumes "veclist_ok (nodes h) l as"
  shows "\<exists>l' h'. free_veclist l h = ret (0, l', h') \<and> veclist_ok (nodes h') l' []
    \<and> nodes h' = (\<lambda>b. if b \<in> set as then None else nodes h b)"
  using free_veclist_loop_ok [OF assms] by (fastforce simp: free_veclist_def fun_eq_iff)

theorem veclist_free_terminates_witness:
  "\<exists>l h. free_veclist pair_list pair_heap = ret (0, l, h) \<and> nodes h = Map.empty"
  using veclist_free_terminates [OF pair_ok] by (auto simp: pair_heap_def fun_eq_iff)

end
