(* ===== verification/Dependencies.thy ===== *)
theory Dependencies
  imports Data
begin

text \<open>
  The dependency matrix of localized causal broadcast (src/dependencies.c): for each
  process the list of the processes whose messages affect it. The rows are addressed by
  process id, from 1.
\<close>

section \<open>The operations\<close>

text \<open>
  \<open>get_dependencies\<close> returns a pointer into the array of lists: null, or the index of the
  list (\<open>from - 1\<close>, which wraps around for 0). Reading through it is \<open>dep_row\<close>.
\<close>

definition get_dependencies :: "dependencies option \<Rightarrow> nat \<Rightarrow> nat option" where
  "get_dependencies d from =
     (case d of None \<Rightarrow> None
      | Some m \<Rightarrow> if dep_lists m = Null \<or> dep_num_proc m < from then None else Some (size_dec from))"

definition dep_row :: "dependencies option \<Rightarrow> nat \<Rightarrow> dependency_list run" where
  "dep_row d i = (case d of None \<Rightarrow> ub | Some m \<Rightarrow> load (dep_lists m) i)"

definition dep_row_set :: "dependencies option \<Rightarrow> nat \<Rightarrow> dependency_list \<Rightarrow> dependencies option run" where
  "dep_row_set d i row =
     (case d of None \<Rightarrow> ub
      | Some m \<Rightarrow> bnd (store (dep_lists m) i row) (\<lambda>p. ret (Some (m\<lparr>dep_lists := p\<rparr>))))"

definition empty_row :: dependency_list where
  "empty_row = \<lparr>pid_list = Null, list_len = 0\<rparr>"

text \<open>Both structures take 16 bytes (per row); both allocations are always attempted.\<close>

definition alloc_dependencies :: "env \<Rightarrow> nat \<Rightarrow> dependencies option" where
  "alloc_dependencies e n =
     (if \<not> grant e 16 \<or> \<not> grant e (n * 16) \<or> n = 0 then None
      else Some \<lparr>dep_lists = Arr (replicate n empty_row), dep_num_proc = n\<rparr>)"

text \<open>The search loop of \<open>depends_on\<close>, from position \<open>i\<close> of the list.\<close>

fun search_pid :: "nat ptr \<Rightarrow> nat \<Rightarrow> nat \<Rightarrow> nat \<Rightarrow> int run" where
  "search_pid p to i 0 = ret 0"
| "search_pid p to i (Suc left) =
     bnd (load p i) (\<lambda>x. if x = to then ret 1 else search_pid p to (i + 1) left)"

definition depends_on :: "dependencies option \<Rightarrow> nat \<Rightarrow> nat \<Rightarrow> int run" where
  "depends_on d from to =
     (case d of None \<Rightarrow> ret (err ERROR_ARGS)
      | Some m \<Rightarrow>
        if dep_lists m = Null \<or> dep_num_proc m \<le> from then ret (err ERROR_ARGS)
        else case get_dependencies d from of None \<Rightarrow> ret (err ERROR_MEMORY)
          | Some i \<Rightarrow> bnd (dep_row d i) (\<lambda>row.
              if pid_list row = Null then ret 0
              else search_pid (pid_list row) to 0 (list_len row)))"

definition free_row :: "dependency_list \<Rightarrow> dependency_list run" where
  "free_row row = bnd (free (pid_list row)) (\<lambda>_. ret (row\<lparr>pid_list := Null\<rparr>))"

fun free_rows :: "nat \<Rightarrow> nat \<Rightarrow> dependency_list ptr \<Rightarrow> dependency_list ptr run" where
  "free_rows l 0 p = ret p"
| "free_rows l (Suc k) p =
     bnd (load p l) (\<lambda>row. bnd (free_row row) (\<lambda>row'.
     bnd (store p l row') (\<lambda>p'. free_rows (l + 1) k p')))"

text \<open>The matrix after the call; the structure itself is not released by the code.\<close>

definition free_dependencies :: "dependencies option \<Rightarrow> dependencies option run" where
  "free_dependencies d =
     (case d of None \<Rightarrow> ret None
      | Some m \<Rightarrow>
        if dep_lists m = Null then ret (Some (m\<lparr>dep_num_proc := 0\<rparr>))
        else bnd (free_rows 0 (dep_num_proc m) (dep_lists m)) (\<lambda>p.
             bnd (free p) (\<lambda>q. ret (Some \<lparr>dep_lists = q, dep_num_proc = 0\<rparr>))))"

definition set_dependencies ::
  "env \<Rightarrow> dependencies option \<Rightarrow> nat \<Rightarrow> nat ptr \<Rightarrow> nat \<Rightarrow> (int \<times> dependencies option) run" where
  "set_dependencies e d from pids len =
     (if d = None \<or> pids = Null then ret (err ERROR_MEMORY, d)
      else case get_dependencies d from of None \<Rightarrow> ret (err ERROR_MEMORY, d)
      | Some i \<Rightarrow> bnd (dep_row d i) (\<lambda>row.
          if 0 < len then
            (if pid_list row = Wild then ub
             else if \<not> grant e (len * 8) then
               bnd (dep_row_set d i (row\<lparr>pid_list := Null\<rparr>)) (\<lambda>d'. ret (err ERROR_MEMORY, d'))
             else bnd (read_block pids len) (\<lambda>xs.
               bnd (dep_row_set d i (row\<lparr>pid_list := Arr xs, list_len := len\<rparr>)) (\<lambda>d'. ret (0, d'))))
          else bnd (dep_row_set d i (row\<lparr>list_len := len\<rparr>)) (\<lambda>d'. ret (0, d'))))"

text \<open>
  \<open>alloc_reverse_dependencies\<close>: for each process \<open>from\<close> the inner loop collects the
  processes \<open>to\<close> with \<open>depends_on(reference, to, from)\<close>; a negative answer ends the call
  with a null result. Both loops count from 0.
\<close>

fun collect_rev :: "dependencies option \<Rightarrow> nat \<Rightarrow> nat \<Rightarrow> nat \<Rightarrow> nat list \<Rightarrow> nat list option run" where
  "collect_rev reference from to 0 acc = ret (Some acc)"
| "collect_rev reference from to (Suc k) acc =
     bnd (depends_on reference to from) (\<lambda>t.
       if t < 0 then ret None
       else collect_rev reference from (to + 1) k (if 0 < t then acc @ [to] else acc))"

text \<open>
  \<open>Inl\<close>: the result is null; \<open>Inr d\<close>: the loop goes on with \<open>d\<close>. The temporary matrix of a
  call that fails is released first.
\<close>

fun fill_rev :: "env \<Rightarrow> dependencies option \<Rightarrow> nat \<Rightarrow> nat \<Rightarrow> nat \<Rightarrow> dependencies option
    \<Rightarrow> (unit + dependencies option) run" where
  "fill_rev e reference n from 0 d = ret (Inr d)"
| "fill_rev e reference n from (Suc k) d =
     bnd (collect_rev reference from 0 n []) (\<lambda>c. case c of
       None \<Rightarrow> bnd (free_dependencies d) (\<lambda>_. ret (Inl ()))
     | Some pids \<Rightarrow>
        (case get_dependencies d from of
           None \<Rightarrow> bnd (free_dependencies d) (\<lambda>_. ret (Inl ()))
         | Some i \<Rightarrow> bnd (dep_row d i) (\<lambda>row.
             if \<not> grant e (length pids * 8)
             then bnd (dep_row_set d i (row\<lparr>pid_list := Null\<rparr>)) (\<lambda>d'.
                  bnd (free_dependencies d') (\<lambda>_. ret (Inl ())))
             else bnd (dep_row_set d i (row\<lparr>pid_list := Arr pids, list_len := length pids\<rparr>)) (\<lambda>d'.
                  fill_rev e reference n (from + 1) k d'))))"

definition alloc_reverse_dependencies :: "env \<Rightarrow> dependencies option \<Rightarrow> dependencies option run" where
  "alloc_reverse_dependencies e reference =
     (case reference of None \<Rightarrow> ret None
      | Some m \<Rightarrow>
        (case alloc_dependencies e (dep_num_proc m) of None \<Rightarrow> ret None
         | Some d \<Rightarrow> bnd (fill_rev e reference (dep_num_proc m) 0 (dep_num_proc m) (Some d)) (\<lambda>r.
             case r of Inl _ \<Rightarrow> ret None | Inr d' \<Rightarrow> ret d')))"

section \<open>Invariant\<close>

definition row_ok :: "dependency_list \<Rightarrow> bool" where
  "row_ok row \<longleftrightarrow> (case pid_list row of Null \<Rightarrow> list_len row = 0 | Wild \<Rightarrow> False
     | Arr xs \<Rightarrow> list_len row \<le> length xs)"

definition row_pids :: "dependency_list \<Rightarrow> nat list" where
  "row_pids row = (case pid_list row of Arr xs \<Rightarrow> take (list_len row) xs | _ \<Rightarrow> [])"

definition deps_ok :: "dependencies option \<Rightarrow> bool" where
  "deps_ok d \<longleftrightarrow> (case d of None \<Rightarrow> False | Some m \<Rightarrow> dep_num_proc m < 2 ^ 63 \<and>
     (case dep_lists m of Arr rows \<Rightarrow> length rows = dep_num_proc m \<and> list_all row_ok rows | _ \<Rightarrow> False))"

definition deps_pids :: "dependencies option \<Rightarrow> nat set" where
  "deps_pids d = (case d of None \<Rightarrow> {} | Some m \<Rightarrow> {1..dep_num_proc m})"

text \<open>The dependencies of a process, as the clients read them.\<close>

definition deps_of :: "dependencies option \<Rightarrow> nat \<Rightarrow> nat list run" where
  "deps_of d pid = (case get_dependencies d pid of None \<Rightarrow> ub
     | Some i \<Rightarrow> bnd (dep_row d i) (\<lambda>row. ret (row_pids row)))"

definition deps_put :: "env \<Rightarrow> dependencies option \<Rightarrow> nat \<Rightarrow> nat list \<Rightarrow> dependencies option run" where
  "deps_put e d pid pids = bnd (set_dependencies e d pid (Arr pids) (length pids))
     (\<lambda>(r, d'). if r = 0 then ret d' else ub)"

lemma deps_okE:
  assumes "deps_ok d"
  obtains m rows where "d = Some m" "dep_lists m = Arr rows" "length rows = dep_num_proc m"
    "list_all row_ok rows" "dep_num_proc m < 2 ^ 63"
  using assms by (auto simp: deps_ok_def split: option.splits ptr.splits)

lemma alloc_dependencies_ok:
  assumes "grant e 16" "grant e (n * 16)" "0 < n" "n < 2 ^ 63"
  shows "deps_ok (alloc_dependencies e n) \<and> deps_pids (alloc_dependencies e n) = {1..n}
    \<and> (\<forall>p \<in> {1..n}. deps_of (alloc_dependencies e n) p = ret [])"
  using assms
  by (auto simp: alloc_dependencies_def deps_ok_def deps_pids_def empty_row_def row_ok_def
      list_all_length deps_of_def get_dependencies_def dep_row_def row_pids_def)

lemma row_in_range:
  assumes "d = Some m" "dep_lists m = Arr rows" "length rows = dep_num_proc m"
    "1 \<le> pid" "pid \<le> dep_num_proc m"
  shows "get_dependencies d pid = Some (pid - 1)" "dep_row d (pid - 1) = ret (rows ! (pid - 1))"
    "dep_row_set d (pid - 1) row = ret (Some (m\<lparr>dep_lists := Arr (rows[pid - 1 := row])\<rparr>))"
  using assms by (auto simp: get_dependencies_def dep_row_def dep_row_set_def)

interpretation deps: indexed_store deps_ok deps_pids deps_of "deps_put (with_memory e)" for e
proof unfold_locales
  fix d pid pids
  assume d: "deps_ok d" and pid: "pid \<in> deps_pids d"
  from d obtain m rows where m: "d = Some m" "dep_lists m = Arr rows" "length rows = dep_num_proc m"
    "list_all row_ok rows" "dep_num_proc m < 2 ^ 63" by (rule deps_okE)
  from pid m(1) have p: "1 \<le> pid" "pid \<le> dep_num_proc m" by (auto simp: deps_pids_def)
  note row = row_in_range [OF m(1-3) p]
  from p m(3) have i: "pid - 1 < length rows" by simp
  with m(4) have "row_ok (rows ! (pid - 1))" by (simp add: list_all_length)
  then have "pid_list (rows ! (pid - 1)) \<noteq> Wild" by (auto simp: row_ok_def)
  then obtain row' where set: "deps_put (with_memory e) d pid pids
      = ret (Some (m\<lparr>dep_lists := Arr (rows[pid - 1 := row'])\<rparr>))"
    and row': "row_ok row'" "row_pids row' = pids"
    using row m(1) \<open>row_ok (rows ! (pid - 1))\<close>
    by (cases "pids = []")
      (auto simp: deps_put_def set_dependencies_def row_ok_def row_pids_def split: ptr.splits)
  let ?d' = "Some (m\<lparr>dep_lists := Arr (rows[pid - 1 := row'])\<rparr>)"
  have "list_all row_ok (rows[pid - 1 := row'])"
    using m(4) row'(1) by (auto simp: list_all_iff dest!: subsetD [OF set_update_subset_insert])
  then have "deps_ok ?d'" using m by (simp add: deps_ok_def)
  moreover have "deps_pids ?d' = deps_pids d" using m(1) by (simp add: deps_pids_def)
  moreover have "deps_of ?d' j = (if j = pid then ret pids else deps_of d j)" if "j \<in> deps_pids d" for j
  proof -
    from that m(1) have j: "1 \<le> j" "j \<le> dep_num_proc m" by (auto simp: deps_pids_def)
    show ?thesis
      using row_in_range [OF m(1-3) j] row_in_range [of ?d' "m\<lparr>dep_lists := Arr (rows[pid - 1 := row'])\<rparr>"
          "rows[pid - 1 := row']" j] m(3) j p row'(2)
      by (auto simp: deps_of_def nth_list_update)
  qed
  ultimately show "\<exists>d'. deps_put (with_memory e) d pid pids = ret d' \<and> deps_ok d' \<and> deps_pids d' = deps_pids d
      \<and> (\<forall>j \<in> deps_pids d. deps_of d' j = (if j = pid then ret pids else deps_of d j))"
    using set by blast
next
  fix d pid
  assume "deps_ok d" "pid \<in> deps_pids d"
  then show "returns (deps_of d pid)"
    by (elim deps_okE) (auto simp: deps_of_def get_dependencies_def dep_row_def deps_pids_def)
qed

section \<open>depends\_on and the reversed matrix\<close>

lemma search_pid_spec:
  "i + k \<le> length xs \<Longrightarrow> search_pid (Arr xs) to i k = ret (if to \<in> set (take k (drop i xs)) then 1 else 0)"
proof (induction k arbitrary: i)
  case (Suc k)
  then have "take (Suc k) (drop i xs) = xs ! i # take k (drop (i + 1) xs)"
    by (metis Cons_nth_drop_Suc Suc_eq_plus1 add_Suc_right less_le_trans less_add_Suc1 take_Suc_Cons)
  with Suc show ?case by simp
qed simp

text \<open>The answer of \<open>depends_on\<close> for every argument.\<close>

lemma depends_on_cases:
  assumes "deps_ok d" "d = Some m"
  shows "depends_on d from to =
    (if dep_num_proc m \<le> from then ret (err ERROR_ARGS)
     else if from = 0 then ub
     else bnd (deps_of d from) (\<lambda>pids. ret (if to \<in> set pids then 1 else 0)))"
proof -
  from assms obtain rows where m: "dep_lists m = Arr rows" "length rows = dep_num_proc m"
    "list_all row_ok rows" "dep_num_proc m < 2 ^ 63" by (auto elim: deps_okE)
  consider "dep_num_proc m \<le> from" | "from = 0" "0 < dep_num_proc m" | "1 \<le> from" "from < dep_num_proc m"
    by force
  then show ?thesis
  proof cases
    case 3
    with m have "row_ok (rows ! (from - 1))" by (simp add: list_all_length)
    then show ?thesis
      using 3 m assms(2) search_pid_spec [of 0 "list_len (rows ! (from - 1))"]
      by (auto simp: depends_on_def deps_of_def get_dependencies_def dep_row_def row_ok_def row_pids_def
          split: ptr.splits)
  qed (use m assms(2) in \<open>auto simp: depends_on_def get_dependencies_def dep_row_def size_dec_def\<close>)
qed

lemma alloc_reverse_ub:
  assumes "deps_ok d" "d = Some m" "0 < dep_num_proc m" "grant e 16" "grant e (dep_num_proc m * 16)"
  shows "alloc_reverse_dependencies e d = ub"
proof -
  from assms(3) obtain k where k: "dep_num_proc m = Suc k" by (cases "dep_num_proc m") auto
  have "depends_on d 0 0 = ub" using depends_on_cases [OF assms(1,2)] assms(3) by simp
  then have "collect_rev d 0 0 (dep_num_proc m) [] = ub" using k by simp
  then have "fill_rev e d (dep_num_proc m) 0 (dep_num_proc m) d' = ub" for d' using k by simp
  then show ?thesis using assms by (simp add: alloc_reverse_dependencies_def alloc_dependencies_def)
qed

section \<open>Properties of the matrix\<close>

text \<open>C38: \<open>depends_on\<close> answers for a process id between 1 and \<open>n - 1\<close> whether the second id is in
  the list of the first; its guard counts processes from 0 while the rows are addressed from
  1, so that it refuses the last process and reads outside the array for process 0.\<close>

theorem depends_on_off_by_one:
  assumes "deps_ok (Some m)" and "n = dep_num_proc m"
  shows "depends_on (Some m) from to =
    (if n \<le> from then ret (err ERROR_ARGS) else if from = 0 then ub
     else bnd (deps_of (Some m) from) (\<lambda>pids. ret (if to \<in> set pids then 1 else 0)))
    \<and> (from \<in> {1..n} \<longrightarrow> returns (deps_of (Some m) from))"
  using depends_on_cases [OF assms(1) refl] deps.read_ok [OF assms(1)] assms(2)
  by (simp add: deps_pids_def)

definition pair_deps :: dependencies where
  "pair_deps = \<lparr>dep_lists = Arr [\<lparr>pid_list = Arr [2], list_len = 1\<rparr>, \<lparr>pid_list = Arr [1], list_len = 1\<rparr>],
     dep_num_proc = 2\<rparr>"

lemma pair_deps_ok: "deps_ok (Some pair_deps)" "dep_num_proc pair_deps = 2"
  by (simp_all add: deps_ok_def pair_deps_def row_ok_def)

theorem depends_on_off_by_one_witness:
  "depends_on (Some pair_deps) 1 2 = ret 1 \<and> depends_on (Some pair_deps) 2 1 = ret (err ERROR_ARGS)"
proof -
  have "deps_of (Some pair_deps) 1 = ret [2]"
    by (simp add: deps_of_def get_dependencies_def dep_row_def row_pids_def pair_deps_def)
  with depends_on_off_by_one [OF pair_deps_ok(1) refl, of 1 2]
    depends_on_off_by_one [OF pair_deps_ok(1) refl, of 2 1]
  show ?thesis by (simp add: pair_deps_ok)
qed

text \<open>C39: the reversed matrix cannot be computed: both loops count processes from 0, so that the
  first query reads row 0 - 1 of the reference. Whenever the memory is granted the call is
  undefined behaviour; otherwise it returns null.\<close>

theorem reverse_dependencies_undefined:
  assumes "deps_ok d" and "n = card (deps_pids d)"
  shows "alloc_reverse_dependencies e d = (if n = 0 \<or> \<not> grant e 16 \<or> \<not> grant e (n * 16) then ret None else ub)"
proof -
  from assms(1) obtain m where m: "d = Some m" by (rule deps_okE)
  with assms(2) have n: "n = dep_num_proc m" by (simp add: deps_pids_def)
  show ?thesis
    using alloc_reverse_ub [OF assms(1) m, of e] n m
    by (auto simp: alloc_reverse_dependencies_def alloc_dependencies_def)
qed

theorem reverse_dependencies_undefined_witness: "alloc_reverse_dependencies good_env (Some pair_deps) = ub"
  using reverse_dependencies_undefined [OF pair_deps_ok(1) refl, of good_env]
  by (simp add: deps_pids_def pair_deps_ok)

text \<open>With enough memory, setting any series of rows returns, and each process then has the
  last list set for it, or the one it had.\<close>

theorem dependencies_last_write:
  assumes "deps_ok d" and "fst ` set rows \<subseteq> deps_pids d"
  shows "\<exists>d'. write_all (\<lambda>d from pids. bnd (set_dependencies (with_memory e) d from (Arr pids) (length pids))
        (\<lambda>(r, d'). if r = 0 then ret d' else ub)) d rows = ret d' \<and> deps_ok d' \<and> deps_pids d' = deps_pids d
    \<and> (\<forall>p \<in> deps_pids d. deps_of d' p
         = (case map_of (rev rows) p of Some pids \<Rightarrow> ret pids | None \<Rightarrow> deps_of d p))"
proof -
  have "deps_put (with_memory e) = (\<lambda>d from pids. bnd (set_dependencies (with_memory e) d from (Arr pids) (length pids))
        (\<lambda>(r, d'). if r = 0 then ret d' else ub))"
    by (simp add: fun_eq_iff deps_put_def)
  with deps.write_all_ok [OF assms, of e] show ?thesis by simp
qed

theorem dependencies_last_write_witness:
  "\<exists>d'. write_all (\<lambda>d from pids. bnd (set_dependencies (with_memory good_env) d from (Arr pids) (length pids))
        (\<lambda>(r, d'). if r = 0 then ret d' else ub)) (Some pair_deps) [(1, [1, 2]), (1, [])] = ret d'
     \<and> deps_of d' 1 = ret []"
  using dependencies_last_write [OF pair_deps_ok(1), of "[(1, [1, 2]), (1, [])]" good_env]
  by (fastforce simp: deps_pids_def pair_deps_ok)

end
