(* ===== verification/Log.thy ===== *)
theory Log
  imports Data
begin

text \<open>
  The log (src/log.c, and the two line formats of src/log.c and src/urb.c): lines are
  collected in a buffer, which is written to the output file when the next line does not
  fit. The mutex \<open>loglok\<close> guards the buffer.
\<close>

section \<open>Decimal numbers\<close>

text \<open>The conversion \<open>%u\<close> of \<open>sprintf\<close>.\<close>

fun dec :: "nat \<Rightarrow> string" where
  "dec n = (if n < 10 then [char_of (48 + n)] else dec (n div 10) @ [char_of (48 + n mod 10)])"

declare dec.simps [simp del]

fun undec :: "nat \<Rightarrow> string \<Rightarrow> nat" where
  "undec acc [] = acc"
| "undec acc (c # cs) = undec (10 * acc + (of_char c - 48)) cs"

lemma undec_append: "undec a (xs @ ys) = undec (undec a xs) ys"
  by (induction xs arbitrary: a) simp_all

lemma of_char_digit: "k < 10 \<Longrightarrow> of_char (char_of (48 + k) :: char) = 48 + (k :: nat)"
  by (simp add: of_char_of)

lemma undec_dec: "undec 0 (dec n) = n"
proof (induction n rule: dec.induct)
  case (1 n)
  show ?case
  proof (cases "n < 10")
    case True
    then show ?thesis by (subst dec.simps) (simp add: of_char_digit)
  next
    case False
    with 1 have "undec 0 (dec (n div 10)) = n div 10" by simp
    moreover have "dec n = dec (n div 10) @ [char_of (48 + n mod 10)]"
      using False by (subst dec.simps) simp
    ultimately show ?thesis by (simp add: undec_append of_char_digit)
  qed
qed

lemma dec_inj: "dec m = dec n \<longleftrightarrow> m = n"
  using undec_dec by metis

lemma dec_digits: "c \<in> set (dec n) \<Longrightarrow> (48 :: nat) \<le> of_char c \<and> of_char c < (58 :: nat)"
proof (induction n rule: dec.induct)
  case (1 n)
  show ?case
  proof (cases "n < 10")
    case True
    then have "dec n = [char_of (48 + n)]" by (subst dec.simps) simp
    with "1.prems" True show ?thesis by (simp add: of_char_digit)
  next
    case False
    then have "dec n = dec (n div 10) @ [char_of (48 + n mod 10)]" by (subst dec.simps) simp
    with "1.prems" consider "c \<in> set (dec (n div 10))" | "c = char_of (48 + n mod 10)" by auto
    then show ?thesis using "1.IH" False by cases (auto simp: of_char_digit)
  qed
qed

lemma length_dec_pos: "0 < length (dec n)"
  by (subst dec.simps) simp

lemma length_dec_le: "length (dec n) \<le> Suc k \<longleftrightarrow> n < 10 ^ Suc k"
proof (induction k arbitrary: n)
  case 0
  show ?case
    using length_dec_pos [of "n div 10"] by (subst dec.simps) auto
next
  case (Suc k)
  show ?case
  proof (cases "n < 10")
    case True
    moreover have "(10 :: nat) \<le> 10 ^ Suc (Suc k)" by simp
    ultimately have "n < 10 ^ Suc (Suc k)" by linarith
    with True show ?thesis by (subst dec.simps) simp
  next
    case False
    then have "length (dec n) = Suc (length (dec (n div 10)))" by (subst dec.simps) simp
    moreover have "n div 10 < 10 ^ Suc k \<longleftrightarrow> n < 10 ^ Suc (Suc k)"
      by (simp add: div_less_iff_less_mult mult.commute)
    ultimately show ?thesis using Suc.IH [of "n div 10"] by simp
  qed
qed

section \<open>The operations\<close>

definition init_log_data :: "env \<Rightarrow> log_data \<Rightarrow> nat \<Rightarrow> int \<times> log_data" where
  "init_log_data e l max_size =
     (if \<not> grant e max_size then (err ERROR_MEMORY, l\<lparr>buffer := Null\<rparr>)
      else let l1 = l\<lparr>buffer := Arr (replicate max_size (CHR 0x00))\<rparr> in
        if \<not> fopen_ok e then (err ERROR_IO, l1\<lparr>log_file := None\<rparr>)
        else (0, l1\<lparr>log_file := Some [], buf_current_size := 0, buf_max_size := max_size\<rparr>))"

text \<open>\<open>fwrite\<close> may write fewer bytes than it is given; the code only tests for none.\<close>

definition write_to_file :: "env \<Rightarrow> log_data \<Rightarrow> (int \<times> log_data) run" where
  "write_to_file e l =
     (case log_file l of None \<Rightarrow> ub
      | Some contents \<Rightarrow>
        bnd (read_block (buffer l) (buf_current_size l)) (\<lambda>bytes.
        let n = min (buf_current_size l) (fwritten e (buf_current_size l)) in
        if n = 0 then ret (err ERROR_IO, l)
        else bnd (read_block (buffer l) (buf_max_size l)) (\<lambda>_.
          ret (0, l\<lparr>log_file := Some (contents @ take n bytes),
                   buffer := (case buffer l of Arr xs \<Rightarrow>
                       Arr (replicate (buf_max_size l) (CHR 0x00) @ drop (buf_max_size l) xs) | p \<Rightarrow> p),
                   buf_current_size := 0\<rparr>))))"

text \<open>\<open>memcpy\<close> of \<open>size\<close> bytes of \<open>line\<close> into the buffer at position \<open>cur\<close>.\<close>

definition memcpy_at :: "char ptr \<Rightarrow> nat \<Rightarrow> string \<Rightarrow> nat \<Rightarrow> char ptr run" where
  "memcpy_at p cur line n =
     (case p of Arr xs \<Rightarrow>
        if cur + n \<le> length xs \<and> n \<le> length line
        then ret (Arr (take cur xs @ take n line @ drop (cur + n) xs)) else ub
      | _ \<Rightarrow> ub)"

text \<open>When the flush fails \<open>write_log\<close> returns without releasing the mutex.\<close>

definition write_log :: "env \<Rightarrow> log_data \<Rightarrow> string \<Rightarrow> nat \<Rightarrow> (int \<times> log_data) run" where
  "write_log e l line n =
     bnd (mutex_lock (loglok l)) (\<lambda>m.
     let l = l\<lparr>loglok := m\<rparr> in
     bnd (if buf_max_size l < n + buf_current_size l then write_to_file e l else ret (0, l)) (\<lambda>(r, l).
     if r \<noteq> 0 then ret (r, l)
     else bnd (memcpy_at (buffer l) (buf_current_size l) line n) (\<lambda>p.
          ret (0, l\<lparr>buffer := p, buf_current_size := buf_current_size l + n, loglok := False\<rparr>))))"

definition free_log_data :: "log_data \<Rightarrow> (int \<times> log_data) run" where
  "free_log_data l = bnd (free (buffer l)) (\<lambda>p. ret (0, l\<lparr>buffer := p, log_file := None\<rparr>))"

text \<open>
  The lines are formatted into an array of \<open>LINE_MAX_LENGTH\<close> (8) characters on the stack;
  \<open>sprintf\<close> does not check the length, and writes a final zero byte.
\<close>

definition LINE_MAX_LENGTH :: nat where "LINE_MAX_LENGTH = 8"

definition newline :: char where "newline = CHR 0x0A"

definition sprintf_line :: "string \<Rightarrow> string run" where
  "sprintf_line s = (if length s + 1 \<le> LINE_MAX_LENGTH then ret s else ub)"

definition deliver_line :: "u32 \<Rightarrow> u32 \<Rightarrow> string" where
  "deliver_line pid snr = ''d '' @ dec (unat pid) @ '' '' @ dec (unat snr) @ [newline]"

definition broadcast_line :: "u32 \<Rightarrow> string" where
  "broadcast_line snr = ''b '' @ dec (unat snr) @ [newline]"

definition log_deliver :: "env \<Rightarrow> log_data \<Rightarrow> fifo_msg \<Rightarrow> (int \<times> log_data) run" where
  "log_deliver e l m =
     bnd (sprintf_line (deliver_line (original_sender m) (sequence_num m))) (\<lambda>line.
     bnd (write_log e l line (length line)) (\<lambda>(r, l').
     if r \<noteq> 0 then ret (r, l') else ret (0, l')))"

definition log_urb_broadcast :: "env \<Rightarrow> log_data \<Rightarrow> fifo_msg \<Rightarrow> (int \<times> log_data) run" where
  "log_urb_broadcast e l m =
     bnd (sprintf_line (broadcast_line (sequence_num m))) (\<lambda>line.
     bnd (write_log e l line (length line)) (\<lambda>(r, l').
     if r \<noteq> 0 then ret (r, l') else ret (0, l')))"

section \<open>What the log holds\<close>

definition log_ok :: "log_data \<Rightarrow> bool" where
  "log_ok l \<longleftrightarrow> \<not> loglok l \<and> log_file l \<noteq> None \<and> buf_current_size l \<le> buf_max_size l
     \<and> (case buffer l of Arr xs \<Rightarrow> length xs = buf_max_size l | _ \<Rightarrow> False)"

definition log_text :: "log_data \<Rightarrow> string" where
  "log_text l = (case log_file l of None \<Rightarrow> [] | Some s \<Rightarrow> s)
     @ (case buffer l of Arr xs \<Rightarrow> take (buf_current_size l) xs | _ \<Rightarrow> [])"

lemma log_okE:
  assumes "log_ok l"
  obtains xs s where "\<not> loglok l" "log_file l = Some s" "buffer l = Arr xs"
    "length xs = buf_max_size l" "buf_current_size l \<le> buf_max_size l"
  using assms by (auto simp: log_ok_def split: ptr.splits)

lemma write_to_file_ok:
  assumes "log_ok l" "0 < buf_current_size l" "fwritten e (buf_current_size l) = buf_current_size l"
  shows "\<exists>l'. write_to_file e l = ret (0, l') \<and> log_ok l' \<and> log_text l' = log_text l
    \<and> buf_current_size l' = 0 \<and> buf_max_size l' = buf_max_size l"
  using assms by (elim log_okE) (auto simp: write_to_file_def log_ok_def log_text_def)

lemma write_log_ok:
  assumes l: "log_ok l" and fits: "length line \<le> buf_max_size l"
    and io: "\<And>n. fwritten e n = n"
  shows "\<exists>l'. write_log e l line (length line) = ret (0, l') \<and> log_ok l'
    \<and> buf_max_size l' = buf_max_size l \<and> log_text l' = log_text l @ line"
proof -
  let ?l0 = "l\<lparr>loglok := True\<rparr>"
  let ?flush = "buf_max_size l < length line + buf_current_size l"
  from l obtain xs s where xs: "\<not> loglok l" "log_file l = Some s" "buffer l = Arr xs"
    "length xs = buf_max_size l" "buf_current_size l \<le> buf_max_size l" by (rule log_okE)
  have "\<exists>l1. (if ?flush then write_to_file e ?l0 else ret (0, ?l0)) = ret (0, l1\<lparr>loglok := True\<rparr>)
      \<and> log_ok l1 \<and> log_text l1 = log_text l \<and> buf_max_size l1 = buf_max_size l
      \<and> length line + buf_current_size l1 \<le> buf_max_size l1"
  proof (cases ?flush)
    case False
    with l xs show ?thesis by (intro exI [of _ l]) simp
  next
    case True
    with fits have "0 < buf_current_size l" by simp
    from write_to_file_ok [OF l this, of e] io obtain l1 where
      l1: "write_to_file e l = ret (0, l1)" "log_ok l1" "log_text l1 = log_text l"
        "buf_current_size l1 = 0" "buf_max_size l1 = buf_max_size l" by blast
    from l1(1) xs have "write_to_file e ?l0 = ret (0, l1\<lparr>loglok := True\<rparr>)"
      by (auto simp: write_to_file_def Let_def split: if_splits)
    with True l1 fits show ?thesis by auto
  qed
  then obtain l1 where
    l1: "(if ?flush then write_to_file e ?l0 else ret (0, ?l0)) = ret (0, l1\<lparr>loglok := True\<rparr>)"
      "log_ok l1" "log_text l1 = log_text l" "buf_max_size l1 = buf_max_size l"
      "length line + buf_current_size l1 \<le> buf_max_size l1" by blast
  from l1(2) obtain ys t where ys: "\<not> loglok l1" "log_file l1 = Some t" "buffer l1 = Arr ys"
    "length ys = buf_max_size l1" by (rule log_okE)
  let ?c = "buf_current_size l1"
  let ?l' = "l1\<lparr>buffer := Arr (take ?c ys @ line @ drop (?c + length line) ys),
      buf_current_size := ?c + length line\<rparr>"
  have w: "write_log e l line (length line) = ret (0, ?l')"
    using xs(1) l1(1,5) ys by (simp add: write_log_def Let_def memcpy_at_def)
  have "log_ok ?l'" "log_text ?l' = log_text l1 @ line"
    using ys l1(5) by (simp_all add: log_ok_def log_text_def)
  with w l1(3,4) show ?thesis by auto
qed

section \<open>Sequences of events\<close>

datatype log_event = Broadcast u32 | Deliver u32 u32

fun event_line :: "log_event \<Rightarrow> string" where
  "event_line (Broadcast snr) = broadcast_line snr"
| "event_line (Deliver pid snr) = deliver_line pid snr"

fun record_event :: "env \<Rightarrow> log_data \<Rightarrow> log_event \<Rightarrow> (int \<times> log_data) run" where
  "record_event e l (Broadcast snr) = log_urb_broadcast e l \<lparr>sequence_num = snr, original_sender = 0\<rparr>"
| "record_event e l (Deliver pid snr) = log_deliver e l \<lparr>sequence_num = snr, original_sender = pid\<rparr>"

fun record_events :: "env \<Rightarrow> log_data \<Rightarrow> log_event list \<Rightarrow> (int \<times> log_data) run" where
  "record_events e l [] = ret (0, l)"
| "record_events e l (ev # evs) =
     bnd (record_event e l ev) (\<lambda>(r, l'). if r \<noteq> 0 then ret (r, l') else record_events e l' evs)"

text \<open>The line fits into the array on the stack.\<close>

definition event_fits :: "log_event \<Rightarrow> bool" where
  "event_fits ev \<longleftrightarrow> length (event_line ev) < LINE_MAX_LENGTH"

lemma record_event_write:
  "record_event e l ev = (if event_fits ev then write_log e l (event_line ev) (length (event_line ev)) else ub)"
proof -
  have "bnd m (\<lambda>(r, l'). if r \<noteq> (0::int) then ret (r, l') else ret (0, l')) = m" for m :: "(int \<times> log_data) run"
    by (cases m) (auto simp: bnd_def res_bind_def split: res.splits)
  then show ?thesis
    by (cases ev) (simp_all add: log_deliver_def log_urb_broadcast_def event_fits_def sprintf_line_def)
qed

lemma event_fits_Deliver: "event_fits (Deliver pid snr) \<longleftrightarrow>
    length (dec (unat pid)) + length (dec (unat snr)) \<le> 3"
  by (auto simp: event_fits_def deliver_line_def LINE_MAX_LENGTH_def)

lemma event_fits_Broadcast: "event_fits (Broadcast snr) \<longleftrightarrow> unat snr < 10000"
  using length_dec_le [of "unat snr" 3] by (auto simp: event_fits_def broadcast_line_def LINE_MAX_LENGTH_def)

lemma fits_small_pid:
  assumes "unat pid < 10"
  shows "event_fits (Deliver pid snr) \<longleftrightarrow> unat snr < 100"
proof -
  have "length (dec (unat pid)) \<le> 1" using length_dec_le [of "unat pid" 0] assms by simp
  with length_dec_pos [of "unat pid"] have "length (dec (unat pid)) = 1" by linarith
  then show ?thesis
    using length_dec_le [of "unat snr" 1] by (simp add: event_fits_Deliver numeral_2_eq_2)
qed

lemma record_event_ok:
  assumes "log_ok l" "event_fits ev" "LINE_MAX_LENGTH \<le> buf_max_size l" "\<And>n. fwritten e n = n"
  shows "\<exists>l'. record_event e l ev = ret (0, l') \<and> log_ok l' \<and> buf_max_size l' = buf_max_size l
    \<and> log_text l' = log_text l @ event_line ev"
  using write_log_ok [of l "event_line ev" e] assms by (auto simp: record_event_write event_fits_def)

lemma record_events_ok:
  assumes "log_ok l" "list_all event_fits evs" "LINE_MAX_LENGTH \<le> buf_max_size l" "\<And>n. fwritten e n = n"
  shows "\<exists>l'. record_events e l evs = ret (0, l') \<and> log_ok l' \<and> buf_max_size l' = buf_max_size l
    \<and> log_text l' = log_text l @ concat (map event_line evs)"
  using assms
proof (induction evs arbitrary: l)
  case Nil
  then show ?case by simp
next
  case (Cons ev evs)
  from Cons.prems(2) have fits: "event_fits ev" "list_all event_fits evs" by simp_all
  from record_event_ok [OF Cons.prems(1) fits(1) Cons.prems(3,4)] obtain l1 where
    l1: "record_event e l ev = ret (0, l1)" "log_ok l1" "buf_max_size l1 = buf_max_size l"
      "log_text l1 = log_text l @ event_line ev" by blast
  from Cons.IH [OF l1(2) fits(2)] Cons.prems(3,4) l1(3) obtain l' where
    "record_events e l1 evs = ret (0, l')" "log_ok l'" "buf_max_size l' = buf_max_size l"
    "log_text l' = log_text l1 @ concat (map event_line evs)" by auto
  with l1 show ?case by auto
qed

section \<open>Reading the log back\<close>

lemma of_char_newline: "of_char newline = (10 :: nat)"
  by (simp add: newline_def)

lemma newline_not_digit: "newline \<notin> set (dec n)"
  using dec_digits [of newline n] by (auto simp: of_char_newline)

lemma space_not_digit: "CHR '' '' \<notin> set (dec n)"
  using dec_digits [of "CHR '' ''" n] by auto

lemma split_at:
  assumes "xs @ [c] @ ys = xs' @ [c] @ ys'" "c \<notin> set xs" "c \<notin> set xs'"
  shows "xs = xs' \<and> ys = ys'"
proof -
  have "takeWhile (\<lambda>x. x \<noteq> c) (zs @ [c] @ ws) = zs" if "c \<notin> set zs" for zs ws
    using that by (induction zs) auto
  from this [OF assms(2), of ys] this [OF assms(3), of ys'] assms(1) have "xs = xs'" by simp
  with assms(1) show ?thesis by simp
qed

definition event_body :: "log_event \<Rightarrow> string" where
  "event_body ev = (case ev of Broadcast snr \<Rightarrow> ''b '' @ dec (unat snr)
     | Deliver pid snr \<Rightarrow> ''d '' @ dec (unat pid) @ '' '' @ dec (unat snr))"

lemma event_line_body: "event_line ev = event_body ev @ [newline]"
  by (cases ev) (simp_all add: event_body_def broadcast_line_def deliver_line_def)

lemma newline_neq: "newline \<noteq> CHR ''b''" "newline \<noteq> CHR ''d''" "newline \<noteq> CHR '' ''"
  by (simp_all add: newline_def)

lemma newline_not_body: "newline \<notin> set (event_body ev)"
  by (cases ev) (auto simp: event_body_def newline_not_digit newline_neq)

lemma event_body_inj: "event_body a = event_body b \<Longrightarrow> a = b"
proof (cases a; cases b)
  fix p s p' s'
  assume eq: "event_body a = event_body b" and ab: "a = Deliver p s" "b = Deliver p' s'"
  then have "dec (unat p) @ [CHR '' ''] @ dec (unat s) = dec (unat p') @ [CHR '' ''] @ dec (unat s')"
    by (simp add: event_body_def)
  from split_at [OF this space_not_digit space_not_digit] ab show "a = b"
    by (simp add: dec_inj word_unat_eq_iff)
qed (auto simp: event_body_def dec_inj word_unat_eq_iff)

lemma event_lines_inj:
  "concat (map event_line xs) = concat (map event_line ys) \<Longrightarrow> xs = ys"
proof (induction xs arbitrary: ys)
  case Nil
  then show ?case by (cases ys) (simp_all add: event_line_body)
next
  case (Cons x xs)
  then obtain y ys' where ys: "ys = y # ys'" by (cases ys) (auto simp: event_line_body)
  with Cons.prems have "event_body x @ [newline] @ concat (map event_line xs)
      = event_body y @ [newline] @ concat (map event_line ys')"
    by (simp add: event_line_body [of x] event_line_body [of y])
  from split_at [OF this newline_not_body newline_not_body] Cons.IH [of ys'] ys
  show ?case by (auto dest: event_body_inj)
qed

section \<open>Properties\<close>

text \<open>A log just opened, as the program opens it.\<close>

lemma init_log_data_ok:
  assumes "grant e n" "fopen_ok e" "\<not> loglok l"
  shows "\<exists>l'. init_log_data e l n = (0, l') \<and> log_ok l' \<and> buf_max_size l' = n \<and> log_text l' = []"
  using assms by (auto simp: init_log_data_def Let_def log_ok_def log_text_def)

definition empty_log :: log_data where
  "empty_log = \<lparr>buf_max_size = 1024, buf_current_size = 0, buffer = Arr (replicate 1024 (CHR 0x00)),
     log_file = Some [], loglok = False\<rparr>"

lemma empty_log_ok: "log_ok empty_log" "LINE_MAX_LENGTH \<le> buf_max_size empty_log" "log_text empty_log = []"
  by (simp_all add: log_ok_def empty_log_def log_text_def LINE_MAX_LENGTH_def)

text \<open>C29: buffering is invisible. When every write of the file succeeds, logging a sequence
  of broadcast and delivery events whose lines fit returns 0 each time, and what is in the
  file followed by what is in the buffer is the old text followed by exactly the lines of
  the events in order, whatever flushes happened in between.\<close>

theorem log_records_events:
  assumes "log_ok l" "list_all event_fits evs" "LINE_MAX_LENGTH \<le> buf_max_size l" "\<And>n. fwritten e n = n"
  shows "\<exists>l'. record_events e l evs = ret (0, l') \<and> log_ok l'
    \<and> log_text l' = log_text l @ concat (map event_line evs)"
  using record_events_ok [OF assms] by blast

theorem log_records_events_witness:
  "\<exists>l'. record_events good_env empty_log [Broadcast 1, Deliver 2 99] = ret (0, l')
    \<and> log_text l' = broadcast_line 1 @ deliver_line 2 99"
proof -
  have "list_all event_fits [Broadcast 1, Deliver 2 99]"
    by (simp add: event_fits_Broadcast fits_small_pid)
  from log_records_events [OF empty_log_ok(1) this empty_log_ok(2), of good_env]
  show ?thesis by (auto simp: empty_log_ok simp del: record_events.simps)
qed

text \<open>The text of a log determines the events that were logged: two sequences of events
  that give the same text are the same sequence.\<close>

theorem log_text_determines_events:
  "concat (map event_line xs) = concat (map event_line ys) \<Longrightarrow> xs = ys"
  by (rule event_lines_inj)

theorem log_text_determines_events_witness:
  "concat (map event_line [Broadcast 1]) = concat (map event_line [Broadcast 1]) \<and> [Broadcast 1] = [Broadcast 1]"
  using log_text_determines_events [of "[Broadcast 1]" "[Broadcast 1]"] by simp

text \<open>C30: the stack buffer of a delivery line. For a process id of one digit the delivery of
  message \<open>snr\<close> is logged when \<open>snr\<close> is below 100, and from 100 on \<open>sprintf\<close> writes past
  the end of the array of 8 characters: undefined behaviour.\<close>

theorem log_deliver_overflow:
  assumes "log_ok l" "LINE_MAX_LENGTH \<le> buf_max_size l" "\<And>n. fwritten e n = n"
    and "unat (original_sender m) < 10"
  shows "if unat (sequence_num m) < 100
    then \<exists>l'. log_deliver e l m = ret (0, l') \<and> log_ok l'
      \<and> log_text l' = log_text l @ deliver_line (original_sender m) (sequence_num m)
    else log_deliver e l m = ub"
proof -
  let ?ev = "Deliver (original_sender m) (sequence_num m)"
  have "log_deliver e l m = record_event e l ?ev" by (cases m) simp
  with record_event_ok [OF assms(1) _ assms(2,3), of ?ev] fits_small_pid [OF assms(4), of "sequence_num m"]
    record_event_write [of e l ?ev]
  show ?thesis by auto
qed

theorem log_deliver_overflow_witness:
  "log_deliver good_env empty_log \<lparr>sequence_num = 100, original_sender = 1\<rparr> = ub"
proof -
  have "unat (original_sender \<lparr>sequence_num = 100, original_sender = 1\<rparr>) < 10" by simp
  from log_deliver_overflow [OF empty_log_ok(1,2) _ this, of good_env] show ?thesis by simp
qed

text \<open>When the flush of a full buffer fails, \<open>write_log\<close> returns ERROR_IO with the mutex
  held; every later line blocks for ever.\<close>

theorem log_flush_failure_keeps_lock:
  assumes "log_ok l" "buf_max_size l < n + buf_current_size l" "fwritten e (buf_current_size l) = 0"
  shows "\<exists>l'. write_log e l line n = ret (err ERROR_IO, l') \<and> log_text l' = log_text l
    \<and> (\<forall>e' line' n'. write_log e' l' line' n' = hang)"
proof -
  from assms(1) obtain xs s where xs: "\<not> loglok l" "log_file l = Some s" "buffer l = Arr xs"
    "length xs = buf_max_size l" "buf_current_size l \<le> buf_max_size l" by (rule log_okE)
  with assms(2,3) have "write_log e l line n = ret (err ERROR_IO, l\<lparr>loglok := True\<rparr>)"
    by (simp add: write_log_def write_to_file_def Let_def)
  moreover have "log_text (l\<lparr>loglok := True\<rparr>) = log_text l"
    by (cases "buffer l") (simp_all add: log_text_def)
  moreover have "write_log e' (l\<lparr>loglok := True\<rparr>) line' n' = hang" for e' line' n'
    by (simp add: write_log_def)
  ultimately show ?thesis by blast
qed

definition full_log :: log_data where
  "full_log = \<lparr>buf_max_size = 2, buf_current_size = 2, buffer = Arr ''xy'', log_file = Some [], loglok = False\<rparr>"

theorem log_flush_failure_keeps_lock_witness:
  "\<exists>l'. write_log (good_env\<lparr>fwritten := \<lambda>_. 0\<rparr>) full_log ''z'' 1 = ret (err ERROR_IO, l')
    \<and> write_log good_env l' ''z'' 1 = hang"
proof -
  have "log_ok full_log" "buf_max_size full_log < 1 + buf_current_size full_log"
    "fwritten (good_env\<lparr>fwritten := \<lambda>_. 0\<rparr>) (buf_current_size full_log) = 0"
    by (simp_all add: log_ok_def full_log_def)
  from log_flush_failure_keeps_lock [OF this, of "''z''"] show ?thesis by blast
qed

text \<open>A short write is taken for success: when \<open>fwrite\<close> writes only the first \<open>k\<close> bytes of
  the buffer, \<open>write_to_file\<close> returns 0 and the remaining bytes of the log are lost.\<close>

theorem short_write_loses_text:
  assumes "log_ok l" "0 < k" "k < buf_current_size l" "fwritten e (buf_current_size l) = k"
  shows "\<exists>l'. write_to_file e l = ret (0, l') \<and> log_ok l'
    \<and> log_text l' = take (length (log_text l) - (buf_current_size l - k)) (log_text l)
    \<and> length (log_text l') + (buf_current_size l - k) = length (log_text l)"
proof -
  from assms(1) obtain xs s where "\<not> loglok l" "log_file l = Some s" "buffer l = Arr xs"
    "length xs = buf_max_size l" "buf_current_size l \<le> buf_max_size l" by (rule log_okE)
  with assms(2-4) show ?thesis
    by (simp add: write_to_file_def Let_def log_ok_def log_text_def min_def)
qed

theorem short_write_loses_text_witness:
  "\<exists>l'. write_to_file (good_env\<lparr>fwritten := \<lambda>_. 1\<rparr>) full_log = ret (0, l') \<and> log_text l' = ''x''"
proof -
  have "log_ok full_log" "(0::nat) < 1" "1 < buf_current_size full_log"
    "fwritten (good_env\<lparr>fwritten := \<lambda>_. 1\<rparr>) (buf_current_size full_log) = 1"
    by (simp_all add: log_ok_def full_log_def)
  from short_write_loses_text [OF this] show ?thesis by (auto simp: log_text_def full_log_def)
qed

end
