(* ===== verification/Lcb.thy ===== *)
theory Lcb
  imports VecList Dependencies Log
begin

text \<open>
  Localized causal broadcast, delivery side (the second half of src/pending.c, and
  \<open>deliver_lcb\<close> of src/lcb.c): the vector clock of the process, the test of a received
  clock against it, and the pending messages that wait for their dependencies.
\<close>

section \<open>The pending structure\<close>

definition empty_veclist :: vec_list where
  "empty_veclist = \<lparr>num_elems = 0, list_head = None, list_tail = None\<rparr>"

text \<open>\<open>sizeof(vec_list_t)\<close> is 24. The argument pointers are never null at the callers.\<close>

definition init_pending_lcb :: "env \<Rightarrow> lcb_pending \<Rightarrow> nat \<Rightarrow> int \<times> lcb_pending" where
  "init_pending_lcb e p n =
     (if \<not> grant e (n * 24) then (err ERROR_MEMORY, p\<lparr>lists := Null\<rparr>)
      else (0, p\<lparr>lists := Arr (replicate n empty_veclist), lcb_num_proc := n\<rparr>))"

definition destroy_pending_lcb :: "lcb_pending \<Rightarrow> (int \<times> lcb_pending) run" where
  "destroy_pending_lcb p =
     (if lists p = Null then ret (err ERROR_MEMORY, p)
      else bnd (free (lists p)) (\<lambda>q. ret (0, p\<lparr>lists := q, lcb_num_proc := 0\<rparr>)))"

definition add_pending_lcb :: "env \<Rightarrow> lcb_pending \<Rightarrow> u32 \<Rightarrow> vec_clock \<Rightarrow> (int \<times> lcb_pending) run" where
  "add_pending_lcb e p pid clocky =
     (if lists p = Null then ret (err ERROR_POINTER, p)
      else if lcb_num_proc p < unat pid then ret (err ERROR_PID, p)
      else bnd (load (lists p) (unat (pid - 1))) (\<lambda>l.
           bnd (add_veclist e clocky l (node_mem p)) (\<lambda>(r, l', h').
           bnd (store (lists p) (unat (pid - 1)) l') (\<lambda>q.
           let p' = p\<lparr>lists := q, node_mem := h'\<rparr> in
           if r \<noteq> 0 then ret (r, p') else ret (0, p')))))"

section \<open>The vector clock of the process\<close>

text \<open>The out parameter \<open>seq\<close> is \<open>None\<close> when it is not written.\<close>

definition update_vec_clock :: "net_data \<Rightarrow> u32 \<Rightarrow> (int \<times> u32 option \<times> net_data) run" where
  "update_vec_clock data pid =
     (if num_proc data < unat pid then ret (err ERROR_PID, None, data)
      else bnd (mutex_lock (vc_mutex (vector_clock data))) (\<lambda>_.
           bnd (load (vector (vector_clock data)) (unat (pid - 1))) (\<lambda>x.
           bnd (store (vector (vector_clock data)) (unat (pid - 1)) (x + 1)) (\<lambda>p.
           ret (0, Some (x + 1),
                data\<lparr>vector_clock := (vector_clock data)\<lparr>vector := p, vc_mutex := False\<rparr>\<rparr>)))))"

text \<open>On an allocation failure the clock stays locked.\<close>

definition get_vec_clock_copy :: "env \<Rightarrow> net_data \<Rightarrow> vec_clock \<Rightarrow> (int \<times> vec_clock \<times> net_data) run" where
  "get_vec_clock_copy e data clocky =
     bnd (mutex_lock (vc_mutex (vector_clock data))) (\<lambda>m.
     let data = data\<lparr>vector_clock := (vector_clock data)\<lparr>vc_mutex := m\<rparr>\<rparr> in
     bnd (alloc_vector e clocky (of_nat (num_proc data)) (vector (vector_clock data))) (\<lambda>(r, c).
     if r \<noteq> 0 then ret (r, c, data)
     else ret (0, c, data\<lparr>vector_clock := (vector_clock data)\<lparr>vc_mutex := False\<rparr>\<rparr>)))"

text \<open>The loop of \<open>test_vec_clock\<close> over a dependency list, \<open>k\<close> entries from position \<open>i\<close>.\<close>

fun test_deps :: "nat ptr \<Rightarrow> u32 ptr \<Rightarrow> u32 ptr \<Rightarrow> nat \<Rightarrow> nat \<Rightarrow> int \<Rightarrow> int run" where
  "test_deps pids v w i 0 is_bigger = ret is_bigger"
| "test_deps pids v w i (Suc k) is_bigger =
     bnd (load pids i) (\<lambda>p.
     let curr_proc = of_nat p :: u32 in
     bnd (load v (unat (curr_proc - 1))) (\<lambda>x.
     bnd (load w (unat (curr_proc - 1))) (\<lambda>y.
     test_deps pids v w (i + 1) k (if y < x then 0 else is_bigger))))"

definition test_vec_clock :: "net_data \<Rightarrow> vec_clock \<Rightarrow> u32 \<Rightarrow> (int \<times> net_data) run" where
  "test_vec_clock data vec pid =
     bnd (mutex_lock (vc_mutex (vector_clock data))) (\<lambda>_.
     case get_dependencies (deps data) (unat pid) of None \<Rightarrow> ub
     | Some d \<Rightarrow> bnd (dep_row (deps data) d) (\<lambda>dep.
         bnd (test_deps (pid_list dep) (vector vec) (vector (vector_clock data)) 0 (list_len dep) 1) (\<lambda>b.
         ret (b, data\<lparr>vector_clock := (vector_clock data)\<lparr>vc_mutex := False\<rparr>\<rparr>))))"

definition log_deliver_lcb :: "env \<Rightarrow> net_data \<Rightarrow> u32 \<Rightarrow> u32 \<Rightarrow> (int \<times> net_data) run" where
  "log_deliver_lcb e data pid seq =
     bnd (log_deliver e (logdata data) \<lparr>sequence_num = seq, original_sender = pid\<rparr>) (\<lambda>(r, l).
     let data = data\<lparr>logdata := l\<rparr> in if r \<noteq> 0 then ret (r, data) else ret (0, data))"

section \<open>Searching the pending messages\<close>

text \<open>\<open>remove_veclist(ptr, &(pending->lists[i]))\<close> on the lists of the process.\<close>

definition remove_pending :: "net_data \<Rightarrow> nat \<Rightarrow> ref \<Rightarrow> (int \<times> net_data) run" where
  "remove_pending data i ptr =
     (let p = pending_lcb data in
      bnd (load (lists p) i) (\<lambda>l.
      bnd (remove_veclist ptr l (node_mem p)) (\<lambda>(r, l', h').
      bnd (store (lists p) i l') (\<lambda>q.
      ret (r, data\<lparr>pending_lcb := p\<lparr>lists := q, node_mem := h'\<rparr>\<rparr>)))))"

text \<open>
  The inner loop of \<open>find_pending\<close>, over one list. A message that can be delivered is
  delivered, the pointer moves to the next node, and the node it then points to is
  removed. A message that cannot be delivered leaves the pointer where it is. The result is
  the error of the call that failed, or 0, with \<open>found_one\<close>.
\<close>

partial_function (option) find_in_list ::
  "env \<Rightarrow> nat \<Rightarrow> ref \<Rightarrow> int \<Rightarrow> net_data \<Rightarrow> (int \<times> int \<times> net_data) run" where
  "find_in_list e i ptr found data =
     (if ptr = None then ret (0, found, data)
      else bnd (node_get (node_mem (pending_lcb data)) ptr) (\<lambda>nd.
           bnd (test_vec_clock data (node_clock nd) (of_nat (i + 1))) (\<lambda>(t, data).
           if t \<noteq> 0 then
             bnd (update_vec_clock data (of_nat (i + 1))) (\<lambda>(r, seq, data).
             if r \<noteq> 0 then ret (r, 1, data)
             else bnd (log_deliver_lcb e data (of_nat (i + 1)) (case seq of Some s \<Rightarrow> s | None \<Rightarrow> 0)) (\<lambda>(r, data).
             if r \<noteq> 0 then ret (r, 1, data)
             else bnd (node_get (node_mem (pending_lcb data)) ptr) (\<lambda>nd.
             bnd (remove_pending data i (node_next nd)) (\<lambda>(r, data).
             if r \<noteq> 0 then ret (r, 1, data)
             else find_in_list e i (node_next nd) 1 data))))
           else find_in_list e i ptr found data)))"

text \<open>The outer loop, \<open>k\<close> lists from list \<open>i\<close>.\<close>

fun find_in_lists :: "env \<Rightarrow> nat \<Rightarrow> nat \<Rightarrow> int \<Rightarrow> net_data \<Rightarrow> (int \<times> net_data) run" where
  "find_in_lists e i 0 found data = ret (found, data)"
| "find_in_lists e i (Suc k) found data =
     bnd (load (lists (pending_lcb data)) i) (\<lambda>l.
     bnd (find_in_list e i (list_head l) found data) (\<lambda>(r, found, data).
     if r \<noteq> 0 then ret (r, data) else find_in_lists e (i + 1) k found data))"

definition find_pending :: "env \<Rightarrow> net_data \<Rightarrow> (int \<times> net_data) run" where
  "find_pending e data = find_in_lists e 0 (lcb_num_proc (pending_lcb data)) 0 data"

text \<open>\<open>find_pending\<close> is repeated while it finds something.\<close>

partial_function (option) find_pending_all :: "env \<Rightarrow> net_data \<Rightarrow> (int \<times> net_data) run" where
  "find_pending_all e data =
     bnd (find_pending e data) (\<lambda>(r, data). if 0 < r then find_pending_all e data else ret (r, data))"

definition deliver_lcb :: "env \<Rightarrow> net_data \<Rightarrow> lcb_msg \<Rightarrow> (int \<times> net_data) run" where
  "deliver_lcb e data m =
     bnd (test_vec_clock data (lcb_clock m) (lcb_original_sender m)) (\<lambda>(t, data).
     if t \<noteq> 0 then
       bnd (update_vec_clock data (lcb_original_sender m)) (\<lambda>(r, seq, data).
       if r \<noteq> 0 then ret (r, data)
       else bnd (log_deliver_lcb e data (lcb_original_sender m) (case seq of Some s \<Rightarrow> s | None \<Rightarrow> 0)) (\<lambda>(r, data).
       if r \<noteq> 0 then ret (r, data)
       else bnd (find_pending_all e data) (\<lambda>(r, data).
       if r < 0 then ret (r, data) else ret (0, data))))
     else
       bnd (add_pending_lcb e (pending_lcb data) (lcb_original_sender m) (lcb_clock m)) (\<lambda>(r, p).
       let data = data\<lparr>pending_lcb := p\<rparr> in
       if r \<noteq> 0 then ret (r, data) else ret (0, data)))"

end
