(* ===== verification/Layers.thy ===== *)
theory Layers
  imports PlinkTables UrbTable UrbAcks MQueue Wire Lcb
begin

text \<open>
  The protocol layers of a process, from the fair-loss link up to localized causal
  broadcast (src/flink.c, src/plink.c, src/beb.c, src/urb.c, src/lcb.c), and one turn of
  the loops of the receiver and sender threads (src/receiver.c, src/sender.c). Each handler
  takes the state of the process and returns its code and the new state.
\<close>

section \<open>Fair-loss link: sending\<close>

definition send_fl :: "env \<Rightarrow> net_data \<Rightarrow> u32 \<Rightarrow> msg \<Rightarrow> (int \<times> net_data) run" where
  "send_fl e data dest_pid m =
     bnd (send_message e data dest_pid m) (\<lambda>(r, data). if r \<noteq> 0 then ret (r, data) else ret (0, data))"

section \<open>Best-effort broadcast: sending\<close>

text \<open>
  The link message for process \<open>i\<close>: \<open>mid\<close> identifies the broadcast message and its
  sender, \<open>ackid\<close> the broadcast message and its receiver. The arithmetic is on 32 bits.
\<close>

definition beb_message :: "u32 \<Rightarrow> u32 \<Rightarrow> urb_msg \<Rightarrow> u32 \<Rightarrow> msg" where
  "beb_message n self m i = \<lparr>urb_part = m, msg_mid = seen_id m * n + self - 1,
     ackid = seen_id m * n + i - 1, sender = self, mtype = 0\<rparr>"

text \<open>The task carries a copy of the clock; a failed copy is only reported.\<close>

definition with_clock :: "msg \<Rightarrow> vec_clock \<Rightarrow> msg" where
  "with_clock m c = m\<lparr>urb_part := (urb_part m)\<lparr>lcb_part := (lcb_part (urb_part m))\<lparr>lcb_clock := c\<rparr>\<rparr>\<rparr>"

abbreviation msg_clock :: "msg \<Rightarrow> vec_clock" where
  "msg_clock m \<equiv> lcb_clock (lcb_part (urb_part m))"

fun beb_loop :: "env \<Rightarrow> net_data \<Rightarrow> urb_msg \<Rightarrow> nat \<Rightarrow> nat \<Rightarrow> (int \<times> net_data) run" where
  "beb_loop e data m i 0 = ret (0, data)"
| "beb_loop e data m i (Suc k) =
     (let n = of_nat (num_proc data); self = of_nat (self_pid data) in
      if (of_nat i :: u32) = self then beb_loop e data m (i + 1) k
      else let message = beb_message n self m (of_nat i) in
        bnd (alloc_vector e (msg_clock message) n (vector (msg_clock message))) (\<lambda>(_, c).
        bnd (enqueue e (task_q data) \<lparr>pid_dest = of_nat i, task_msg = with_clock message c\<rparr>) (\<lambda>(r, q).
        let data = data\<lparr>task_q := q\<rparr> in
        if r \<noteq> 0 then ret (r, data) else beb_loop e data m (i + 1) k)))"

definition send_beb :: "env \<Rightarrow> net_data \<Rightarrow> urb_msg \<Rightarrow> (int \<times> net_data) run" where
  "send_beb e data m =
     bnd (beb_loop e data m 1 (num_proc data)) (\<lambda>(r, data).
     if r \<noteq> 0 then ret (r, data)
     else bnd (free (vector (lcb_clock (lcb_part m)))) (\<lambda>_. ret (0, data)))"

section \<open>Uniform reliable broadcast\<close>

text \<open>
  The identifier of a broadcast message, from its number and its original sender, and the
  identifier of its copy at one process. The code computes with \<open>size_t\<close> and stores into
  32 bits, which gives the same value as computing with 32 bits.
\<close>

definition seen_id_of :: "nat \<Rightarrow> fifo_msg \<Rightarrow> u32" where
  "seen_id_of n m = of_nat n * (sequence_num m - 1) + original_sender m - 1"

definition mid_of :: "nat \<Rightarrow> u32 \<Rightarrow> nat \<Rightarrow> u32" where
  "mid_of n sid self = of_nat n * sid + of_nat self - 1"

definition send_urb :: "env \<Rightarrow> net_data \<Rightarrow> fifo_msg \<Rightarrow> lcb_msg \<Rightarrow> (int \<times> net_data) run" where
  "send_urb e data m lcbmsg =
     (let sid = seen_id_of (num_proc data) m; mid = mid_of (num_proc data) sid (self_pid data) in
      bnd (add_seen_urb e (urb_tab data) sid) (\<lambda>(r, t).
      let data = data\<lparr>urb_tab := t\<rparr> in
      if r \<noteq> 0 then ret (r, data)
      else bnd (set_ack_urb e (urbacks data) mid) (\<lambda>(r, d).
      let data = data\<lparr>urbacks := d\<rparr> in
      if r \<noteq> 0 then ret (r, data)
      else bnd (log_urb_broadcast e (logdata data) m) (\<lambda>(r, l).
      let data = data\<lparr>logdata := l\<rparr> in
      if r \<noteq> 0 then ret (r, data)
      else bnd (send_beb e data \<lparr>lcb_part = lcbmsg, fifo_part = m, seen_id = sid, urb_mid = mid\<rparr>) (\<lambda>(r, data).
      if r \<noteq> 0 then ret (r, data) else ret (0, data))))))"

text \<open>The first half of \<open>deliver_urb\<close>: a message not seen before is passed on.\<close>

definition urb_relay :: "env \<Rightarrow> net_data \<Rightarrow> urb_msg \<Rightarrow> (int \<times> net_data) run" where
  "urb_relay e data m =
     bnd (add_seen_urb e (urb_tab data) (seen_id m)) (\<lambda>(r, t).
     let data = data\<lparr>urb_tab := t\<rparr> in
     if r \<noteq> 0 then ret (r, data)
     else let new_msg = m\<lparr>urb_mid := mid_of (num_proc data) (seen_id m) (self_pid data)\<rparr> in
       bnd (alloc_vector e (lcb_clock (lcb_part new_msg)) (of_nat (num_proc data))
              (vector (lcb_clock (lcb_part m)))) (\<lambda>(r, c).
       if r \<noteq> 0 then ret (r, data)
       else let new_msg = new_msg\<lparr>lcb_part := (lcb_part new_msg)\<lparr>lcb_clock := c\<rparr>\<rparr> in
         bnd (set_ack_urb e (urbacks data) (urb_mid new_msg)) (\<lambda>(r, d).
         let data = data\<lparr>urbacks := d\<rparr> in
         if r \<noteq> 0 then ret (r, data)
         else bnd (send_beb e data new_msg) (\<lambda>(r, data).
         if r \<noteq> 0 then ret (r, data) else ret (0, data)))))"

text \<open>The second half: a message that enough processes have is delivered once.\<close>

definition urb_try_deliver :: "env \<Rightarrow> net_data \<Rightarrow> urb_msg \<Rightarrow> (int \<times> net_data) run" where
  "urb_try_deliver e data m =
     bnd (can_deliver (urbacks data) (seen_id m)) (\<lambda>can.
     if can = 0 then ret (0, data)
     else bnd (is_delivered_urb (urb_tab data) (seen_id m)) (\<lambda>done.
       if done \<noteq> 0 then ret (0, data)
       else bnd (add_delivered_urb e (urb_tab data) (seen_id m)) (\<lambda>(r, t).
         let data = data\<lparr>urb_tab := t\<rparr> in
         if r \<noteq> 0 then ret (r, data)
         else bnd (deliver_lcb e data (lcb_part m)) (\<lambda>(r, data).
         if r \<noteq> 0 then ret (r, data) else ret (0, data)))))"

definition deliver_urb :: "env \<Rightarrow> net_data \<Rightarrow> urb_msg \<Rightarrow> (int \<times> net_data) run" where
  "deliver_urb e data m =
     bnd (set_ack_urb e (urbacks data) (urb_mid m)) (\<lambda>(r, d).
     let data = data\<lparr>urbacks := d\<rparr> in
     if r \<noteq> 0 then ret (r, data)
     else bnd (is_seen_urb (urb_tab data) (seen_id m)) (\<lambda>s.
       bnd (if s = 0 then urb_relay e data m else ret (0, data)) (\<lambda>(r, data).
       if r \<noteq> 0 then ret (r, data)
       else urb_try_deliver e data m)))"

definition deliver_beb :: "env \<Rightarrow> net_data \<Rightarrow> urb_msg \<Rightarrow> (int \<times> net_data) run" where
  "deliver_beb e data m = deliver_urb e data m"

section \<open>Perfect link\<close>

definition THRESHOLD :: nat where "THRESHOLD = 10"

definition ACK_NO :: u32 where "ACK_NO = 1"

text \<open>
  One round of the loop of \<open>send_pl\<close>, the \<open>i\<close>th: \<open>Some r\<close> when the function returns
  \<open>r\<close>, \<open>None\<close> when a datagram was sent and the thread sleeps.
\<close>

definition send_pl_round :: "env \<Rightarrow> u32 \<Rightarrow> net_data \<Rightarrow> msg \<Rightarrow> nat \<Rightarrow> (int option \<times> net_data) run" where
  "send_pl_round e pid data m i =
     bnd (is_ack (pl_acks data) (ackid m)) (\<lambda>(a, acks).
     let data = data\<lparr>pl_acks := acks\<rparr> in
     if a \<noteq> 0 then ret (Some 0, data)
     else if THRESHOLD \<le> i then
       bnd (enqueue e (task_q data) \<lparr>pid_dest = pid, task_msg = m\<rparr>) (\<lambda>(r, q).
       let data = data\<lparr>task_q := q\<rparr> in
       if r < 0 then ret (Some r, data) else ret (Some BACK_TO_QUEUE, data))
     else bnd (send_fl e data pid m) (\<lambda>(r, data).
       if r < 0 then ret (Some (err ERROR_SEND), data) else ret (None, data)))"

lemma send_pl_round_sleeps: "send_pl_round e pid data m i = ret (None, data') \<Longrightarrow> i < THRESHOLD"
  by (auto simp: send_pl_round_def bnd_eq_ret Let_def split: if_splits)

text \<open>
  While \<open>send_pl\<close> sleeps the other threads run: \<open>others i\<close> is what they do to the state of
  the process during the sleep of round \<open>i\<close>.
\<close>

function send_pl_loop :: "env \<Rightarrow> (nat \<Rightarrow> net_data \<Rightarrow> net_data) \<Rightarrow> u32 \<Rightarrow> net_data \<Rightarrow> msg \<Rightarrow> nat
    \<Rightarrow> (int \<times> net_data) run" where
  "send_pl_loop e others pid data m i =
     bnd (send_pl_round e pid data m i) (\<lambda>(r, data).
     case r of Some r \<Rightarrow> ret (r, data)
     | None \<Rightarrow> send_pl_loop e others pid (others i data) m (i + 1))"
  by pat_completeness auto
termination
  by (relation "measure (\<lambda>(e, others, pid, data, m, i). THRESHOLD - i)")
    (auto dest: send_pl_round_sleeps)

declare send_pl_loop.simps [simp del]

definition send_pl :: "env \<Rightarrow> (nat \<Rightarrow> net_data \<Rightarrow> net_data) \<Rightarrow> u32 \<Rightarrow> net_data \<Rightarrow> msg
    \<Rightarrow> (int \<times> net_data) run" where
  "send_pl e others pid data m = send_pl_loop e others pid data m 0"

text \<open>The acknowledgement of a message; its broadcast part is uninitialised.\<close>

definition ack_msg :: "env \<Rightarrow> net_data \<Rightarrow> msg \<Rightarrow> msg" where
  "ack_msg e data m = \<lparr>urb_part = uninit_urb_msg e, msg_mid = msg_mid m, ackid = ackid m,
     sender = of_nat (self_pid data), mtype = ACK_NO\<rparr>"

definition deliver_pl :: "env \<Rightarrow> net_data \<Rightarrow> msg \<Rightarrow> (int \<times> net_data) run" where
  "deliver_pl e data m =
     (if mtype m = ACK_NO then
        bnd (set_ack e (pl_acks data) (ackid m)) (\<lambda>(r, acks).
        let data = data\<lparr>pl_acks := acks\<rparr> in
        if r < 0 then ret (r, data) else ret (0, data))
      else
        bnd (send_fl e data (sender m) (ack_msg e data m)) (\<lambda>(r, data).
        if r < 0 then ret (r, data)
        else bnd (is_delivered (pl_deliv data) (msg_mid m)) (\<lambda>d.
          if d \<noteq> 0 then ret (0, data)
          else bnd (set_delivered e (pl_deliv data) (msg_mid m)) (\<lambda>(r, t).
            let data = data\<lparr>pl_deliv := t\<rparr> in
            if r \<noteq> 0 then ret (r, data)
            else bnd (deliver_beb e data (urb_part m)) (\<lambda>(r, data).
            if r < 0 then ret (r, data) else ret (0, data))))))"

definition deliver_fl :: "env \<Rightarrow> net_data \<Rightarrow> msg \<Rightarrow> (int \<times> net_data) run" where
  "deliver_fl e data m = deliver_pl e data m"

section \<open>Localized causal broadcast: sending\<close>

text \<open>One round of the loop of \<open>send_lcb\<close>; the message variable survives from round to round.\<close>

definition send_lcb_round :: "env \<Rightarrow> net_data \<Rightarrow> lcb_msg \<Rightarrow> nat \<Rightarrow> (int \<times> lcb_msg \<times> net_data) run" where
  "send_lcb_round e data lcbmsg i =
     bnd (get_vec_clock_copy e data (lcb_clock lcbmsg)) (\<lambda>(r, c, data).
     let lcbmsg = lcbmsg\<lparr>lcb_clock := c\<rparr> in
     if r \<noteq> 0 then ret (r, lcbmsg, data)
     else bnd (store (vector c) (size_dec (self_pid data)) (of_nat (i - 1))) (\<lambda>v.
       let lcbmsg = lcbmsg\<lparr>lcb_original_sender := of_nat (self_pid data), lcb_clock := c\<lparr>vector := v\<rparr>\<rparr> in
       bnd (send_urb e data \<lparr>sequence_num = of_nat i, original_sender = of_nat (self_pid data)\<rparr> lcbmsg)
         (\<lambda>(r, data). if r \<noteq> 0 then ret (r, lcbmsg, data) else ret (0, lcbmsg, data))))"

fun send_lcb_loop :: "env \<Rightarrow> net_data \<Rightarrow> lcb_msg \<Rightarrow> nat \<Rightarrow> nat \<Rightarrow> (int \<times> net_data) run" where
  "send_lcb_loop e data lcbmsg i 0 = ret (0, data)"
| "send_lcb_loop e data lcbmsg i (Suc k) =
     bnd (send_lcb_round e data lcbmsg i) (\<lambda>(r, lcbmsg, data).
     if r \<noteq> 0 then ret (r, data) else send_lcb_loop e data lcbmsg (i + 1) k)"

text \<open>\<open>m + 1\<close> overflows for the largest \<open>int\<close>; a negative \<open>m\<close> sends nothing.\<close>

definition send_lcb :: "env \<Rightarrow> net_data \<Rightarrow> int \<Rightarrow> (int \<times> net_data) run" where
  "send_lcb e data m =
     (if 2 ^ 31 - 1 \<le> m then ub
      else send_lcb_loop e data \<lparr>lcb_clock = uninit_clock e, lcb_original_sender = junk e 1\<rparr> 1 (nat m))"

section \<open>The threads\<close>

definition process_msg :: "env \<Rightarrow> net_data \<Rightarrow> msg \<Rightarrow> (int \<times> net_data) run" where
  "process_msg e data m = deliver_fl e data m"

text \<open>
  One turn of the receiver loop, for the datagram that arrives. The first component of the
  result is \<open>None\<close> when the loop goes on and the exit code of the process otherwise; the
  last one is the message variable, which survives from turn to turn.
\<close>

definition receiver_turn :: "env \<Rightarrow> net_data \<Rightarrow> byte list option \<Rightarrow> msg \<Rightarrow> (int option \<times> net_data \<times> msg) run" where
  "receiver_turn e data datagram next_message =
     (let buf = Arr (replicate (message_size (num_proc data)) 0) in
      bnd (receive_msg e data buf datagram next_message) (\<lambda>(r, m, _).
      if r \<noteq> 0 then ret (Some r, data, m)
      else bnd (process_msg e data m) (\<lambda>(r, data).
      if r < 0 then ret (Some r, data, m)
      else if vector (msg_clock m) = Null then ret (None, data, m)
      else bnd (free (vector (msg_clock m))) (\<lambda>_.
           ret (None, data, with_clock m ((msg_clock m)\<lparr>vector := Null\<rparr>))))))"

text \<open>The message variable of the receiver thread when the thread starts.\<close>

definition receiver_start :: "env \<Rightarrow> msg" where
  "receiver_start e = uninit_msg e"

text \<open>
  The end of a turn of a sender thread, when \<open>send_pl\<close> has returned \<open>r\<close> for the task: the
  thread ends (\<open>Some\<close>), or the clock of a task that is done is released.
\<close>

definition sender_finish :: "queue_task \<Rightarrow> int \<Rightarrow> int option run" where
  "sender_finish t r =
     (if r < 0 then ret (Some (err ERROR_SEND))
      else if vector (msg_clock (task_msg t)) \<noteq> Null \<and> r = 0 then
        bnd (free (vector (msg_clock (task_msg t)))) (\<lambda>_. ret None)
      else ret None)"

text \<open>
  One turn of a sender thread: take a task (\<open>None\<close> in the second component: the queue is
  empty and the thread sleeps) and send it. The first component is the exit code of the
  thread, if it ends.
\<close>

definition sender_turn :: "env \<Rightarrow> (nat \<Rightarrow> net_data \<Rightarrow> net_data) \<Rightarrow> net_data
    \<Rightarrow> (int option \<times> queue_task option \<times> net_data) run" where
  "sender_turn e others data =
     bnd (dequeue (task_q data)) (\<lambda>(r, task, q).
     let data = data\<lparr>task_q := q\<rparr> in
     case task of None \<Rightarrow> ret (None, None, data)
     | Some t \<Rightarrow>
       bnd (send_pl e others (pid_dest t) data (task_msg t)) (\<lambda>(r, data).
       bnd (sender_finish t r) (\<lambda>ended. ret (ended, Some t, data))))"

section \<open>The threads\<close>

text \<open>
  How a thread ends: alone (\<open>pthread_exit\<close>), or with the whole process (\<open>exit\<close>).
\<close>

datatype thread_end = Thread_exit int | Process_exit int

text \<open>
  A run of a thread over its first turns. Each turn comes with its environment and with what
  other threads do to the data before it (\<open>idle\<close>); for a sender also with what they do while
  \<open>send_pl\<close> sleeps, for the receiver with the datagram that arrives. A thread first asks to be
  cancelled asynchronously, and ends when that is refused.
\<close>

type_synonym sender_input = "env \<times> (nat \<Rightarrow> net_data \<Rightarrow> net_data) \<times> (net_data \<Rightarrow> net_data)"

type_synonym receiver_input = "env \<times> byte list option \<times> (net_data \<Rightarrow> net_data)"

fun sender_loop :: "sender_input list \<Rightarrow> net_data \<Rightarrow> (thread_end option \<times> net_data) run" where
  "sender_loop [] data = ret (None, data)"
| "sender_loop ((e, others, idle) # turns) data =
     bnd (sender_turn e others (idle data)) (\<lambda>(ended, _, data).
     case ended of Some code \<Rightarrow> ret (Some (Thread_exit code), data)
     | None \<Rightarrow> sender_loop turns data)"

definition sender_f :: "env \<Rightarrow> sender_input list \<Rightarrow> net_data \<Rightarrow> (thread_end option \<times> net_data) run" where
  "sender_f e turns data =
     (if \<not> canceltype_ok e then ret (Some (Thread_exit (err ERROR_THREAD)), data)
      else sender_loop turns data)"

fun receiver_loop :: "receiver_input list \<Rightarrow> net_data \<Rightarrow> msg \<Rightarrow> (thread_end option \<times> net_data) run" where
  "receiver_loop [] data m = ret (None, data)"
| "receiver_loop ((e, datagram, idle) # turns) data m =
     bnd (receiver_turn e (idle data) datagram m) (\<lambda>(ended, data, m).
     case ended of Some code \<Rightarrow> ret (Some (Process_exit code), data)
     | None \<Rightarrow> receiver_loop turns data m)"

definition receiver_f :: "env \<Rightarrow> receiver_input list \<Rightarrow> net_data \<Rightarrow> (thread_end option \<times> net_data) run" where
  "receiver_f e turns data =
     (if \<not> canceltype_ok e then ret (Some (Thread_exit (err ERROR_THREAD)), data)
      else receiver_loop turns data (receiver_start e))"

section \<open>The value of an identifier\<close>

lemma unat_seen_id:
  assumes "1 \<le> j" "1 \<le> q" "q \<le> n" "n * j < 2 ^ 32"
  shows "unat (seen_id_of n \<lparr>sequence_num = of_nat j, original_sender = of_nat q\<rparr>) = n * (j - 1) + (q - 1)
    \<and> n * (j - 1) + (q - 1) < n * j"
proof -
  have eq: "seen_id_of n \<lparr>sequence_num = of_nat j, original_sender = of_nat q\<rparr> = of_nat (n * (j - 1) + (q - 1))"
    using assms(1-3) by (simp add: seen_id_of_def of_nat_diff)
  from assms(1) obtain j' where "j = Suc j'" by (cases j) auto
  then have "n * (j - 1) + n = n * j" by simp
  moreover have "q - 1 < n" using assms(2,3) by linarith
  ultimately have lt: "n * (j - 1) + (q - 1) < n * j" by linarith
  with assms(4) have "n * (j - 1) + (q - 1) < 2 ^ 32" by linarith
  with lt show ?thesis unfolding eq by (simp only: unat_of_nat_u32)
qed

lemma index_inj:
  assumes "n * a + b = n * c + d" "b < n" "d < (n :: nat)"
  shows "a = c \<and> b = d"
  using arg_cong [OF assms(1), of "\<lambda>x. x div n"] arg_cong [OF assms(1), of "\<lambda>x. x mod n"] assms(2,3)
  by auto

section \<open>Printing a message\<close>

text \<open>The text a call prints, with the return code; nobody calls it outside of debugging.\<close>

fun print_clock :: "u32 ptr \<Rightarrow> nat \<Rightarrow> nat \<Rightarrow> string run" where
  "print_clock p i 0 = ret []"
| "print_clock p i (Suc k) =
     bnd (load p i) (\<lambda>v. bnd (print_clock p (i + 1) k) (\<lambda>rest.
     ret (''vec '' @ dec i @ '' = '' @ dec (unat v) @ '' '' @ [newline] @ rest)))"

definition print_message :: "msg \<Rightarrow> (int \<times> string) run" where
  "print_message m =
     bnd (print_clock (vector (msg_clock m)) 0 (unat (vc_num_proc (msg_clock m)))) (\<lambda>clock.
     ret (0, ''=====MESSAGE====='' @ [newline]
       @ '' mid = '' @ dec (unat (msg_mid m)) @ '' '' @ [newline] @ ''  ackid = '' @ dec (unat (ackid m))
       @ [newline] @ '' sender = '' @ dec (unat (sender m)) @ '' '' @ [newline] @ '' mtype = ''
       @ dec (unat (mtype m)) @ [newline]
       @ '' urb mid = '' @ dec (unat (urb_mid (urb_part m))) @ [newline] @ '' seenid = ''
       @ dec (unat (seen_id (urb_part m))) @ [newline] @ ''Vector clock '' @ [newline] @ clock))"

lemma print_clock_ok: "i + k \<le> length xs \<Longrightarrow> \<exists>s. print_clock (Arr xs) i k = ret s"
proof (induction k arbitrary: i)
  case (Suc k)
  from Suc.IH [of "i + 1"] Suc.prems show ?case by auto
qed simp

lemma print_message_ok:
  assumes "clock_ok (unat (vc_num_proc (msg_clock m))) (msg_clock m)"
  shows "\<exists>s. print_message m = ret (0, s)"
proof -
  from assms obtain xs where xs: "vector (msg_clock m) = Arr xs" "length xs = unat (vc_num_proc (msg_clock m))"
    by (auto simp: clock_ok_def split: ptr.splits)
  from print_clock_ok [of 0 "unat (vc_num_proc (msg_clock m))" xs] xs(2)
  obtain s where "print_clock (Arr xs) 0 (unat (vc_num_proc (msg_clock m))) = ret s" by auto
  then show ?thesis by (simp add: print_message_def xs(1))
qed

end
