(* ===== verification/Sample.thy ===== *)
theory Sample
  imports Dependencies Log
begin

text \<open>
  A small concrete process state, used to show that the hypotheses of the theorems can hold
  together: process 1 of 3, with tables for 150 messages, where process 1 is affected by
  process 2 and the others by nobody.
\<close>

definition sample_uid_table :: uid_table where
  "sample_uid_table = \<lparr>no_msgs = 150, no_process = 3, total_entries = 1350,
     entries = Arr (replicate 1350 0)\<rparr>"

definition sample_queue :: msg_queue where
  "sample_queue = \<lparr>no_elem = 0, qsize = 4, q_front = 0, q_back = 0,
     elems = Arr (replicate 4 zero_task), queue_mutex = False\<rparr>"

definition sample_deps :: dependencies where
  "sample_deps = \<lparr>dep_lists = Arr [\<lparr>pid_list = Arr [2], list_len = 1\<rparr>, empty_row, empty_row],
     dep_num_proc = 3\<rparr>"

definition sample_clock :: "u32 list \<Rightarrow> vec_clock" where
  "sample_clock xs = \<lparr>vc_num_proc = of_nat (length xs), vector = Arr xs, vc_mutex = False\<rparr>"

definition sample :: net_data where
  "sample = \<lparr>address_book = Some \<lparr>ab_num_proc = 3, addresses = Arr (replicate 3 zero_addr)\<rparr>,
     self_pid = 1, num_proc = 3, num_msg = 2,
     pl_acks = \<lparr>table_mutex = False, ack_tab = sample_uid_table\<rparr>,
     pl_deliv = \<lparr>pl_tab = sample_uid_table\<rparr>, task_q = sample_queue,
     urb_tab = \<lparr>urb_values = Arr (replicate 450 zero_urb_entry), urb_no_msgs = 150,
        urb_no_process = 3, urb_total_entries = 450\<rparr>,
     senders = Null, receiver_thread = None,
     pending = \<lparr>bol = Arr (replicate 450 0), bol_no_msgs = 150, bol_no_process = 3, bol_total_entries = 450\<rparr>,
     next_deliver = \<lparr>next_no_process = 3, next_entries = Arr [0, 0, 0]\<rparr>,
     urbacks = \<lparr>urb_ack_tab = sample_uid_table\<rparr>,
     receiver_fd = 3, logdata = empty_log, log_filename = [], rec_mutex = False,
     deps = Some sample_deps,
     pending_lcb = \<lparr>lcb_num_proc = 3,
        lists = Arr (replicate 3 \<lparr>num_elems = 0, list_head = None, list_tail = None\<rparr>),
        node_mem = \<lparr>nodes = (\<lambda>_. None), next_addr = 0\<rparr>\<rparr>,
     vector_clock = sample_clock [0, 0, 0], net_out = []\<rparr>"

lemma sample_sel [simp]:
  "self_pid sample = 1" "num_proc sample = 3" "logdata sample = empty_log" "deps sample = Some sample_deps"
  "vector_clock sample = sample_clock [0, 0, 0]" "task_q sample = sample_queue"
  "pl_acks sample = \<lparr>table_mutex = False, ack_tab = sample_uid_table\<rparr>"
  "pl_deliv sample = \<lparr>pl_tab = sample_uid_table\<rparr>"
  "urbacks sample = \<lparr>urb_ack_tab = sample_uid_table\<rparr>" "net_out sample = []" "receiver_fd sample = 3"
  by (simp_all add: sample_def)

lemma sample_deps_ok: "deps_ok (Some sample_deps)" "deps_pids (Some sample_deps) = {1..3}"
  by (simp_all add: deps_ok_def sample_deps_def row_ok_def empty_row_def deps_pids_def)

lemma sample_deps_of:
  "deps_of (Some sample_deps) 1 = ret [2]"
  "deps_of (Some sample_deps) 2 = ret []" "deps_of (Some sample_deps) 3 = ret []"
  by (simp_all add: deps_of_def get_dependencies_def dep_row_def sample_deps_def row_pids_def empty_row_def)

end
