(* ===== verification/LinkSpec.thy ===== *)
theory LinkSpec
  imports Layers Sample
begin

text \<open>
  What the link layers do: the datagrams \<open>send_message\<close> hands to the kernel, the tasks
  \<open>send_beb\<close> puts into the queue, the retransmission loop of \<open>send_pl\<close>, and the
  acknowledgement that \<open>deliver_pl\<close> sends.
\<close>

section \<open>Datagrams\<close>

text \<open>\<open>bs\<close> is the datagram of message \<open>m\<close> among \<open>n\<close> processes.\<close>

definition datagram_of :: "env \<Rightarrow> nat \<Rightarrow> msg \<Rightarrow> byte list \<Rightarrow> bool" where
  "datagram_of e n m bs \<longleftrightarrow> serialize e m n = ret (0, Arr bs) \<and> length bs = message_size n"

text \<open>A call of \<open>send_message\<close> that returns has failed without a trace or has sent one datagram.\<close>

lemma serialize_ret:
  assumes "serialize e m n = ret (r, buf)"
  shows "(r = err ERROR_MEMORY \<and> buf = Null) \<or> (r = 0 \<and> (\<exists>bs. buf = Arr bs \<and> length bs = message_size n))"
proof (cases "grant e (message_size n)")
  case False
  with assms show ?thesis by (simp add: serialize_def)
next
  case grant: True
  show ?thesis
  proof (cases "mtype m = 1")
    case True
    with assms grant show ?thesis
      by (auto simp: serialize_def Let_def temp_ack message_size_def simp del: list_update.simps upt_Suc)
  next
    case False
    from assms grant False show ?thesis
      by (auto simp: serialize_def Let_def temp_msg bnd_eq_ret read_block_eq_ret message_size_def
          simp del: list_update.simps upt_Suc)
  qed
qed

lemma send_message_ret:
  assumes "send_message e data dest m = ret (r, data')"
  shows "(r \<noteq> 0 \<and> data' = data)
    \<or> (r = 0 \<and> (\<exists>a bs. get_addr (address_book data) (unat dest) = ret (0, Some a)
          \<and> datagram_of e (num_proc data) m bs
          \<and> data' = data\<lparr>net_out := net_out data @ [(a, bs)]\<rparr>))"
proof -
  from assms obtain r1 addr where g: "get_addr (address_book data) (unat dest) = ret (r1, addr)"
    by (auto simp: send_message_def bnd_eq_ret)
  show ?thesis
  proof (cases "r1 = 0")
    case False
    then show ?thesis using assms g by (simp add: send_message_def)
  next
    case True
    with assms g obtain a where a: "addr = Some a"
      by (cases addr) (auto simp: send_message_def)
    from assms g a True obtain r2 buf where s: "serialize e m (num_proc data) = ret (r2, buf)"
      by (auto simp: send_message_def bnd_eq_ret)
    from serialize_ret [OF s] show ?thesis
    proof (elim disjE conjE exE)
      assume "r2 = err ERROR_MEMORY"
      then show ?thesis using assms g a s True by (simp add: send_message_def)
    next
      fix bs assume bs: "r2 = 0" "buf = Arr bs" "length bs = message_size (num_proc data)"
      then have "datagram_of e (num_proc data) m bs" using s by (simp add: datagram_of_def)
      with assms g a s bs True show ?thesis
        by (simp add: send_message_def split: if_splits) auto
    qed
  qed
qed

lemma send_fl_ret:
  assumes "send_fl e data dest m = ret (r, data')"
  shows "(r \<noteq> 0 \<and> data' = data)
    \<or> (r = 0 \<and> (\<exists>a bs. get_addr (address_book data) (unat dest) = ret (0, Some a)
          \<and> datagram_of e (num_proc data) m bs
          \<and> data' = data\<lparr>net_out := net_out data @ [(a, bs)]\<rparr>))"
proof -
  from assms have "send_message e data dest m = ret (r, data')"
    by (auto simp: send_fl_def bnd_eq_ret split: if_splits)
  then show ?thesis by (rule send_message_ret)
qed

text \<open>When nothing fails, one datagram goes to the address of the destination.\<close>

definition addr_of :: "net_data \<Rightarrow> u32 \<Rightarrow> sockaddr_in" where
  "addr_of data pid = (case address_book data of None \<Rightarrow> zero_addr
     | Some b \<Rightarrow> (case addresses b of Arr xs \<Rightarrow> xs ! (unat pid - 1) | _ \<Rightarrow> zero_addr))"

definition msg_bytes :: "env \<Rightarrow> nat \<Rightarrow> msg \<Rightarrow> byte list" where
  "msg_bytes e n m = (case serialize e m n of Some (Ret (_, Arr bs)) \<Rightarrow> bs | _ \<Rightarrow> [])"

lemma get_addr_in_book:
  assumes "book_ok (address_book data)" "unat pid \<in> book_pids (address_book data)"
  shows "get_addr (address_book data) (unat pid) = ret (0, Some (addr_of data pid))"
  using assms by (elim book_okE) (auto simp: get_addr_def addr_of_def book_pids_def)

lemma send_message_ok:
  assumes "book_ok (address_book data)" "unat pid \<in> book_pids (address_book data)"
    and "sendable (num_proc data) m" "grant e (message_size (num_proc data))"
    and "sendto_ok e (length (net_out data))"
  shows "send_message e data pid m = ret (0, data\<lparr>net_out := net_out data
           @ [(addr_of data pid, msg_bytes e (num_proc data) m)]\<rparr>)"
  using get_addr_in_book [OF assms(1,2)] serialize_ok [OF assms(3,4)] assms(5)
  by (auto simp: send_message_def msg_bytes_def)

lemma send_fl_ok:
  assumes "book_ok (address_book data)" "unat pid \<in> book_pids (address_book data)"
    and "sendable (num_proc data) m" "grant e (message_size (num_proc data))"
    and "sendto_ok e (length (net_out data))"
  shows "send_fl e data pid m = ret (0, data\<lparr>net_out := net_out data
           @ [(addr_of data pid, msg_bytes e (num_proc data) m)]\<rparr>)"
  using send_message_ok [OF assms] by (simp add: send_fl_def)

section \<open>Best-effort broadcast\<close>

text \<open>The task for process \<open>i\<close>.\<close>

definition beb_task :: "net_data \<Rightarrow> urb_msg \<Rightarrow> nat \<Rightarrow> queue_task" where
  "beb_task data m i =
     (let n = of_nat (num_proc data);
          message = beb_message n (of_nat (self_pid data)) m (of_nat i)
      in \<lparr>pid_dest = of_nat i,
          task_msg = with_clock message ((msg_clock message)\<lparr>vc_num_proc := n,
             vector := Arr (clock_entries (msg_clock message) (num_proc data))\<rparr>)\<rparr>)"

lemma msg_clock_beb [simp]: "msg_clock (beb_message n self m i) = lcb_clock (lcb_part m)"
  by (simp add: beb_message_def)

lemma num_entry_u32: "i < 2 ^ 32 \<Longrightarrow> j < 2 ^ 32 \<Longrightarrow> (of_nat i :: u32) = of_nat j \<longleftrightarrow> i = j"
  by (metis unat_of_nat_u32)

lemma beb_loop_spec:
  assumes "vector (lcb_clock (lcb_part m)) = Arr xs" "\<And>j. grant e j"
    and "num_proc data \<le> length xs" "num_proc data < 2 ^ 32" "self_pid data < 2 ^ 32" "i + k \<le> 2 ^ 32"
    and "queue_ok (task_q data)" "length (queue_tasks (task_q data)) + k \<le> 2 ^ 31"
  shows "\<exists>q. beb_loop e data m i k = ret (0, data\<lparr>task_q := q\<rparr>) \<and> queue_ok q
    \<and> queue_tasks q = queue_tasks (task_q data)
        @ map (beb_task data m) (filter (\<lambda>j. j \<noteq> self_pid data) [i..<i + k])"
  using assms(3-8)
proof (induction k arbitrary: data i)
  case 0
  then show ?case by (intro exI [of _ "task_q data"]) simp
next
  case (Suc k)
  have ups: "[i..<Suc (i + k)] = i # [Suc i..<Suc (i + k)]" by (simp add: upt_rec)
  have same: "(of_nat i :: u32) = of_nat (self_pid data) \<longleftrightarrow> i = self_pid data"
    using Suc.prems by (intro num_entry_u32) auto
  show ?case
  proof (cases "i = self_pid data")
    case True
    have "filter (\<lambda>j. j \<noteq> self_pid data) [i..<i + Suc k]
        = filter (\<lambda>j. j \<noteq> self_pid data) [i + 1..<i + 1 + k]"
      using True ups by (simp del: upt_Suc)
    moreover have "beb_loop e data m i (Suc k) = beb_loop e data m (i + 1) k"
      using same True by simp
    ultimately show ?thesis using Suc.IH [of data "i + 1"] Suc.prems by (simp del: upt_Suc beb_loop.simps)
  next
    case False
    let ?t = "beb_task data m i"
    from enqueue_ok [of "task_q data" e ?t] Suc.prems assms(2) obtain q1 where
      q1: "enqueue e (task_q data) ?t = ret (0, q1)" "queue_ok q1"
        "queue_tasks q1 = queue_tasks (task_q data) @ [?t]" by auto
    let ?c = "(msg_clock (beb_message (of_nat (num_proc data)) (of_nat (self_pid data)) m (of_nat i)))
      \<lparr>vc_num_proc := of_nat (num_proc data), vector := Arr (take (num_proc data) xs)\<rparr>"
    have "alloc_vector e (lcb_clock (lcb_part m)) (of_nat (num_proc data)) (Arr xs) = ret (0, ?c)"
      using Suc.prems(1,2) assms(2) by (simp add: alloc_vector_Arr unat_of_nat_u32)
    moreover have "?t = \<lparr>pid_dest = of_nat i, task_msg = with_clock
        (beb_message (of_nat (num_proc data)) (of_nat (self_pid data)) m (of_nat i)) ?c\<rparr>"
      using assms(1) by (simp add: beb_task_def Let_def clock_entries_def)
    ultimately have step: "beb_loop e data m i (Suc k) = beb_loop e (data\<lparr>task_q := q1\<rparr>) m (i + 1) k"
      using q1 same False assms(1) by (simp add: Let_def)
    from Suc.IH [of "data\<lparr>task_q := q1\<rparr>" "i + 1"] Suc.prems q1 obtain q where
      q: "beb_loop e (data\<lparr>task_q := q1\<rparr>) m (i + 1) k = ret (0, data\<lparr>task_q := q\<rparr>)" "queue_ok q"
        "queue_tasks q = queue_tasks q1
          @ map (beb_task (data\<lparr>task_q := q1\<rparr>) m) (filter (\<lambda>j. j \<noteq> self_pid data) [i + 1..<i + 1 + k])"
      by auto
    have same_task: "beb_task (data\<lparr>task_q := q1\<rparr>) m = beb_task data m"
      by (simp add: fun_eq_iff beb_task_def)
    show ?thesis
      unfolding step using q(1,2)
      by (intro exI [of _ q]) (simp add: q(3) q1(3) ups same_task False del: upt_Suc)
  qed
qed

text \<open>C12: \<open>send_beb\<close> with enough memory puts one task per other process into the queue, in
  the order of the process ids, each with a copy of the message and of its clock, its own
  acknowledgement id, and never one for the process itself; nothing else of the state changes.\<close>

theorem send_beb_enqueues_others:
  assumes "vector (lcb_clock (lcb_part m)) = Arr xs" "num_proc data \<le> length xs"
    and "num_proc data < 2 ^ 31" "self_pid data < 2 ^ 32"
    and "queue_ok (task_q data)" "length (queue_tasks (task_q data)) + num_proc data \<le> 2 ^ 31"
  shows "\<exists>q. send_beb (with_memory e) data m = ret (0, data\<lparr>task_q := q\<rparr>) \<and> queue_ok q
    \<and> queue_tasks q = queue_tasks (task_q data)
        @ map (beb_task data m) (filter (\<lambda>i. i \<noteq> self_pid data) [1..<num_proc data + 1])"
  using beb_loop_spec [of m xs "with_memory e" data 1 "num_proc data"] assms
  by (auto simp: send_beb_def simp del: upt_Suc)

definition sample_urb_msg :: urb_msg where
  "sample_urb_msg = \<lparr>lcb_part = \<lparr>lcb_clock = sample_clock [0, 0, 0], lcb_original_sender = 1\<rparr>,
     fifo_part = \<lparr>sequence_num = 1, original_sender = 1\<rparr>, seen_id = 0, urb_mid = 0\<rparr>"

definition sample_msg :: msg where
  "sample_msg = \<lparr>urb_part = sample_urb_msg, msg_mid = 0, ackid = 1, sender = 1, mtype = 0\<rparr>"

lemma sample_queue_ok [simp]: "queue_ok sample_queue" "queue_tasks sample_queue = []"
  by (simp_all add: queue_ok_def sample_queue_def queue_tasks_def ring_def)

lemma sample_table_ok [simp]: "table_ok sample_uid_table"
  by (simp add: table_ok_def sample_uid_table_def)

lemma sample_acks_ok [simp]: "acks_ok (pl_acks sample)"
  by (simp add: acks_ok_def)

lemma sample_view [simp]: "table_view sample_uid_table i = 0"
  by (simp add: table_view_def sample_uid_table_def word_le_nat_alt)

lemma sample_book: "book_ok (address_book sample)" "book_pids (address_book sample) = {1..3}"
  by (simp_all add: sample_def book_ok_def book_pids_def)

theorem send_beb_enqueues_others_witness:
  "\<exists>q. send_beb (with_memory good_env) sample sample_urb_msg = ret (0, sample\<lparr>task_q := q\<rparr>)
    \<and> queue_tasks q = [beb_task sample sample_urb_msg 2, beb_task sample sample_urb_msg 3]"
proof -
  have "vector (lcb_clock (lcb_part sample_urb_msg)) = Arr [0, 0, 0]"
    by (simp add: sample_urb_msg_def sample_clock_def)
  moreover have "filter (\<lambda>i. i \<noteq> 1) [1..<3 + 1] = [2, 3 :: nat]" by code_simp
  ultimately show ?thesis using send_beb_enqueues_others [of sample_urb_msg "[0, 0, 0]" sample good_env]
    by auto
qed

section \<open>Perfect link: sending\<close>

text \<open>
  The other threads during the sleeps of \<open>send_pl\<close>, as far as the loop can see them: round
  \<open>i\<close> finds the acknowledgement table \<open>A i\<close>.
\<close>

definition acks_at :: "(nat \<Rightarrow> ack_table) \<Rightarrow> nat \<Rightarrow> net_data \<Rightarrow> net_data" where
  "acks_at A i data = data\<lparr>pl_acks := A (Suc i)\<rparr>"

definition link_ok :: "net_data \<Rightarrow> u32 \<Rightarrow> msg \<Rightarrow> bool" where
  "link_ok data pid m \<longleftrightarrow> book_ok (address_book data) \<and> unat pid \<in> book_pids (address_book data)
     \<and> sendable (num_proc data) m"

lemma link_ok_update [simp]:
  "link_ok (data\<lparr>pl_acks := a\<rparr>) pid m = link_ok data pid m"
  "link_ok (data\<lparr>net_out := o'\<rparr>) pid m = link_ok data pid m"
  by (simp_all add: link_ok_def)

lemma sample_link_ok: "link_ok sample 2 sample_msg"
  by (simp add: link_ok_def sample_book sendable_def sample_msg_def sample_urb_msg_def sample_clock_def)

abbreviation dgram :: "env \<Rightarrow> net_data \<Rightarrow> u32 \<Rightarrow> msg \<Rightarrow> sockaddr_in \<times> byte list" where
  "dgram e data pid m \<equiv> (addr_of data pid, msg_bytes e (num_proc data) m)"

lemma addr_of_update [simp]:
  "addr_of (data\<lparr>pl_acks := a\<rparr>) pid = addr_of data pid"
  "addr_of (data\<lparr>net_out := o'\<rparr>) pid = addr_of data pid"
  by (simp_all add: addr_of_def)

lemma send_pl_round_acked:
  assumes "acks_ok (pl_acks data)" "ack_view (pl_acks data) (ackid m) \<noteq> 0"
  shows "send_pl_round e pid data m i = ret (Some 0, data)"
  using assms by (simp add: send_pl_round_def is_ack_view Let_def)

lemma send_pl_round_sends:
  assumes "acks_ok (pl_acks data)" "ack_view (pl_acks data) (ackid m) = 0" "i < THRESHOLD"
    and "link_ok data pid m" "grant e (message_size (num_proc data))" "sendto_ok e (length (net_out data))"
  shows "send_pl_round e pid data m i = ret (None, data\<lparr>net_out := net_out data @ [dgram e data pid m]\<rparr>)"
  using assms send_fl_ok [of data pid m e] by (simp add: send_pl_round_def is_ack_view Let_def link_ok_def)

lemma send_pl_round_gives_up:
  assumes "acks_ok (pl_acks data)" "ack_view (pl_acks data) (ackid m) = 0" "THRESHOLD \<le> i"
    and "queue_ok (task_q data)" "length (queue_tasks (task_q data)) < 2 ^ 31" "\<And>n. grant e n"
  shows "\<exists>q. send_pl_round e pid data m i = ret (Some BACK_TO_QUEUE, data\<lparr>task_q := q\<rparr>) \<and> queue_ok q
    \<and> queue_tasks q = queue_tasks (task_q data) @ [\<lparr>pid_dest = pid, task_msg = m\<rparr>]"
  using enqueue_ok [OF assms(4-6), of "\<lparr>pid_dest = pid, task_msg = m\<rparr>"] assms(1-3)
  by (auto simp: send_pl_round_def is_ack_view Let_def)

text \<open>\<open>k\<close> rounds without an acknowledgement send \<open>k\<close> datagrams.\<close>

lemma send_pl_loop_rounds:
  assumes "\<And>j. acks_ok (A j)" "\<And>j. i \<le> j \<Longrightarrow> j < i + k \<Longrightarrow> ack_view (A j) (ackid m) = 0"
    and "i + k \<le> THRESHOLD" "pl_acks data = A i" "link_ok data pid m"
    and "\<And>n. grant e n" "\<And>n. sendto_ok e n"
  shows "send_pl_loop e (acks_at A) pid data m i
    = send_pl_loop e (acks_at A) pid (data\<lparr>pl_acks := A (i + k),
        net_out := net_out data @ replicate k (dgram e data pid m)\<rparr>) m (i + k)"
  using assms(2-5)
proof (induction k arbitrary: i data)
  case 0
  then have "data\<lparr>pl_acks := A i, net_out := net_out data\<rparr> = data" by (cases data) simp
  then show ?case by simp
next
  case (Suc k)
  have "send_pl_round e pid data m i = ret (None, data\<lparr>net_out := net_out data @ [dgram e data pid m]\<rparr>)"
    using Suc.prems assms(1,6,7) by (intro send_pl_round_sends) simp_all
  then have "send_pl_loop e (acks_at A) pid data m i
      = send_pl_loop e (acks_at A) pid (data\<lparr>net_out := net_out data @ [dgram e data pid m],
          pl_acks := A (Suc i)\<rparr>) m (Suc i)"
    by (subst send_pl_loop.simps) (simp add: acks_at_def)
  also have "\<dots> = send_pl_loop e (acks_at A) pid (data\<lparr>pl_acks := A (i + Suc k),
        net_out := net_out data @ replicate (Suc k) (dgram e data pid m)\<rparr>) m (i + Suc k)"
    using Suc.IH [of "Suc i" "data\<lparr>net_out := net_out data @ [dgram e data pid m], pl_acks := A (Suc i)\<rparr>"]
      Suc.prems by simp
  finally show ?case .
qed

text \<open>C13: \<open>send_pl\<close> stops at the first acknowledgement. If round \<open>k\<close> (at most the 10th sleep)
  is the first that finds the message acknowledged, exactly \<open>k\<close> copies of its datagram have
  gone to the address of the destination, the call returns 0 and the queue is unchanged.\<close>

theorem send_pl_stops_at_ack:
  assumes "k \<le> THRESHOLD" "\<And>j. acks_ok (A j)"
    and "\<And>j. j < k \<Longrightarrow> ack_view (A j) (ackid m) = 0" "ack_view (A k) (ackid m) \<noteq> 0"
    and "pl_acks data = A 0" "link_ok data pid m" "\<And>n. grant e n" "\<And>n. sendto_ok e n"
  shows "send_pl e (acks_at A) pid data m = ret (0, data\<lparr>pl_acks := A k,
      net_out := net_out data @ replicate k (dgram e data pid m)\<rparr>)"
proof -
  have "send_pl_loop e (acks_at A) pid data m 0 = send_pl_loop e (acks_at A) pid (data\<lparr>pl_acks := A (0 + k),
        net_out := net_out data @ replicate k (dgram e data pid m)\<rparr>) m (0 + k)"
    by (rule send_pl_loop_rounds) (use assms in simp_all)
  with assms(2,4) show ?thesis
    unfolding send_pl_def by (simp add: send_pl_loop.simps [of e _ _ _ _ k] send_pl_round_acked)
qed

definition acked_table :: ack_table where
  "acked_table = \<lparr>table_mutex = False, ack_tab = sample_uid_table\<lparr>entries := Arr (replicate 1350 1)\<rparr>\<rparr>"

lemma acked_table: "acks_ok acked_table" "ack_view acked_table 1 = 1"
  by (simp_all add: acks_ok_def acked_table_def table_ok_def sample_uid_table_def table_view_def word_le_nat_alt)

theorem send_pl_stops_at_ack_witness:
  "send_pl good_env (acks_at (\<lambda>j. if j = 0 then pl_acks sample else acked_table)) 2 sample sample_msg
    = ret (0, sample\<lparr>pl_acks := acked_table, net_out := [dgram good_env sample 2 sample_msg]\<rparr>)"
  using send_pl_stops_at_ack [of 1 "\<lambda>j. if j = 0 then pl_acks sample else acked_table" sample_msg sample 2 good_env]
    sample_link_ok acked_table
  by (simp add: THRESHOLD_def sample_msg_def acks_ok_def)

text \<open>C14: without an acknowledgement \<open>send_pl\<close> sends exactly 10 copies of the datagram, puts
  the task back at the end of the queue and returns BACK\_TO\_QUEUE: the message is not lost.\<close>

theorem send_pl_requeues:
  assumes "\<And>j. acks_ok (A j)" "\<And>j. j \<le> THRESHOLD \<Longrightarrow> ack_view (A j) (ackid m) = 0"
    and "pl_acks data = A 0" "link_ok data pid m" "\<And>n. grant e n" "\<And>n. sendto_ok e n"
    and "queue_ok (task_q data)" "length (queue_tasks (task_q data)) < 2 ^ 31"
  shows "\<exists>q. send_pl e (acks_at A) pid data m = ret (BACK_TO_QUEUE, data\<lparr>pl_acks := A 10,
      net_out := net_out data @ replicate 10 (dgram e data pid m), task_q := q\<rparr>)
    \<and> queue_ok q \<and> queue_tasks q = queue_tasks (task_q data) @ [\<lparr>pid_dest = pid, task_msg = m\<rparr>]"
proof -
  let ?d = "data\<lparr>pl_acks := A 10, net_out := net_out data @ replicate 10 (dgram e data pid m)\<rparr>"
  have "send_pl_loop e (acks_at A) pid data m 0 = send_pl_loop e (acks_at A) pid (data\<lparr>pl_acks := A (0 + 10),
        net_out := net_out data @ replicate 10 (dgram e data pid m)\<rparr>) m (0 + 10)"
    by (rule send_pl_loop_rounds) (use assms in \<open>simp_all add: THRESHOLD_def\<close>)
  moreover have "\<exists>q. send_pl_round e pid ?d m 10 = ret (Some BACK_TO_QUEUE, ?d\<lparr>task_q := q\<rparr>) \<and> queue_ok q
      \<and> queue_tasks q = queue_tasks (task_q ?d) @ [\<lparr>pid_dest = pid, task_msg = m\<rparr>]"
    by (rule send_pl_round_gives_up) (use assms in \<open>simp_all add: THRESHOLD_def\<close>)
  ultimately show ?thesis
    unfolding send_pl_def by (auto simp: send_pl_loop.simps [of e _ _ _ _ 10])
qed

theorem send_pl_requeues_witness:
  "\<exists>q. send_pl good_env (acks_at (\<lambda>_. pl_acks sample)) 2 sample sample_msg
      = ret (BACK_TO_QUEUE, sample\<lparr>pl_acks := pl_acks sample,
          net_out := replicate 10 (dgram good_env sample 2 sample_msg), task_q := q\<rparr>)
    \<and> queue_tasks q = [\<lparr>pid_dest = 2, task_msg = sample_msg\<rparr>]"
  using send_pl_requeues [of "\<lambda>_. pl_acks sample" sample_msg sample 2 good_env] sample_link_ok
  by (auto simp: acks_ok_def)

section \<open>Perfect link: delivery\<close>

lemma ack_sendable: "sendable n (ack_msg e data m)"
  by (simp add: sendable_def ack_msg_def ACK_NO_def)

end
