(* ===== verification/LcbSpec.thy ===== *)
theory LcbSpec
  imports Lcb Sample
begin

text \<open>
  What the delivery side of localized causal broadcast does: the test of a clock against
  the dependencies, the state of the pending lists, and the outcome of \<open>find_pending\<close> and
  \<open>deliver_lcb\<close> when no message is pending and when some are.
\<close>

section \<open>Invariants\<close>

text \<open>The dependencies of a process as a list of process ids.\<close>

definition dep_list :: "net_data \<Rightarrow> nat \<Rightarrow> nat list" where
  "dep_list data pid = (case deps_of (deps data) pid of Some (Ret ps) \<Rightarrow> ps | _ \<Rightarrow> [])"

text \<open>Clock and dependency matrix are in order, and name existing processes only.\<close>

definition clocks_ok :: "net_data \<Rightarrow> bool" where
  "clocks_ok data \<longleftrightarrow> num_proc data < 2 ^ 31 \<and> clock_ok (num_proc data) (vector_clock data)
     \<and> \<not> vc_mutex (vector_clock data) \<and> deps_ok (deps data)
     \<and> deps_pids (deps data) = {1..num_proc data}
     \<and> (\<forall>p \<in> {1..num_proc data}. set (dep_list data p) \<subseteq> {1..num_proc data})"

text \<open>The condition the algorithm asks for before a message is delivered.\<close>

definition deliverable :: "net_data \<Rightarrow> vec_clock \<Rightarrow> nat \<Rightarrow> bool" where
  "deliverable data vec pid \<longleftrightarrow>
     (\<forall>d \<in> set (dep_list data pid). clock_val vec (d - 1) \<le> clock_val (vector_clock data) (d - 1))"

text \<open>The pending lists: list \<open>i\<close> holds the nodes \<open>ass ! i\<close>.\<close>

definition pending_ok :: "nat \<Rightarrow> lcb_pending \<Rightarrow> nat list list \<Rightarrow> bool" where
  "pending_ok n p ass \<longleftrightarrow> lcb_num_proc p = n \<and> length ass = n
     \<and> (case lists p of Arr ls \<Rightarrow> length ls = n
          \<and> (\<forall>i < n. veclist_ok (nodes (node_mem p)) (ls ! i) (ass ! i)) | _ \<Rightarrow> False)
     \<and> distinct (concat ass)
     \<and> (\<forall>b. next_addr (node_mem p) \<le> b \<longrightarrow> nodes (node_mem p) b = None)
     \<and> (\<forall>a \<in> set (concat ass). clock_ok n (clock_at (nodes (node_mem p)) a))"

lemma pending_okE:
  assumes "pending_ok n p ass"
  obtains ls where "lists p = Arr ls" "length ls = n" "lcb_num_proc p = n" "length ass = n"
    "\<And>i. i < n \<Longrightarrow> veclist_ok (nodes (node_mem p)) (ls ! i) (ass ! i)"
    "\<And>b. next_addr (node_mem p) \<le> b \<Longrightarrow> nodes (node_mem p) b = None"
    "distinct (concat ass)"
    "\<And>a. a \<in> set (concat ass) \<Longrightarrow> clock_ok n (clock_at (nodes (node_mem p)) a)"
  using assms by (auto simp: pending_ok_def split: ptr.splits)

text \<open>
  The broadcast messages waiting at a process: for each sender the received clocks, in
  order of arrival.
\<close>

definition waiting :: "lcb_pending \<Rightarrow> nat list list \<Rightarrow> vec_clock list list" where
  "waiting p ass = map (map (clock_at (nodes (node_mem p)))) ass"

section \<open>Small facts about the state\<close>

lemma unlock_clock:
  "\<not> vc_mutex (vector_clock data) \<Longrightarrow>
   data\<lparr>vector_clock := (vector_clock data)\<lparr>vc_mutex := False\<rparr>\<rparr> = data"
  by (cases data; cases "vector_clock data") simp

lemma row_of_pid:
  assumes "deps_ok (deps data)" "1 \<le> pid" "pid \<in> deps_pids (deps data)"
  obtains row where "get_dependencies (deps data) pid = Some (pid - 1)"
    "dep_row (deps data) (pid - 1) = ret row" "row_ok row" "row_pids row = dep_list data pid"
proof -
  from assms(1) obtain m rows where m: "deps data = Some m" "dep_lists m = Arr rows"
    "length rows = dep_num_proc m" "list_all row_ok rows" by (rule deps_okE)
  from assms(3) m(1) have p: "pid \<le> dep_num_proc m" by (simp add: deps_pids_def)
  note r = row_in_range(1,2) [OF m(1-3) assms(2) p]
  have "row_ok (rows ! (pid - 1))" using m(3,4) p assms(2) by (simp add: list_all_length)
  moreover have "row_pids (rows ! (pid - 1)) = dep_list data pid"
    using r by (simp add: dep_list_def deps_of_def)
  ultimately show thesis using r that by blast
qed

lemma unat_pid: "n < 2 ^ 32 \<Longrightarrow> 0 < n \<Longrightarrow> unat (of_nat n - 1 :: u32) = n - 1"
  by (simp add: unat_sub_u32 unat_of_nat_u32)

lemma test_deps_spec:
  assumes "i + k \<le> length ps" "length v = n" "length w = n" "n < 2 ^ 32"
    "set (take k (drop i ps)) \<subseteq> {1..n}"
  shows "test_deps (Arr ps) (Arr v) (Arr w) i k b
    = ret (if \<forall>d \<in> set (take k (drop i ps)). v ! (d - 1) \<le> w ! (d - 1) then b else 0)"
  using assms(1,5)
proof (induction k arbitrary: i b)
  case 0
  then show ?case by simp
next
  case (Suc k)
  then have split: "take (Suc k) (drop i ps) = ps ! i # take k (drop (i + 1) ps)"
    by (simp add: Cons_nth_drop_Suc [symmetric])
  with Suc.prems have p: "1 \<le> ps ! i" "ps ! i \<le> n" and rest: "set (take k (drop (i + 1) ps)) \<subseteq> {1..n}"
    by auto
  then have u: "unat (of_nat (ps ! i) - 1 :: u32) = ps ! i - 1"
    using assms(4) by (intro unat_pid) auto
  have "ps ! i - 1 < n" using p by simp
  with u split Suc.prems(1) Suc.IH [OF _ rest] assms(2,3) show ?case
    by (auto simp: Let_def)
qed

lemma test_vec_clock_spec:
  assumes data: "clocks_ok data" and v: "clock_ok (num_proc data) vec"
    and pid: "1 \<le> unat pid" "unat pid \<le> num_proc data"
  shows "test_vec_clock data vec pid = ret (if deliverable data vec (unat pid) then 1 else 0, data)"
proof -
  from data have n: "num_proc data < 2 ^ 32" and u: "\<not> vc_mutex (vector_clock data)"
    and d: "deps_ok (deps data)" "unat pid \<in> deps_pids (deps data)"
    and sub: "set (dep_list data (unat pid)) \<subseteq> {1..num_proc data}"
    using pid by (auto simp: clocks_ok_def)
  from data obtain w where w: "vector (vector_clock data) = Arr w" "length w = num_proc data"
    by (auto simp: clocks_ok_def elim: clock_okE)
  from v obtain x where x: "vector vec = Arr x" "length x = num_proc data" by (rule clock_okE)
  from row_of_pid [OF d(1) pid(1) d(2)] obtain row where
    row: "get_dependencies (deps data) (unat pid) = Some (unat pid - 1)"
      "dep_row (deps data) (unat pid - 1) = ret row" "row_ok row" "row_pids row = dep_list data (unat pid)"
    by blast
  have "test_deps (pid_list row) (Arr x) (Arr w) 0 (list_len row) 1
      = ret (if \<forall>d \<in> set (row_pids row). x ! (d - 1) \<le> w ! (d - 1) then 1 else 0)"
  proof (cases "pid_list row")
    case Null
    with row(3) show ?thesis by (simp add: row_ok_def row_pids_def)
  next
    case Wild
    with row(3) show ?thesis by (simp add: row_ok_def)
  next
    case (Arr ps)
    with row(3,4) sub test_deps_spec [of 0 "list_len row" ps x "num_proc data" w 1] x w n
    show ?thesis by (simp add: row_ok_def row_pids_def)
  qed
  moreover have "(\<forall>d \<in> set (row_pids row). x ! (d - 1) \<le> w ! (d - 1)) \<longleftrightarrow> deliverable data vec (unat pid)"
    using sub row(4) x w by (force simp: deliverable_def clock_val_def)
  ultimately show ?thesis
    using u row(1,2) x w unlock_clock [OF u] by (simp add: test_vec_clock_def)
qed

lemma update_vec_clock_spec:
  assumes data: "clocks_ok data" and pid: "1 \<le> unat pid" "unat pid \<le> num_proc data"
  shows "\<exists>c. update_vec_clock data pid = ret (0, Some (clock_val (vector_clock data) (unat pid - 1) + 1),
       data\<lparr>vector_clock := c\<rparr>) \<and> clocks_ok (data\<lparr>vector_clock := c\<rparr>)
     \<and> clock_val c = (clock_val (vector_clock data))
         (unat pid - 1 := clock_val (vector_clock data) (unat pid - 1) + 1)"
proof -
  from data obtain w where w: "vector (vector_clock data) = Arr w" "length w = num_proc data"
    by (auto simp: clocks_ok_def elim: clock_okE)
  have u: "unat (pid - 1) = unat pid - 1" using pid by (simp add: unat_sub_u32)
  have i: "unat pid - 1 < num_proc data" using pid by simp
  let ?c = "(vector_clock data)\<lparr>vector := Arr (w[unat pid - 1 := w ! (unat pid - 1) + 1]), vc_mutex := False\<rparr>"
  have "update_vec_clock data pid = ret (0, Some (clock_val (vector_clock data) (unat pid - 1) + 1),
       data\<lparr>vector_clock := ?c\<rparr>)"
    using data pid w u i by (simp add: update_vec_clock_def clocks_ok_def clock_val_def)
  moreover have "clocks_ok (data\<lparr>vector_clock := ?c\<rparr>)"
    using data w by (simp add: clocks_ok_def clock_ok_def dep_list_def)
  moreover have "clock_val ?c = (clock_val (vector_clock data))
         (unat pid - 1 := clock_val (vector_clock data) (unat pid - 1) + 1)"
    using pid w by (auto simp: clock_val_def fun_eq_iff nth_list_update)
  ultimately show ?thesis by blast
qed

section \<open>Searching an empty or a non-empty pending structure\<close>

lemma find_in_lists_empty:
  assumes "lists (pending_lcb data) = Arr ls" "i + k \<le> length ls"
    "\<And>j. i \<le> j \<Longrightarrow> j < i + k \<Longrightarrow> list_head (ls ! j) = None"
  shows "find_in_lists e i k found data = ret (found, data)"
  using assms(2,3)
proof (induction k arbitrary: i)
  case 0
  then show ?case by simp
next
  case (Suc k)
  then have "list_head (ls ! i) = None" by simp
  then have "find_in_list e i (list_head (ls ! i)) found data = ret (0, found, data)"
    by (subst find_in_list.simps) simp
  with Suc assms(1) show ?case by simp
qed

lemma veclist_head: "veclist_ok h l as \<Longrightarrow> list_head l = (if as = [] then None else Some (hd as))"
  by (auto simp: veclist_ok_def dest: seg_first)

lemma find_pending_empty:
  assumes "pending_ok n (pending_lcb data) ass" "concat ass = []"
  shows "find_pending e data = ret (0, data)"
proof -
  from assms(1) obtain ls where ls: "lists (pending_lcb data) = Arr ls" "length ls = n"
    "lcb_num_proc (pending_lcb data) = n" "length ass = n"
    "\<And>i. i < n \<Longrightarrow> veclist_ok (nodes (node_mem (pending_lcb data))) (ls ! i) (ass ! i)"
    by (rule pending_okE) blast
  have "list_head (ls ! j) = None" if "j < n" for j
  proof -
    from that assms(2) ls(4) have "ass ! j = []" by (auto simp: concat_eq_Nil_conv)
    with veclist_head [OF ls(5) [OF that]] show ?thesis by simp
  qed
  then show ?thesis
    unfolding find_pending_def using find_in_lists_empty [OF ls(1), of 0 n e 0] ls(2,3) by simp
qed

text \<open>A message that cannot be delivered is tested for ever.\<close>

lemma find_in_list_stuck:
  assumes "node_get (node_mem (pending_lcb data)) (Some a) = ret nd"
    and "test_vec_clock data (node_clock nd) (of_nat (i + 1)) = ret (0, data)"
  shows "find_in_list e i (Some a) found data = hang"
proof (rule ccontr)
  assume "\<not> ?thesis"
  then obtain r where r: "find_in_list e i (Some a) found data = Some r" by auto
  have "\<not> (e' = e \<and> i' = i \<and> ptr = Some a \<and> data' = data)"
    if "find_in_list e' i' ptr found' data' = Some r" for e' i' ptr found' data' r
  proof (rule find_in_list.raw_induct [where P = "\<lambda>e' i' ptr found' data' r.
        \<not> (e' = e \<and> i' = i \<and> ptr = Some a \<and> data' = data)", OF _ that], goal_cases)
    case (1 f e' i' ptr found' data' r)
    show ?case
    proof
      assume eq: "e' = e \<and> i' = i \<and> ptr = Some a \<and> data' = data"
      with 1(2) assms have "f e' i' ptr found' data' = Some r" by simp
      with 1(1) eq show False by blast
    qed
  qed
  with r show False by blast
qed

lemma node_of_list:
  assumes p: "pending_ok n p ass" and i: "i < n" and a: "ass ! i = a # as"
  obtains nd where "nodes (node_mem p) a = Some nd" "clock_ok n (node_clock nd)"
    "node_next nd = (if as = [] then None else Some (hd as))"
    "clock_at (nodes (node_mem p)) a = node_clock nd"
proof -
  from p obtain ls where ls: "lists p = Arr ls" "length ass = n"
    "\<And>i. i < n \<Longrightarrow> veclist_ok (nodes (node_mem p)) (ls ! i) (ass ! i)"
    "\<And>a. a \<in> set (concat ass) \<Longrightarrow> clock_ok n (clock_at (nodes (node_mem p)) a)"
    by (rule pending_okE) blast
  from ls(3) [OF i] a obtain nd where nd: "nodes (node_mem p) a = Some nd"
    "seg (nodes (node_mem p)) (Some a) (node_next nd) as (list_tail (ls ! i)) None"
    by (auto simp: veclist_ok_def split: option.splits)
  have "a \<in> set (concat ass)" using a i ls(2) by (auto intro: nth_mem bexI [of _ "ass ! i"])
  from ls(4) [OF this] nd(1) have "clock_ok n (node_clock nd)" by (simp add: clock_at_def)
  with nd seg_first [OF nd(2)] show thesis by (intro that [of nd]) (auto simp: clock_at_def)
qed

lemma write_log_code: "write_log e l line k = ret (r, l') \<Longrightarrow> r = 0 \<or> r = err ERROR_IO"
  by (auto simp: write_log_def write_to_file_def bnd_eq_ret Let_def split: if_splits option.splits prod.splits)

lemma log_deliver_lcb_code:
  assumes "log_deliver_lcb e data pid seq = ret (r, data')"
  shows "(r = 0 \<or> r = err ERROR_IO) \<and> (\<exists>l. data' = data\<lparr>logdata := l\<rparr>)"
  using assms
  by (auto simp: log_deliver_lcb_def log_deliver_def bnd_eq_ret Let_def
      split: if_splits prod.splits dest!: write_log_code)

lemma remove_pending_null:
  assumes "lists (pending_lcb data) = Arr ls" "i < length ls"
  shows "\<exists>data'. remove_pending data i None = ret (err ERROR_POINTER, data')"
  using assms by (simp add: remove_pending_def remove_null Let_def)

text \<open>
  A deliverable message at the head of a list: it is delivered and logged, then the node
  after it is removed in its place; with no node after it the call fails, otherwise the
  loop goes on at the node just freed.
\<close>

lemma find_in_list_head:
  assumes data: "clocks_ok data" and p: "pending_ok (num_proc data) (pending_lcb data) ass"
    and i: "i < num_proc data" and a: "ass ! i = a # as"
    and del: "deliverable data (clock_at (nodes (node_mem (pending_lcb data))) a) (i + 1)"
  shows "\<exists>s data1. clocks_ok data1 \<and> (\<exists>c. data1 = data\<lparr>vector_clock := c\<rparr>
        \<and> clock_val c = (clock_val (vector_clock data))(i := clock_val (vector_clock data) i + 1))
    \<and> s = clock_val (vector_clock data) i + 1
    \<and> find_in_list e i (Some a) found data
      = bnd (log_deliver_lcb e data1 (of_nat (i + 1)) s) (\<lambda>(r, data2).
          if r \<noteq> 0 then ret (r, 1, data2)
          else if as = [] then ret (err ERROR_POINTER, 1, data2)
          else ub)"
proof -
  from data have n: "num_proc data < 2 ^ 31" by (simp add: clocks_ok_def)
  with i have pid: "unat (of_nat (i + 1) :: u32) = i + 1" by (intro unat_of_nat_u32) simp
  with i have pid': "1 \<le> unat (of_nat (i + 1) :: u32)" "unat (of_nat (i + 1) :: u32) \<le> num_proc data"
    by simp_all
  from node_of_list [OF p i a] obtain nd where nd: "nodes (node_mem (pending_lcb data)) a = Some nd"
    "clock_ok (num_proc data) (node_clock nd)"
    "node_next nd = (if as = [] then None else Some (hd as))"
    "clock_at (nodes (node_mem (pending_lcb data))) a = node_clock nd" by blast
  have test: "test_vec_clock data (node_clock nd) (of_nat (i + 1)) = ret (1, data)"
    using test_vec_clock_spec [OF data nd(2) pid'] del nd(4) pid by simp
  from update_vec_clock_spec [OF data pid'] pid obtain c where
    upd: "update_vec_clock data (of_nat (i + 1)) = ret (0, Some (clock_val (vector_clock data) i + 1),
       data\<lparr>vector_clock := c\<rparr>)" and ok1: "clocks_ok (data\<lparr>vector_clock := c\<rparr>)"
    and val: "clock_val c = (clock_val (vector_clock data))(i := clock_val (vector_clock data) i + 1)" by auto
  let ?d1 = "data\<lparr>vector_clock := c\<rparr>" and ?s = "clock_val (vector_clock data) i + 1"
  have rest: "bnd (node_get (node_mem (pending_lcb d2)) (Some a)) (\<lambda>nd.
        bnd (remove_pending d2 i (node_next nd)) (\<lambda>(r, data).
        if r \<noteq> 0 then ret (r, 1, data) else find_in_list e i (node_next nd) 1 data))
      = (if as = [] then ret (err ERROR_POINTER, 1, d2) else ub)"
    if "pending_lcb d2 = pending_lcb data" for d2
  proof -
    from p obtain ls where ls: "lists (pending_lcb data) = Arr ls" "length ls = num_proc data"
      "\<And>i. i < num_proc data \<Longrightarrow> veclist_ok (nodes (node_mem (pending_lcb data))) (ls ! i) (ass ! i)"
      by (rule pending_okE) blast
    show ?thesis
    proof (cases as)
      case Nil
      have "d2\<lparr>pending_lcb := (pending_lcb data)\<lparr>lists := Arr (ls[i := ls ! i]), node_mem := node_mem (pending_lcb data)\<rparr>\<rparr> = d2"
        using that ls(1) by (cases d2; cases "pending_lcb data") simp
      then show ?thesis using Nil nd that ls(1,2) i
        by (simp add: node_get_def remove_pending_def remove_null Let_def)
    next
      case (Cons b bs)
      with ls(3) [OF i] a have "veclist_ok (nodes (node_mem (pending_lcb data))) (ls ! i) ([a] @ b # bs)"
        by simp
      from remove_veclist_ok [OF this] obtain l' h' where
        "remove_veclist (Some b) (ls ! i) (node_mem (pending_lcb data)) = ret (0, l', h')"
        "nodes h' b = None" by blast
      moreover have "find_in_list e i (Some b) 1 d3 = ub" if "nodes (node_mem (pending_lcb d3)) b = None" for d3
        using that by (subst find_in_list.simps) (simp add: node_get_def)
      ultimately show ?thesis using Cons nd that ls(1,2) i
        by (simp add: node_get_def remove_pending_def Let_def)
    qed
  qed
  have "find_in_list e i (Some a) found data
      = bnd (log_deliver_lcb e ?d1 (of_nat (i + 1)) ?s) (\<lambda>(r, d2).
          if r \<noteq> 0 then ret (r, 1, d2)
          else bnd (node_get (node_mem (pending_lcb d2)) (Some a)) (\<lambda>nd.
        bnd (remove_pending d2 i (node_next nd)) (\<lambda>(r, data).
        if r \<noteq> 0 then ret (r, 1, data) else find_in_list e i (node_next nd) 1 data)))"
    using nd(1) test upd by (subst find_in_list.simps) (simp add: node_get_def)
  also have "\<dots> = bnd (log_deliver_lcb e ?d1 (of_nat (i + 1)) ?s) (\<lambda>(r, d2).
          if r \<noteq> 0 then ret (r, 1, d2)
          else if as = [] then ret (err ERROR_POINTER, 1, d2) else ub)"
  proof (rule bnd_cong [OF refl], clarify)
    fix r d2 assume "log_deliver_lcb e ?d1 (of_nat (i + 1)) ?s = ret (r, d2)"
    from log_deliver_lcb_code [OF this] have "pending_lcb d2 = pending_lcb data" by auto
    from rest [OF this] show "(if r \<noteq> 0 then ret (r, 1, d2)
          else bnd (node_get (node_mem (pending_lcb d2)) (Some a)) (\<lambda>nd.
        bnd (remove_pending d2 i (node_next nd)) (\<lambda>(r, data).
        if r \<noteq> 0 then ret (r, 1, data) else find_in_list e i (node_next nd) 1 data)))
      = (if r \<noteq> 0 then ret (r, 1, d2) else if as = [] then ret (err ERROR_POINTER, 1, d2) else ub)"
      by simp
  qed
  finally show ?thesis using ok1 val by blast
qed

lemma find_in_list_nonempty:
  assumes data: "clocks_ok data" and p: "pending_ok (num_proc data) (pending_lcb data) ass"
    and i: "i < num_proc data" and a: "ass ! i = a # as"
    and run: "find_in_list e i (Some a) found data = ret (r, f, data')"
  shows "r < 0"
proof (cases "deliverable data (clock_at (nodes (node_mem (pending_lcb data))) a) (i + 1)")
  case True
  from find_in_list_head [OF data p i a True, of e found] run obtain s data1 where
    "bnd (log_deliver_lcb e data1 (of_nat (i + 1)) s) (\<lambda>(r, data2).
          if r \<noteq> 0 then ret (r, 1, data2)
          else if as = [] then ret (err ERROR_POINTER, 1, data2) else ub) = ret (r, f, data')" by auto
  then show ?thesis
    using log_deliver_lcb_code by (fastforce simp: bnd_eq_ret split: if_splits prod.splits)
next
  case False
  from node_of_list [OF p i a] obtain nd where nd: "nodes (node_mem (pending_lcb data)) a = Some nd"
    "clock_ok (num_proc data) (node_clock nd)"
    "clock_at (nodes (node_mem (pending_lcb data))) a = node_clock nd" by blast
  from data have "num_proc data < 2 ^ 31" by (simp add: clocks_ok_def)
  with i have pid: "unat (of_nat (i + 1) :: u32) = i + 1" by (intro unat_of_nat_u32) simp
  have "test_vec_clock data (node_clock nd) (of_nat (i + 1)) = ret (0, data)"
    using test_vec_clock_spec [OF data nd(2), of "of_nat (i + 1)"] False nd(3) pid i by simp
  with find_in_list_stuck [of data a nd i e found] nd(1) run show ?thesis
    by (simp add: node_get_def)
qed

section \<open>find\_pending\<close>

lemma find_in_lists_skip:
  assumes "lists (pending_lcb data) = Arr ls" "i + k \<le> length ls"
    "\<And>j. i \<le> j \<Longrightarrow> j < i + k \<Longrightarrow> list_head (ls ! j) = None"
  shows "find_in_lists e i (k + m) found data = find_in_lists e (i + k) m found data"
  using assms(2,3)
proof (induction k arbitrary: i)
  case 0
  then show ?case by simp
next
  case (Suc k)
  then have "list_head (ls ! i) = None" by simp
  then have "find_in_list e i (list_head (ls ! i)) found data = ret (0, found, data)"
    by (subst find_in_list.simps) simp
  with Suc assms(1) show ?case by simp
qed

text \<open>The first list that is not empty decides.\<close>

lemma find_pending_first:
  assumes p: "pending_ok n (pending_lcb data) ass" and i: "i < n" and a: "ass ! i = a # as"
    and before: "\<And>j. j < i \<Longrightarrow> ass ! j = []"
  shows "find_pending e data = bnd (find_in_list e i (Some a) 0 data) (\<lambda>(r, found, data').
    if r \<noteq> 0 then ret (r, data') else find_in_lists e (i + 1) (n - i - 1) found data')"
proof -
  from p obtain ls where ls: "lists (pending_lcb data) = Arr ls" "length ls = n"
    "lcb_num_proc (pending_lcb data) = n"
    "\<And>i. i < n \<Longrightarrow> veclist_ok (nodes (node_mem (pending_lcb data))) (ls ! i) (ass ! i)"
    by (rule pending_okE) blast
  have "list_head (ls ! j) = None" if "j < i" for j
    using veclist_head [OF ls(4), of j] before [OF that] that i by simp
  moreover from i obtain m where m: "n = i + Suc m" using less_imp_Suc_add by fastforce
  ultimately have "find_in_lists e 0 (i + Suc m) 0 data = find_in_lists e (0 + i) (Suc m) 0 data"
    using ls(1,2) i by (intro find_in_lists_skip) auto
  then have "find_pending e data = find_in_lists e i (Suc m) 0 data"
    unfolding find_pending_def ls(3) m by simp
  moreover have "list_head (ls ! i) = Some a" using veclist_head [OF ls(4) [OF i]] a by simp
  moreover have nm: "n - i - 1 = m" using m by simp
  ultimately show ?thesis unfolding nm using ls(1,2) i by simp
qed

lemma first_nonempty:
  assumes "concat ass \<noteq> []"
  obtains i a as where "i < length ass" "ass ! i = a # as" "\<And>j. j < i \<Longrightarrow> ass ! j = []"
proof -
  let ?P = "\<lambda>i. i < length ass \<and> ass ! i \<noteq> []"
  from assms have "\<exists>i. ?P i" by (auto simp: in_set_conv_nth)
  then have L: "?P (LEAST i. ?P i)" by (rule LeastI_ex)
  then obtain a as where "ass ! (LEAST i. ?P i) = a # as" by (meson neq_Nil_conv)
  moreover have "ass ! j = []" if "j < (LEAST i. ?P i)" for j
    using not_less_Least [OF that] L that by auto
  ultimately show thesis using that L by blast
qed

lemma find_pending_nonempty:
  assumes data: "clocks_ok data" and p: "pending_ok (num_proc data) (pending_lcb data) ass"
    and ne: "concat ass \<noteq> []" and run: "find_pending e data = ret (r, data')"
  shows "r < 0"
proof -
  from p have len: "length ass = num_proc data" by (rule pending_okE)
  from first_nonempty [OF ne] obtain i a as where
    i: "i < num_proc data" "ass ! i = a # as" "\<And>j. j < i \<Longrightarrow> ass ! j = []" using len by metis
  note eq = trans [OF find_pending_first [OF p i(1,2,3), symmetric] run]
  from eq obtain r1 f d1 where
    r1: "find_in_list e i (Some a) 0 data = ret (r1, f, d1)"
      "(if r1 \<noteq> 0 then ret (r1, d1) else find_in_lists e (i + 1) (num_proc data - i - 1) f d1) = ret (r, data')"
    by (auto simp: bnd_eq_ret)
  with find_in_list_nonempty [OF data p i(1,2) r1(1)] show ?thesis by (auto split: if_splits)
qed

lemma find_pending_all_unfold:
  "find_pending_all e data =
     bnd (find_pending e data) (\<lambda>(r, data). if 0 < r then find_pending_all e data else ret (r, data))"
  by (rule find_pending_all.simps)

lemma find_pending_all_empty:
  assumes "pending_ok n (pending_lcb data) ass" "concat ass = []"
  shows "find_pending_all e data = ret (0, data)"
  using find_pending_empty [OF assms] by (simp add: find_pending_all_unfold)

lemma find_pending_all_nonempty:
  assumes "clocks_ok data" "pending_ok (num_proc data) (pending_lcb data) ass" "concat ass \<noteq> []"
    and "find_pending_all e data = ret (r, data')"
  shows "r < 0"
proof -
  from assms(4) obtain r1 d1 where r1: "find_pending e data = ret (r1, d1)"
    "(if 0 < r1 then find_pending_all e d1 else ret (r1, d1)) = ret (r, data')"
    by (subst (asm) find_pending_all_unfold) (auto simp: bnd_eq_ret)
  with find_pending_nonempty [OF assms(1-3) r1(1)] show ?thesis by auto
qed

section \<open>Adding a pending message\<close>

text \<open>A clock as it arrives in a message: one entry per process, and the right length field.\<close>

definition clock_full :: "nat \<Rightarrow> vec_clock \<Rightarrow> bool" where
  "clock_full n c \<longleftrightarrow> clock_ok n c \<and> unat (vc_num_proc c) = n"

lemma concat_update:
  assumes "i < length ass"
  shows "set (concat (ass[i := ass ! i @ [x]])) = insert x (set (concat ass))"
    and "x \<notin> set (concat ass) \<Longrightarrow> distinct (concat ass) \<Longrightarrow> distinct (concat (ass[i := ass ! i @ [x]]))"
proof -
  have c: "concat ass = concat (take i ass) @ ass ! i @ concat (drop (Suc i) ass)"
    by (subst (1) id_take_nth_drop [OF assms]) simp
  have u: "concat (ass[i := ass ! i @ [x]]) = concat (take i ass) @ (ass ! i @ [x]) @ concat (drop (Suc i) ass)"
    using assms by (simp add: upd_conv_take_nth_drop)
  show "set (concat (ass[i := ass ! i @ [x]])) = insert x (set (concat ass))"
    unfolding u by (subst c) auto
  show "distinct (concat (ass[i := ass ! i @ [x]]))" if "x \<notin> set (concat ass)" "distinct (concat ass)"
    using that unfolding u by (subst (asm) c, subst (asm) (2) c) auto
qed

lemma disjoint_lists:
  assumes "distinct (concat ass)" "i < length ass" "j < length ass" "i \<noteq> j"
  shows "set (ass ! i) \<inter> set (ass ! j) = {}"
  using assms
proof (induction ass arbitrary: i j)
  case (Cons x ass)
  show ?case
  proof (cases i)
    case 0
    with Cons.prems obtain j' where "j = Suc j'" "j' < length ass" by (cases j) auto
    with 0 Cons.prems show ?thesis by (force dest: nth_mem)
  next
    case (Suc i')
    show ?thesis
    proof (cases j)
      case 0
      with Suc Cons.prems show ?thesis by (force dest: nth_mem)
    next
      case (Suc j')
      with \<open>i = Suc i'\<close> Cons show ?thesis by auto
    qed
  qed
qed simp

lemma add_pending_spec:
  assumes p: "pending_ok n p ass" and n: "n < 2 ^ 31"
    and pid: "1 \<le> unat pid" "unat pid \<le> n" and c: "clock_full n clocky"
    and grants: "grant e sizeof_node" "grant e (n * 4)"
  shows "\<exists>p' ass'. add_pending_lcb e p pid clocky = ret (0, p') \<and> pending_ok n p' ass'
    \<and> ass' = ass[unat pid - 1 := ass ! (unat pid - 1) @ [next_addr (node_mem p)]]
    \<and> vector (clock_at (nodes (node_mem p')) (next_addr (node_mem p))) = vector clocky
    \<and> (\<forall>a \<in> set (concat ass). clock_at (nodes (node_mem p')) a = clock_at (nodes (node_mem p)) a)"
proof -
  from p obtain ls where ls: "lists p = Arr ls" "length ls = n" "lcb_num_proc p = n" "length ass = n"
    and vl: "\<And>i. i < n \<Longrightarrow> veclist_ok (nodes (node_mem p)) (ls ! i) (ass ! i)"
    and fresh: "\<And>b. next_addr (node_mem p) \<le> b \<Longrightarrow> nodes (node_mem p) b = None"
    and dist: "distinct (concat ass)"
    and cl: "\<And>a. a \<in> set (concat ass) \<Longrightarrow> clock_ok n (clock_at (nodes (node_mem p)) a)"
    by (rule pending_okE) blast
  let ?i = "unat pid - 1" and ?x = "next_addr (node_mem p)"
  have u: "unat (pid - 1) = ?i" using pid by (simp add: unat_sub_u32)
  have i: "?i < n" using pid by simp
  from c obtain xs where xs: "vector clocky = Arr xs" "length xs = n" "unat (vc_num_proc clocky) = n"
    by (auto simp: clock_full_def elim: clock_okE)
  from add_veclist_ok [OF vl [OF i] fresh xs(1), of e] xs grants obtain l' h' where
    run: "add_veclist e clocky (ls ! ?i) (node_mem p) = ret (0, l', h')"
    and l': "veclist_ok (nodes h') l' (ass ! ?i @ [?x])"
    and x': "vector (clock_at (nodes h') ?x) = Arr xs" "next_addr h' = ?x + 1"
    and fr: "\<And>b. b \<noteq> ?x \<Longrightarrow> b \<notin> set (ass ! ?i) \<Longrightarrow> nodes h' b = nodes (node_mem p) b"
    and ca: "\<And>b. b \<in> set (ass ! ?i) \<Longrightarrow> clock_at (nodes h') b = clock_at (nodes (node_mem p)) b"
    by auto
  let ?ass = "ass[?i := ass ! ?i @ [?x]]" and ?p' = "p\<lparr>lists := Arr (ls[?i := l']), node_mem := h'\<rparr>"
  have xnew: "?x \<notin> set (concat ass)"
  proof
    assume "?x \<in> set (concat ass)"
    then obtain bs where "bs \<in> set ass" "?x \<in> set bs" by auto
    with ls(4) obtain j where j: "j < n" "?x \<in> set (ass ! j)" by (metis in_set_conv_nth)
    from vl [OF j(1)] j(2) have "\<exists>nd. nodes (node_mem p) ?x = Some nd"
      by (auto simp: veclist_ok_def intro: seg_alloc)
    with fresh [of ?x] show False by simp
  qed
  have ca': "clock_at (nodes h') a = clock_at (nodes (node_mem p)) a" if "a \<in> set (concat ass)" for a
  proof (cases "a \<in> set (ass ! ?i)")
    case False
    with that xnew have "nodes h' a = nodes (node_mem p) a" by (intro fr) auto
    then show ?thesis by (rule clock_at_frame)
  qed (rule ca)
  have vl': "veclist_ok (nodes h') (ls[?i := l'] ! j) (?ass ! j)" if j: "j < n" for j
  proof (cases "j = ?i")
    case True
    with l' i ls(2,4) show ?thesis by simp
  next
    case False
    have "nodes h' a = nodes (node_mem p) a" if "a \<in> set (ass ! j)" for a
    proof (rule fr)
      have "a \<in> set (concat ass)" using that j ls(4) nth_mem [of j ass] by auto
      with xnew show "a \<noteq> ?x" by auto
      show "a \<notin> set (ass ! ?i)" using disjoint_lists [OF dist, of j ?i] that j i ls(4) False by auto
    qed
    from veclist_frame [OF vl [OF j] this] False show ?thesis by simp
  qed
  have "nodes h' b = None" if "?x + 1 \<le> b" for b
  proof -
    have "b \<notin> set (ass ! ?i)"
    proof
      assume "b \<in> set (ass ! ?i)"
      with vl [OF i] have "\<exists>nd. nodes (node_mem p) b = Some nd" by (auto simp: veclist_ok_def intro: seg_alloc)
      with fresh [of b] that show False by simp
    qed
    with fr [of b] fresh [of b] that show ?thesis by simp
  qed
  moreover have "clock_ok n (clock_at (nodes h') a)" if "a \<in> set (concat ?ass)" for a
  proof -
    have "?i < length ass" using i ls(4) by simp
    from that [unfolded concat_update(1) [OF this]] consider "a = ?x" | "a \<in> set (concat ass)" by blast
    then show ?thesis
    proof cases
      case 1
      with x'(1) xs(2) show ?thesis by (simp add: clock_ok_def)
    next
      case 2
      with ca' cl show ?thesis by simp
    qed
  qed
  ultimately have "pending_ok n ?p' ?ass"
    using vl' ls i xnew dist concat_update(2) [of ?i ass ?x] x'(2)
    by (simp add: pending_ok_def)
  moreover have "add_pending_lcb e p pid clocky = ret (0, ?p')"
    using ls i u pid run by (simp add: add_pending_lcb_def Let_def)
  ultimately show ?thesis using x'(1) xs(1) ca' by auto
qed

text \<open>A successful call has been granted its two allocations.\<close>

lemma add_pending_grants:
  assumes p: "pending_ok n p ass" and pid: "1 \<le> unat pid" "unat pid \<le> n" and c: "clock_full n clocky"
    and run: "add_pending_lcb e p pid clocky = ret (0, p')"
  shows "grant e sizeof_node \<and> grant e (n * 4)"
proof -
  from p obtain ls where ls: "lists p = Arr ls" "length ls = n" "lcb_num_proc p = n"
    by (rule pending_okE) blast
  from c obtain xs where xs: "vector clocky = Arr xs" "length xs = n" "unat (vc_num_proc clocky) = n"
    by (auto simp: clock_full_def elim: clock_okE)
  have "unat (pid - 1) < n" using pid by (simp add: unat_sub_u32)
  with ls pid run obtain l' h' where
    "add_veclist e clocky (ls ! unat (pid - 1)) (node_mem p) = ret (0, l', h')"
    by (auto simp: add_pending_lcb_def bnd_eq_ret Let_def split: if_splits prod.splits)
  with xs show ?thesis
    by (auto simp: add_veclist_def alloc_vector_Arr node_alloc_def node_get_def bnd_eq_ret Let_def
        split: if_splits)
qed

section \<open>deliver\_lcb\<close>

definition lcb_ok :: "net_data \<Rightarrow> nat list list \<Rightarrow> bool" where
  "lcb_ok data ass \<longleftrightarrow> clocks_ok data \<and> pending_ok (num_proc data) (pending_lcb data) ass
     \<and> log_ok (logdata data) \<and> LINE_MAX_LENGTH \<le> buf_max_size (logdata data)"

lemma dep_list_range:
  assumes "lcb_ok data ass" "p \<in> {1..num_proc data}" "k \<in> set (dep_list data p)"
  shows "k \<in> {1..num_proc data}"
proof -
  have "\<forall>p \<in> {1..num_proc data}. set (dep_list data p) \<subseteq> {1..num_proc data}"
    using assms(1) unfolding lcb_ok_def clocks_ok_def by (elim conjE)
  with assms(2,3) show ?thesis by blast
qed

text \<open>A message of an existing process with a clock of the right length.\<close>

definition lcb_msg_ok :: "net_data \<Rightarrow> lcb_msg \<Rightarrow> bool" where
  "lcb_msg_ok data m \<longleftrightarrow> clock_full (num_proc data) (lcb_clock m)
     \<and> 1 \<le> unat (lcb_original_sender m) \<and> unat (lcb_original_sender m) \<le> num_proc data"

abbreviation delivered_count :: "net_data \<Rightarrow> u32 \<Rightarrow> u32" where
  "delivered_count data pid \<equiv> clock_val (vector_clock data) (unat pid - 1)"

lemma log_deliver_lcb_ok:
  assumes "log_ok (logdata data)" "LINE_MAX_LENGTH \<le> buf_max_size (logdata data)"
    "event_fits (Deliver pid seq)" "\<And>n. fwritten e n = n"
  shows "\<exists>l. log_deliver_lcb e data pid seq = ret (0, data\<lparr>logdata := l\<rparr>) \<and> log_ok l
    \<and> buf_max_size l = buf_max_size (logdata data)
    \<and> log_text l = log_text (logdata data) @ deliver_line pid seq"
  using record_event_ok [OF assms(1,3,2,4)] by (auto simp: log_deliver_lcb_def)

text \<open>The first steps of \<open>deliver_lcb\<close> on a message that can be delivered.\<close>

lemma deliver_lcb_step:
  assumes "clocks_ok data" "lcb_msg_ok data m"
    "deliverable data (lcb_clock m) (unat (lcb_original_sender m))"
  shows "\<exists>c. clocks_ok (data\<lparr>vector_clock := c\<rparr>)
    \<and> clock_val c = (clock_val (vector_clock data))
        (unat (lcb_original_sender m) - 1 := delivered_count data (lcb_original_sender m) + 1)
    \<and> deliver_lcb e data m
      = bnd (log_deliver_lcb e (data\<lparr>vector_clock := c\<rparr>) (lcb_original_sender m)
               (delivered_count data (lcb_original_sender m) + 1)) (\<lambda>(r, data).
        if r \<noteq> 0 then ret (r, data)
        else bnd (find_pending_all e data) (\<lambda>(r, data). if r < 0 then ret (r, data) else ret (0, data)))"
proof -
  let ?pid = "lcb_original_sender m"
  from assms(2) have pid: "1 \<le> unat ?pid" "unat ?pid \<le> num_proc data"
    and c: "clock_ok (num_proc data) (lcb_clock m)" by (simp_all add: lcb_msg_ok_def clock_full_def)
  from update_vec_clock_spec [OF assms(1) pid] test_vec_clock_spec [OF assms(1) c pid] assms(3)
  show ?thesis by (auto simp: deliver_lcb_def)
qed

lemma deliver_lcb_pending_step:
  assumes "clocks_ok data" "lcb_msg_ok data m"
    "\<not> deliverable data (lcb_clock m) (unat (lcb_original_sender m))"
  shows "deliver_lcb e data m
      = bnd (add_pending_lcb e (pending_lcb data) (lcb_original_sender m) (lcb_clock m)) (\<lambda>(r, p).
        let data = data\<lparr>pending_lcb := p\<rparr> in if r \<noteq> 0 then ret (r, data) else ret (0, data))"
  using assms test_vec_clock_spec [OF assms(1), of "lcb_clock m" "lcb_original_sender m"]
  by (simp add: deliver_lcb_def lcb_msg_ok_def clock_full_def)

lemma deliver_lcb_delivers:
  assumes ok: "lcb_ok data ass" and np: "concat ass = []" and m: "lcb_msg_ok data m"
    and del: "deliverable data (lcb_clock m) (unat (lcb_original_sender m))"
    and fits: "event_fits (Deliver (lcb_original_sender m) (delivered_count data (lcb_original_sender m) + 1))"
    and io: "\<And>n. fwritten e n = n"
  shows "\<exists>c l. deliver_lcb e data m = ret (0, data\<lparr>vector_clock := c, logdata := l\<rparr>)
    \<and> lcb_ok (data\<lparr>vector_clock := c, logdata := l\<rparr>) ass
    \<and> clock_val c = (clock_val (vector_clock data))
        (unat (lcb_original_sender m) - 1 := delivered_count data (lcb_original_sender m) + 1)
    \<and> log_text l = log_text (logdata data)
        @ deliver_line (lcb_original_sender m) (delivered_count data (lcb_original_sender m) + 1)"
proof -
  from ok have ok': "clocks_ok data" "pending_ok (num_proc data) (pending_lcb data) ass"
    "log_ok (logdata data)" "LINE_MAX_LENGTH \<le> buf_max_size (logdata data)" by (simp_all add: lcb_ok_def)
  from deliver_lcb_step [OF ok'(1) m del, of e] obtain c where
    c: "clocks_ok (data\<lparr>vector_clock := c\<rparr>)"
      "clock_val c = (clock_val (vector_clock data))
        (unat (lcb_original_sender m) - 1 := delivered_count data (lcb_original_sender m) + 1)"
    and run: "deliver_lcb e data m
      = bnd (log_deliver_lcb e (data\<lparr>vector_clock := c\<rparr>) (lcb_original_sender m)
               (delivered_count data (lcb_original_sender m) + 1)) (\<lambda>(r, data).
        if r \<noteq> 0 then ret (r, data)
        else bnd (find_pending_all e data) (\<lambda>(r, data). if r < 0 then ret (r, data) else ret (0, data)))"
    by blast
  from log_deliver_lcb_ok [of "data\<lparr>vector_clock := c\<rparr>", OF _ _ fits io] ok'(3,4) obtain l where
    l: "log_deliver_lcb e (data\<lparr>vector_clock := c\<rparr>) (lcb_original_sender m)
          (delivered_count data (lcb_original_sender m) + 1) = ret (0, data\<lparr>vector_clock := c, logdata := l\<rparr>)"
      "log_ok l" "buf_max_size l = buf_max_size (logdata data)"
      "log_text l = log_text (logdata data)
        @ deliver_line (lcb_original_sender m) (delivered_count data (lcb_original_sender m) + 1)" by auto
  let ?d = "data\<lparr>vector_clock := c, logdata := l\<rparr>"
  have "find_pending_all e ?d = ret (0, ?d)"
    by (rule find_pending_all_empty [of "num_proc data" _ ass]) (use ok'(2) np in simp_all)
  moreover have "lcb_ok ?d ass"
    using ok' c(1) l(2,3) by (simp add: lcb_ok_def clocks_ok_def dep_list_def)
  ultimately show ?thesis using run l c(2) by auto
qed

lemma deliver_lcb_outcome:
  assumes "lcb_ok data ass" "lcb_msg_ok data m" "deliver_lcb e data m = ret (0, data')"
  shows "if deliverable data (lcb_clock m) (unat (lcb_original_sender m))
    then concat ass = [] \<and> pending_lcb data' = pending_lcb data
      \<and> clock_val (vector_clock data') = (clock_val (vector_clock data))
          (unat (lcb_original_sender m) - 1 := delivered_count data (lcb_original_sender m) + 1)
    else vector_clock data' = vector_clock data \<and> logdata data' = logdata data
      \<and> pending_ok (num_proc data) (pending_lcb data')
          (ass[unat (lcb_original_sender m) - 1 := ass ! (unat (lcb_original_sender m) - 1)
             @ [next_addr (node_mem (pending_lcb data))]])
      \<and> vector (clock_at (nodes (node_mem (pending_lcb data'))) (next_addr (node_mem (pending_lcb data))))
          = vector (lcb_clock m)"
proof (cases "deliverable data (lcb_clock m) (unat (lcb_original_sender m))")
  case True
  from assms(1) have ok: "clocks_ok data" "pending_ok (num_proc data) (pending_lcb data) ass"
    by (simp_all add: lcb_ok_def)
  from deliver_lcb_step [OF ok(1) assms(2) True, of e] obtain c where
    c: "clocks_ok (data\<lparr>vector_clock := c\<rparr>)" "clock_val c = (clock_val (vector_clock data))
        (unat (lcb_original_sender m) - 1 := delivered_count data (lcb_original_sender m) + 1)"
    and step: "deliver_lcb e data m
      = bnd (log_deliver_lcb e (data\<lparr>vector_clock := c\<rparr>) (lcb_original_sender m)
               (delivered_count data (lcb_original_sender m) + 1)) (\<lambda>(r, data).
        if r \<noteq> 0 then ret (r, data)
        else bnd (find_pending_all e data) (\<lambda>(r, data). if r < 0 then ret (r, data) else ret (0, data)))"
    by blast
  from trans [OF step [symmetric] assms(3)] obtain l r1 where
    run: "find_pending_all e (data\<lparr>vector_clock := c, logdata := l\<rparr>) = ret (r1, data')" "\<not> r1 < 0"
    by (auto simp: bnd_eq_ret split: if_splits dest!: log_deliver_lcb_code)
  let ?d = "data\<lparr>vector_clock := c, logdata := l\<rparr>"
  have d: "clocks_ok ?d" "pending_ok (num_proc ?d) (pending_lcb ?d) ass"
    using c(1) ok(2) by (simp_all add: clocks_ok_def dep_list_def)
  have "concat ass = []"
  proof (rule ccontr)
    assume "concat ass \<noteq> []"
    with find_pending_all_nonempty [OF d _ run(1)] run(2) show False by simp
  qed
  moreover from find_pending_all_empty [OF d(2) this, of e] run have "data' = ?d" by simp
  ultimately show ?thesis using True c(2) by simp
next
  case False
  let ?pid = "lcb_original_sender m"
  from assms(1) have ok: "clocks_ok data" "pending_ok (num_proc data) (pending_lcb data) ass"
    by (simp_all add: lcb_ok_def)
  from ok(1) have n: "num_proc data < 2 ^ 31" by (simp add: clocks_ok_def)
  from assms(2) have pid: "1 \<le> unat ?pid" "unat ?pid \<le> num_proc data"
    and c: "clock_full (num_proc data) (lcb_clock m)" by (simp_all add: lcb_msg_ok_def)
  from trans [OF deliver_lcb_pending_step [OF ok(1) assms(2) False, symmetric] assms(3)] obtain p where
    p: "add_pending_lcb e (pending_lcb data) ?pid (lcb_clock m) = ret (0, p)" "data' = data\<lparr>pending_lcb := p\<rparr>"
    by (auto simp: bnd_eq_ret Let_def split: if_splits prod.splits)
  from add_pending_grants [OF ok(2) pid c p(1)] have "grant e sizeof_node" "grant e (num_proc data * 4)" by auto
  from add_pending_spec [OF ok(2) n pid c this] p False show ?thesis by auto
qed

lemma deliver_lcb_waits:
  assumes ok: "lcb_ok data ass" and m: "lcb_msg_ok data m"
    and nd: "\<not> deliverable data (lcb_clock m) (unat (lcb_original_sender m))"
    and grants: "grant e sizeof_node" "grant e (num_proc data * 4)"
  shows "\<exists>p. deliver_lcb e data m = ret (0, data\<lparr>pending_lcb := p\<rparr>)"
proof -
  from ok have ok': "clocks_ok data" "pending_ok (num_proc data) (pending_lcb data) ass"
    by (simp_all add: lcb_ok_def)
  from ok'(1) have n: "num_proc data < 2 ^ 31" by (simp add: clocks_ok_def)
  from m have "1 \<le> unat (lcb_original_sender m)" "unat (lcb_original_sender m) \<le> num_proc data"
    "clock_full (num_proc data) (lcb_clock m)" by (simp_all add: lcb_msg_ok_def)
  from add_pending_spec [OF ok'(2) n this grants] deliver_lcb_pending_step [OF ok'(1) m nd, of e]
  show ?thesis by auto
qed

section \<open>Example states\<close>

lemma sample_dep_list: "dep_list sample 1 = [2]" "dep_list sample 2 = []" "dep_list sample 3 = []"
  using sample_deps_of by (simp_all add: dep_list_def)

lemma sample_clocks_ok: "clocks_ok sample"
proof -
  have "set (dep_list sample p) \<subseteq> {1..3}" if "p \<in> {1..3}" for p
  proof -
    from that consider "p = 1" | "p = 2" | "p = 3" by force
    then show ?thesis using sample_dep_list by cases auto
  qed
  then show ?thesis
    using sample_deps_ok by (simp add: clocks_ok_def clock_ok_def sample_clock_def)
qed

lemma sample_lcb_ok: "lcb_ok sample [[], [], []]"
proof -
  have "veclist_ok (nodes (node_mem (pending_lcb sample))) ([empty_veclist, empty_veclist, empty_veclist] ! i) ([[], [], []] ! i)"
    if "i < 3" for i
  proof -
    from that consider "i = 0" | "i = 1" | "i = 2" by force
    then show ?thesis by cases (simp_all add: veclist_ok_def empty_veclist_def)
  qed
  then have "pending_ok 3 (pending_lcb sample) [[], [], []]"
    by (simp add: pending_ok_def sample_def empty_veclist_def numeral_3_eq_3)
  then show ?thesis using sample_clocks_ok empty_log_ok by (simp add: lcb_ok_def)
qed

text \<open>A message of process 1 whose sender had delivered one message of process 2.\<close>

definition sample_lcb_msg :: "u32 list \<Rightarrow> u32 \<Rightarrow> lcb_msg" where
  "sample_lcb_msg xs pid = \<lparr>lcb_clock = sample_clock xs, lcb_original_sender = pid\<rparr>"

lemma sample_lcb_msg_ok:
  "lcb_msg_ok sample (sample_lcb_msg [0, 1, 0] 1)" "lcb_msg_ok sample (sample_lcb_msg [0, 0, 0] 2)"
  by (simp_all add: lcb_msg_ok_def sample_lcb_msg_def clock_full_def clock_ok_def sample_clock_def)

text \<open>The state after that message has arrived at \<open>sample\<close>: it waits.\<close>

definition waiting_sample :: net_data where
  "waiting_sample = sample\<lparr>pending_lcb := \<lparr>lcb_num_proc = 3,
     lists = Arr [\<lparr>num_elems = 1, list_head = Some 0, list_tail = Some 0\<rparr>, empty_veclist, empty_veclist],
     node_mem = \<lparr>nodes = [0 \<mapsto> \<lparr>node_clock = sample_clock [0, 1, 0], node_next = None, node_previous = None\<rparr>],
       next_addr = 1\<rparr>\<rparr>\<rparr>"

lemma waiting_sample_ok: "lcb_ok waiting_sample [[0], [], []]"
proof -
  have "veclist_ok (nodes (node_mem (pending_lcb waiting_sample)))
      ([\<lparr>num_elems = 1, list_head = Some 0, list_tail = Some 0\<rparr>, empty_veclist, empty_veclist] ! i) ([[0], [], []] ! i)"
    if "i < 3" for i
  proof -
    from that consider "i = 0" | "i = 1" | "i = 2" by force
    then show ?thesis
      by cases (simp_all add: veclist_ok_def empty_veclist_def waiting_sample_def node_live_def sample_clock_def)
  qed
  then have "pending_ok 3 (pending_lcb waiting_sample) [[0], [], []]"
    by (simp add: pending_ok_def waiting_sample_def clock_at_def clock_ok_def sample_clock_def)
  moreover have "clocks_ok waiting_sample"
    using sample_clocks_ok by (simp add: clocks_ok_def waiting_sample_def dep_list_def)
  ultimately show ?thesis using empty_log_ok by (simp add: lcb_ok_def waiting_sample_def)
qed

lemma sample_deliverable:
  "\<not> deliverable sample (sample_clock [0, 1, 0]) 1" "deliverable sample (sample_clock [0, 0, 0]) 2"
  "\<not> deliverable waiting_sample (sample_clock [0, 1, 0]) 1"
proof -
  have "dep_list waiting_sample 1 = [2]"
    using sample_dep_list(1) by (simp add: dep_list_def waiting_sample_def)
  then show "\<not> deliverable sample (sample_clock [0, 1, 0]) 1" "deliverable sample (sample_clock [0, 0, 0]) 2"
    "\<not> deliverable waiting_sample (sample_clock [0, 1, 0]) 1"
    using sample_dep_list
    by (simp_all add: deliverable_def clock_val_def sample_clock_def waiting_sample_def)
qed

text \<open>The same state once the message it waits for has been delivered.\<close>

definition ready_sample :: net_data where
  "ready_sample = waiting_sample\<lparr>vector_clock := sample_clock [0, 1, 0]\<rparr>"

lemma ready_sample_ok: "lcb_ok ready_sample [[0], [], []]"
proof -
  have "clocks_ok ready_sample"
    using waiting_sample_ok
    by (simp add: lcb_ok_def clocks_ok_def ready_sample_def waiting_sample_def dep_list_def clock_ok_def sample_clock_def)
  then show ?thesis using waiting_sample_ok by (simp add: lcb_ok_def ready_sample_def)
qed

lemma ready_sample_deliverable: "deliverable ready_sample (sample_clock [0, 1, 0]) 1"
proof -
  have "dep_list ready_sample 1 = [2]"
    using sample_dep_list(1) by (simp add: dep_list_def waiting_sample_def ready_sample_def)
  then show ?thesis
    by (simp add: deliverable_def clock_val_def sample_clock_def waiting_sample_def ready_sample_def)
qed

section \<open>Properties\<close>

text \<open>C18: the outcome of \<open>find_pending\<close> on a non-empty pending structure. Let the first
  non-empty list be the one of process \<open>i + 1\<close>, with the message at \<open>a\<close> in front. If that
  message's dependencies are not met the call never returns. If they are met and it is the
  only message in its list, it is delivered and logged: its sender's entry of the clock goes
  up by one, the line with that number is appended to the log, and nothing else changes, the
  message still being in its list; then the call fails with ERROR_POINTER. If there are
  more messages in the list the call runs into undefined behaviour (it follows the node it
  has just freed). (All writes succeed and the line fits.)\<close>

theorem find_pending_outcome:
  assumes "lcb_ok data ass" "i < num_proc data" "ass ! i = a # as" "\<And>j. j < i \<Longrightarrow> ass ! j = []"
    and "\<And>n. fwritten e n = n"
    and "event_fits (Deliver (of_nat (i + 1)) (clock_val (vector_clock data) i + 1))"
  shows "if \<not> deliverable data (clock_at (nodes (node_mem (pending_lcb data))) a) (i + 1)
    then find_pending e data = hang
    else if as = [] then \<exists>c l. find_pending e data
          = ret (err ERROR_POINTER, data\<lparr>vector_clock := c, logdata := l\<rparr>)
        \<and> clock_val c = (clock_val (vector_clock data))(i := clock_val (vector_clock data) i + 1)
        \<and> log_text l = log_text (logdata data)
            @ deliver_line (of_nat (i + 1)) (clock_val (vector_clock data) i + 1)
    else find_pending e data = ub"
proof -
  let ?del = "deliverable data (clock_at (nodes (node_mem (pending_lcb data))) a) (i + 1)"
  from assms(1) have ok: "clocks_ok data" "pending_ok (num_proc data) (pending_lcb data) ass"
    "log_ok (logdata data)" "LINE_MAX_LENGTH \<le> buf_max_size (logdata data)" by (simp_all add: lcb_ok_def)
  note first = find_pending_first [OF ok(2) assms(2,3,4)]
  show ?thesis
  proof (cases ?del)
    case True
    from find_in_list_head [OF ok(1,2) assms(2,3) True, of e 0] obtain c where
      run: "find_in_list e i (Some a) 0 data
        = bnd (log_deliver_lcb e (data\<lparr>vector_clock := c\<rparr>) (of_nat (i + 1)) (clock_val (vector_clock data) i + 1))
            (\<lambda>(r, data2). if r \<noteq> 0 then ret (r, 1, data2)
              else if as = [] then ret (err ERROR_POINTER, 1, data2) else ub)"
      and c: "clock_val c = (clock_val (vector_clock data))(i := clock_val (vector_clock data) i + 1)" by blast
    from log_deliver_lcb_ok [of "data\<lparr>vector_clock := c\<rparr>", OF _ _ assms(6,5)] ok(3,4) obtain l where
      l: "log_deliver_lcb e (data\<lparr>vector_clock := c\<rparr>) (of_nat (i + 1)) (clock_val (vector_clock data) i + 1)
        = ret (0, data\<lparr>vector_clock := c, logdata := l\<rparr>)"
      "log_text l = log_text (logdata data) @ deliver_line (of_nat (i + 1)) (clock_val (vector_clock data) i + 1)"
      by auto
    show ?thesis
    proof (cases "as = []")
      case True
      with run first l(1) have "find_pending e data = ret (err ERROR_POINTER, data\<lparr>vector_clock := c, logdata := l\<rparr>)"
        by auto
      with c l(2) True \<open>?del\<close> show ?thesis by (simp only: if_True not_not simp_thms if_False) blast
    next
      case False
      with run first l(1) \<open>?del\<close> show ?thesis by auto
    qed
  next
    case False
    from node_of_list [OF ok(2) assms(2,3)] obtain nd where
      nd: "nodes (node_mem (pending_lcb data)) a = Some nd" "clock_ok (num_proc data) (node_clock nd)"
        "clock_at (nodes (node_mem (pending_lcb data))) a = node_clock nd" by blast
    from ok(1) have "num_proc data < 2 ^ 31" by (simp add: clocks_ok_def)
    with assms(2) have pid: "unat (of_nat (i + 1) :: u32) = i + 1" by (intro unat_of_nat_u32) simp
    have "test_vec_clock data (node_clock nd) (of_nat (i + 1)) = ret (0, data)"
      using test_vec_clock_spec [OF ok(1) nd(2), of "of_nat (i + 1)"] False nd(3) pid assms(2) by simp
    with find_in_list_stuck [of data a nd i e 0] nd(1) first False show ?thesis
      by (simp add: node_get_def)
  qed
qed

theorem find_pending_outcome_witness:
  "find_pending good_env waiting_sample = hang
   \<and> (\<exists>d. find_pending good_env ready_sample = ret (err ERROR_POINTER, d)
       \<and> clock_val (vector_clock d) 0 = 1 \<and> log_text (logdata d) = deliver_line 1 1)"
proof
  have "event_fits (Deliver (of_nat (0 + 1)) (clock_val (vector_clock waiting_sample) 0 + 1))"
    by (simp add: fits_small_pid waiting_sample_def clock_val_def sample_clock_def)
  with find_pending_outcome [OF waiting_sample_ok, of 0 0 "[]" good_env] sample_deliverable(3)
  show "find_pending good_env waiting_sample = hang"
    by (simp add: waiting_sample_def clock_at_def)
  have sel: "num_proc ready_sample = 3" "vector_clock ready_sample = sample_clock [0, 1, 0]"
    "clock_at (nodes (node_mem (pending_lcb ready_sample))) 0 = sample_clock [0, 1, 0]"
    "log_text (logdata ready_sample) = []" "clock_val (sample_clock [0, 1, 0]) 0 = 0"
    by (simp_all add: ready_sample_def waiting_sample_def clock_at_def empty_log_ok clock_val_def sample_clock_def)
  have "event_fits (Deliver (of_nat (0 + 1)) (clock_val (vector_clock ready_sample) 0 + 1))"
    by (simp add: fits_small_pid sel)
  with find_pending_outcome [OF ready_sample_ok, of 0 0 "[]" good_env] ready_sample_deliverable
  obtain c l where "find_pending good_env ready_sample
      = ret (err ERROR_POINTER, ready_sample\<lparr>vector_clock := c, logdata := l\<rparr>)"
    "clock_val c 0 = 1" "log_text l = deliver_line 1 1" by (auto simp: sel)
  then show "\<exists>d. find_pending good_env ready_sample = ret (err ERROR_POINTER, d)
       \<and> clock_val (vector_clock d) 0 = 1 \<and> log_text (logdata d) = deliver_line 1 1" by auto
qed

text \<open>C19: what a successful \<open>deliver_lcb\<close> has done. Either every dependency of the sender is
  met by the vector clock, no message is pending, the sender's entry of the clock is one
  higher, and nothing else of the clock and nothing of the pending lists has changed; or a
  dependency is not met, the clock of the message is at the end of its sender's pending
  list, and neither clock nor log has changed.\<close>

theorem deliver_lcb_success:
  assumes "lcb_ok data ass" "lcb_msg_ok data m" "deliver_lcb e data m = ret (0, data')"
  shows "if deliverable data (lcb_clock m) (unat (lcb_original_sender m))
    then concat ass = [] \<and> pending_lcb data' = pending_lcb data
      \<and> clock_val (vector_clock data') = (clock_val (vector_clock data))
          (unat (lcb_original_sender m) - 1 := delivered_count data (lcb_original_sender m) + 1)
    else vector_clock data' = vector_clock data \<and> logdata data' = logdata data
      \<and> pending_ok (num_proc data) (pending_lcb data')
          (ass[unat (lcb_original_sender m) - 1 := ass ! (unat (lcb_original_sender m) - 1)
             @ [next_addr (node_mem (pending_lcb data))]])
      \<and> vector (clock_at (nodes (node_mem (pending_lcb data'))) (next_addr (node_mem (pending_lcb data))))
          = vector (lcb_clock m)"
  using deliver_lcb_outcome [OF assms] .

theorem deliver_lcb_success_witness:
  "\<exists>data'. deliver_lcb good_env sample (sample_lcb_msg [0, 1, 0] 1) = ret (0, data')
    \<and> pending_ok 3 (pending_lcb data') [[0], [], []]"
proof -
  have nd: "\<not> deliverable sample (lcb_clock (sample_lcb_msg [0, 1, 0] 1))
      (unat (lcb_original_sender (sample_lcb_msg [0, 1, 0] 1)))"
    using sample_deliverable(1) by (simp add: sample_lcb_msg_def)
  from deliver_lcb_waits [OF sample_lcb_ok sample_lcb_msg_ok(1) nd, of good_env] obtain data' where
    d: "deliver_lcb good_env sample (sample_lcb_msg [0, 1, 0] 1) = ret (0, data')" by auto
  have "next_addr (node_mem (pending_lcb sample)) = 0" by (simp add: sample_def)
  with deliver_lcb_success [OF sample_lcb_ok sample_lcb_msg_ok(1) d] nd d show ?thesis
    by (auto simp: sample_lcb_msg_def)
qed

text \<open>C20: with no message pending, a message whose dependencies are met is delivered: the
  call returns 0, the sender's entry of the clock goes up by one, and the line with that
  number is appended to the log. The number in the log is the number of messages delivered
  from this sender, not a number carried by the message. (The line fits the array of 8
  characters, and all writes to the log file succeed.)\<close>

theorem deliver_lcb_logs_count:
  assumes "lcb_ok data ass" "concat ass = []" "lcb_msg_ok data m"
    and "deliverable data (lcb_clock m) (unat (lcb_original_sender m))"
    and "event_fits (Deliver (lcb_original_sender m) (delivered_count data (lcb_original_sender m) + 1))"
    and "\<And>n. fwritten e n = n"
  shows "\<exists>data'. deliver_lcb e data m = ret (0, data') \<and> lcb_ok data' ass
    \<and> clock_val (vector_clock data') = (clock_val (vector_clock data))
        (unat (lcb_original_sender m) - 1 := delivered_count data (lcb_original_sender m) + 1)
    \<and> log_text (logdata data') = log_text (logdata data)
        @ deliver_line (lcb_original_sender m) (delivered_count data (lcb_original_sender m) + 1)"
proof -
  from deliver_lcb_delivers [OF assms] obtain c l where
    "deliver_lcb e data m = ret (0, data\<lparr>vector_clock := c, logdata := l\<rparr>)"
    "lcb_ok (data\<lparr>vector_clock := c, logdata := l\<rparr>) ass"
    "clock_val c = (clock_val (vector_clock data))
        (unat (lcb_original_sender m) - 1 := delivered_count data (lcb_original_sender m) + 1)"
    "log_text l = log_text (logdata data)
        @ deliver_line (lcb_original_sender m) (delivered_count data (lcb_original_sender m) + 1)" by blast
  then show ?thesis by auto
qed

theorem deliver_lcb_logs_count_witness:
  "\<exists>data'. deliver_lcb good_env sample (sample_lcb_msg [0, 0, 0] 2) = ret (0, data')
    \<and> log_text (logdata data') = deliver_line 2 1"
proof -
  let ?m = "sample_lcb_msg [0, 0, 0] 2"
  have "deliverable sample (lcb_clock ?m) (unat (lcb_original_sender ?m))"
    using sample_deliverable(2) by (simp add: sample_lcb_msg_def)
  moreover have "event_fits (Deliver (lcb_original_sender ?m) (delivered_count sample (lcb_original_sender ?m) + 1))"
    by (simp add: fits_small_pid sample_lcb_msg_def clock_val_def sample_clock_def)
  moreover have "concat [[], [], []] = ([] :: nat list)" by simp
  ultimately obtain data' where "deliver_lcb good_env sample ?m = ret (0, data')"
    "log_text (logdata data') = log_text (logdata sample)
        @ deliver_line (lcb_original_sender ?m) (delivered_count sample (lcb_original_sender ?m) + 1)"
    using deliver_lcb_logs_count [OF sample_lcb_ok _ sample_lcb_msg_ok(2), of good_env] by auto
  then show ?thesis
    by (auto simp: sample_lcb_msg_def clock_val_def sample_clock_def empty_log_ok)
qed

text \<open>C21: once a message is pending, no message is ever delivered successfully again: every
  call of \<open>deliver_lcb\<close> that returns 0 leaves the vector clock and the log as they were.\<close>

theorem pending_blocks_delivery:
  assumes "lcb_ok data ass" "concat ass \<noteq> []" "lcb_msg_ok data m" "deliver_lcb e data m = ret (0, data')"
  shows "vector_clock data' = vector_clock data \<and> log_text (logdata data') = log_text (logdata data)
    \<and> (\<exists>ass'. pending_ok (num_proc data) (pending_lcb data') ass' \<and> concat ass' \<noteq> [])"
proof -
  let ?pid = "lcb_original_sender m"
  let ?ass = "ass[unat ?pid - 1 := ass ! (unat ?pid - 1) @ [next_addr (node_mem (pending_lcb data))]]"
  note D = deliver_lcb_outcome [OF assms(1,3,4)]
  from D assms(2) have nd: "\<not> deliverable data (lcb_clock m) (unat ?pid)" by auto
  from assms(1) have "length ass = num_proc data" by (auto simp: lcb_ok_def elim: pending_okE)
  with assms(3) have "unat ?pid - 1 < length ass" by (auto simp: lcb_msg_ok_def)
  then have "next_addr (node_mem (pending_lcb data)) \<in> set (concat ?ass)"
    by (simp only: concat_update(1) insert_iff simp_thms)
  then have "concat ?ass \<noteq> []" by (metis empty_iff list.set(1))
  with D nd show ?thesis by auto
qed

theorem pending_blocks_delivery_witness:
  "\<exists>data'. deliver_lcb good_env waiting_sample (sample_lcb_msg [0, 1, 0] 1) = ret (0, data')
     \<and> vector_clock data' = sample_clock [0, 0, 0]"
proof -
  have m: "lcb_msg_ok waiting_sample (sample_lcb_msg [0, 1, 0] 1)"
    using sample_lcb_msg_ok(1) by (simp add: lcb_msg_ok_def waiting_sample_def)
  have "\<not> deliverable waiting_sample (lcb_clock (sample_lcb_msg [0, 1, 0] 1))
      (unat (lcb_original_sender (sample_lcb_msg [0, 1, 0] 1)))"
    using sample_deliverable(3) by (simp add: sample_lcb_msg_def)
  from deliver_lcb_waits [OF waiting_sample_ok m this, of good_env] obtain data' where
    run: "deliver_lcb good_env waiting_sample (sample_lcb_msg [0, 1, 0] 1) = ret (0, data')" by auto
  from pending_blocks_delivery [OF waiting_sample_ok _ m run] run
  show ?thesis by (auto simp: waiting_sample_def)
qed

end
