(* ===== verification/Effects.thy ===== *)
theory Effects
  imports LinkSpec LcbSpec
begin

text \<open>
  Which parts of the state each layer can change, in any environment and on every path on
  which the call returns. These are the frame conditions of the refinement and of the
  invariants of the whole system.
\<close>

section \<open>Localized causal broadcast\<close>

text \<open>The state without the parts that belong to localized causal broadcast.\<close>

definition lcb_core :: "net_data \<Rightarrow> net_data" where
  "lcb_core data = data\<lparr>vector_clock := zero_clock, logdata := empty_log,
     pending_lcb := \<lparr>lcb_num_proc = 0, lists = Null, node_mem = \<lparr>nodes = \<lambda>_. None, next_addr = 0\<rparr>\<rparr>\<rparr>"

lemma lcb_core_update [simp]:
  "lcb_core (data\<lparr>vector_clock := c\<rparr>) = lcb_core data"
  "lcb_core (data\<lparr>logdata := l\<rparr>) = lcb_core data"
  "lcb_core (data\<lparr>pending_lcb := p\<rparr>) = lcb_core data"
  by (simp_all add: lcb_core_def)

lemma lcb_core_sel:
  assumes "lcb_core a = lcb_core b"
  shows "address_book a = address_book b" "self_pid a = self_pid b" "num_proc a = num_proc b"
    "pl_acks a = pl_acks b" "pl_deliv a = pl_deliv b" "task_q a = task_q b" "urb_tab a = urb_tab b"
    "urbacks a = urbacks b" "net_out a = net_out b" "deps a = deps b"
proof -
  have sel: "address_book (lcb_core d) = address_book d" "self_pid (lcb_core d) = self_pid d"
    "num_proc (lcb_core d) = num_proc d" "pl_acks (lcb_core d) = pl_acks d"
    "pl_deliv (lcb_core d) = pl_deliv d" "task_q (lcb_core d) = task_q d"
    "urb_tab (lcb_core d) = urb_tab d" "urbacks (lcb_core d) = urbacks d"
    "net_out (lcb_core d) = net_out d" "deps (lcb_core d) = deps d" for d
    by (simp_all add: lcb_core_def)
  show "address_book a = address_book b" "self_pid a = self_pid b" "num_proc a = num_proc b"
    "pl_acks a = pl_acks b" "pl_deliv a = pl_deliv b" "task_q a = task_q b" "urb_tab a = urb_tab b"
    "urbacks a = urbacks b" "net_out a = net_out b" "deps a = deps b"
    using arg_cong [OF assms, of address_book] arg_cong [OF assms, of self_pid]
      arg_cong [OF assms, of num_proc] arg_cong [OF assms, of pl_acks] arg_cong [OF assms, of pl_deliv]
      arg_cong [OF assms, of task_q] arg_cong [OF assms, of urb_tab] arg_cong [OF assms, of urbacks]
      arg_cong [OF assms, of net_out] arg_cong [OF assms, of deps]
    by (simp_all only: sel)
qed

lemma test_vec_clock_core: "on_ret (test_vec_clock data v pid) (\<lambda>(_, d). lcb_core d = lcb_core data)"
  unfolding test_vec_clock_def
  by (cases "get_dependencies (deps data) (unat pid)") simp_all

lemma update_vec_clock_core: "on_ret (update_vec_clock data pid) (\<lambda>(_, _, d). lcb_core d = lcb_core data)"
  by (simp add: update_vec_clock_def)

lemma get_vec_clock_copy_core: "on_ret (get_vec_clock_copy e data c) (\<lambda>(_, _, d). lcb_core d = lcb_core data)"
  by (simp add: get_vec_clock_copy_def Let_def split_beta)

lemma log_deliver_lcb_core: "on_ret (log_deliver_lcb e data pid s) (\<lambda>(_, d). lcb_core d = lcb_core data)"
  by (simp add: log_deliver_lcb_def Let_def split_beta)

lemma remove_pending_core: "on_ret (remove_pending data i p) (\<lambda>(_, d). lcb_core d = lcb_core data)"
  by (simp add: remove_pending_def Let_def split_beta)

lemmas leaf_cores = on_ret_mono [OF test_vec_clock_core] on_ret_mono [OF update_vec_clock_core]
  on_ret_mono [OF log_deliver_lcb_core] on_ret_mono [OF remove_pending_core]

lemma find_in_list_core: "on_ret (find_in_list e i p f data) (\<lambda>(_, _, d). lcb_core d = lcb_core data)"
proof -
  have "(\<lambda>e i p f data y. \<forall>r f' d. y = Ret (r, f', d) \<longrightarrow> lcb_core d = lcb_core data) e i p f data y"
    if "find_in_list e i p f data = Some y" for y
  proof (rule find_in_list.raw_induct [OF _ that])
    fix g :: "env \<Rightarrow> nat \<Rightarrow> ref \<Rightarrow> int \<Rightarrow> net_data \<Rightarrow> (int \<times> int \<times> net_data) run"
      and e i p f data y
    assume hyp: "\<And>e i p f data y. g e i p f data = Some y \<Longrightarrow>
        \<forall>r f' d. y = Ret (r, f', d) \<longrightarrow> lcb_core d = lcb_core data"
    have IH: "on_ret (g e i p f data) (\<lambda>(_, _, d). lcb_core d = lcb_core data)" for e i p f data
      using hyp by (auto simp: on_ret_def)
    let ?body = "if p = None then ret (0, f, data)
      else bnd (node_get (node_mem (pending_lcb data)) p) (\<lambda>nd.
           bnd (test_vec_clock data (node_clock nd) (of_nat (i + 1))) (\<lambda>(t, data).
           if t \<noteq> 0 then
             bnd (update_vec_clock data (of_nat (i + 1))) (\<lambda>(r, seq, data).
             if r \<noteq> 0 then ret (r, 1, data)
             else bnd (log_deliver_lcb e data (of_nat (i + 1)) (case seq of None \<Rightarrow> 0 | Some s \<Rightarrow> s)) (\<lambda>(r, data).
             if r \<noteq> 0 then ret (r, 1, data)
             else bnd (node_get (node_mem (pending_lcb data)) p) (\<lambda>nd.
             bnd (remove_pending data i (node_next nd)) (\<lambda>(r, data).
             if r \<noteq> 0 then ret (r, 1, data)
             else g e i (node_next nd) 1 data))))
           else g e i p f data))"
    assume body: "?body = Some y"
    have "on_ret ?body (\<lambda>(_, _, d). lcb_core d = lcb_core data)"
      by (auto intro!: leaf_cores on_ret_mono [OF IH]
          on_ret_any [where m = "node_get h q" for h q])
    then show "\<forall>r f' d. y = Ret (r, f', d) \<longrightarrow> lcb_core d = lcb_core data"
      using body by (auto simp: on_ret_def)
  qed
  then show ?thesis by (auto simp: on_ret_def)
qed


lemma find_in_lists_core: "on_ret (find_in_lists e i k f data) (\<lambda>(_, d). lcb_core d = lcb_core data)"
proof (induction k arbitrary: i f data)
  case (Suc k)
  show ?case
    by (auto intro!: on_ret_mono [OF Suc] on_ret_mono [OF find_in_list_core]
        on_ret_any [where m = "load p j" for p j])
qed simp

text \<open>The return codes: never positive.\<close>

lemma update_vec_clock_code: "on_ret (update_vec_clock data pid) (\<lambda>(r, _, _). r \<le> 0)"
  by (simp add: update_vec_clock_def)

lemma write_log_code': "on_ret (write_log e l line k) (\<lambda>(r, _). r \<le> 0)"
  using write_log_code by (fastforce simp: on_ret_def)

lemma log_deliver_code: "on_ret (log_deliver e l m) (\<lambda>(r, _). r \<le> 0)"
  unfolding log_deliver_def
  by (auto intro!: on_ret_any [where m = "sprintf_line x" for x] on_ret_mono [OF write_log_code'])

lemma log_urb_broadcast_code: "on_ret (log_urb_broadcast e l m) (\<lambda>(r, _). r \<le> 0)"
  unfolding log_urb_broadcast_def
  by (auto intro!: on_ret_any [where m = "sprintf_line x" for x] on_ret_mono [OF write_log_code'])

lemma log_deliver_lcb_code': "on_ret (log_deliver_lcb e data pid s) (\<lambda>(r, _). r \<le> 0)"
  unfolding log_deliver_lcb_def by (auto simp: Let_def intro!: on_ret_mono [OF log_deliver_code])

lemma alloc_vector_code: "on_ret (alloc_vector e c n v) (\<lambda>(r, _). r \<le> 0)"
  unfolding alloc_vector_def by (simp add: Let_def)

lemma add_veclist_code: "on_ret (add_veclist e c l h) (\<lambda>(r, _, _). r \<le> 0)"
  unfolding add_veclist_def
  by (auto simp: Let_def node_alloc_def split: option.splits
      intro!: on_ret_mono [OF alloc_vector_code] on_ret_any [where m = "node_get h p" for h p])

lemma find_pending_all_core:
  "on_ret (find_pending_all e data) (\<lambda>(r, d). r \<le> 0 \<and> lcb_core d = lcb_core data)"
proof -
  have "(\<lambda>e data y. \<forall>r d. y = Ret (r, d) \<longrightarrow> r \<le> 0 \<and> lcb_core d = lcb_core data) e data y"
    if "find_pending_all e data = Some y" for y
  proof (rule find_pending_all.raw_induct [OF _ that])
    fix g :: "env \<Rightarrow> net_data \<Rightarrow> (int \<times> net_data) run" and e data y
    assume hyp: "\<And>e data y. g e data = Some y \<Longrightarrow>
        \<forall>r d. y = Ret (r, d) \<longrightarrow> r \<le> 0 \<and> lcb_core d = lcb_core data"
    have IH: "on_ret (g e data) (\<lambda>(r, d). r \<le> 0 \<and> lcb_core d = lcb_core data)" for e data
      using hyp by (auto simp: on_ret_def)
    let ?body = "bnd (find_pending e data) (\<lambda>(r, data). if 0 < r then g e data else ret (r, data))"
    assume body: "?body = Some y"
    have "on_ret ?body (\<lambda>(r, d). r \<le> 0 \<and> lcb_core d = lcb_core data)"
      by (auto simp: find_pending_def intro!: on_ret_mono [OF find_in_lists_core] on_ret_mono [OF IH])
    then show "\<forall>r d. y = Ret (r, d) \<longrightarrow> r \<le> 0 \<and> lcb_core d = lcb_core data"
      using body by (auto simp: on_ret_def)
  qed
  then show ?thesis by (auto simp: on_ret_def)
qed

lemma add_pending_code: "on_ret (add_pending_lcb e p i c) (\<lambda>(r, _). r \<le> 0)"
  unfolding add_pending_lcb_def
  by (auto simp: Let_def intro!: on_ret_mono [OF add_veclist_code] on_ret_any [where m = "load p i" for p i]
      on_ret_any [where m = "store p i v" for p i v])

lemma deliver_lcb_core: "on_ret (deliver_lcb e data m) (\<lambda>(r, d). r \<le> 0 \<and> lcb_core d = lcb_core data)"
  unfolding deliver_lcb_def Let_def
  by (auto intro!: on_ret_mono [OF test_vec_clock_core]
      on_ret_mono [OF on_ret_conj [OF update_vec_clock_core update_vec_clock_code]]
      on_ret_mono [OF on_ret_conj [OF log_deliver_lcb_core log_deliver_lcb_code']]
      on_ret_mono [OF find_pending_all_core] on_ret_mono [OF add_pending_code])

end
