(* ===== verification/UrbSpec.thy ===== *)
theory UrbSpec
  imports Effects
begin

text \<open>
  Uniform reliable broadcast: the invariant of one process that a quorum has seen what it
  delivers, relative to the set \<open>S\<close> of the pairs (process, message) such that the process
  has seen the message, and its preservation by the handlers. The parameter \<open>R\<close> of the
  invariant says which vector clock a message may carry; the handlers pass clocks on unchanged.
\<close>

section \<open>Identifiers\<close>

text \<open>\<open>n\<close> processes and tables for \<open>T\<close> messages; no identifier wraps around.\<close>

definition sizes :: "nat \<Rightarrow> u32 \<Rightarrow> bool" where
  "sizes n T \<longleftrightarrow> 0 < n \<and> 0 < unat T \<and> n * (unat T + 1) < 2 ^ 32"

lemma sizes_small: "sizes n T \<Longrightarrow> n < 2 ^ 32"
  by (auto simp: sizes_def)

lemma unat_mid_of:
  assumes "sizes n T" "s < T" "1 \<le> q" "q \<le> n"
  shows "unat (mid_of n s q) = n * unat s + (q - 1)"
proof -
  have s: "unat s < unat T" using assms(2) by (simp add: word_less_nat_alt)
  then have "n * unat s + n \<le> n * unat T" using assms(1)
    by (metis Suc_leI add.commute mult_Suc_right mult_le_mono2)
  then have le: "n * unat s + q < 2 ^ 32"
    using assms(1,4) by (simp add: sizes_def)
  have n: "unat (of_nat n :: u32) = n"
    using assms(1) by (intro unat_of_nat_u32) (auto simp: sizes_def)
  have q: "unat (of_nat q :: u32) = q" using le by (intro unat_of_nat_u32) simp
  have "unat (of_nat n * s :: u32) = n * unat s"
    using le n by (simp add: unat_mult_u32)
  then have "unat (of_nat n * s + of_nat q :: u32) = n * unat s + q"
    using le q by (simp add: unat_add_u32)
  moreover have "unat (1 :: u32) = 1" by simp
  ultimately show ?thesis
    using assms(3) unat_sub_u32 [of 1 "of_nat n * s + of_nat q"] by (simp add: mid_of_def)
qed

lemma mid_of_inj:
  assumes "sizes n T" "s < T" "s' < T" "1 \<le> q" "q \<le> n" "1 \<le> q'" "q' \<le> n"
    and "mid_of n s q = mid_of n s' q'"
  shows "s = s' \<and> q = q'"
proof -
  have eq: "n * unat s + (q - 1) = n * unat s' + (q' - 1)"
    using unat_mid_of [OF assms(1,2,4,5)] unat_mid_of [OF assms(1,3,6,7)] assms(8) by simp
  have "q - 1 < n" "q' - 1 < n" using assms(4-7) by auto
  with arg_cong [OF eq, of "\<lambda>x. x div n"] arg_cong [OF eq, of "\<lambda>x. x mod n"]
  have "unat s = unat s'" "q - 1 = q' - 1" by auto
  with assms(4,6) show ?thesis by (auto simp: word_unat_eq_iff)
qed

section \<open>What the tables of a process say\<close>

definition seen_set :: "net_data \<Rightarrow> u32 set" where
  "seen_set data = {s. seen_view (urb_tab data) s \<noteq> 0}"

definition delivered_set :: "net_data \<Rightarrow> u32 set" where
  "delivered_set data = {s. delivered_view (urb_tab data) s \<noteq> 0}"

type_synonym sightings = "(nat \<times> u32) set"

definition attested :: "nat \<Rightarrow> sightings \<Rightarrow> u32 \<Rightarrow> u32 \<Rightarrow> bool" where
  "attested n S i s \<longleftrightarrow> (\<exists>q. 1 \<le> q \<and> q \<le> n \<and> (q, s) \<in> S \<and> i = mid_of n s q)"

definition quorum :: "nat \<Rightarrow> sightings \<Rightarrow> u32 \<Rightarrow> bool" where
  "quorum n S s \<longleftrightarrow> n div 2 < card {q. 1 \<le> q \<and> q \<le> n \<and> (q, s) \<in> S}"

text \<open>The causal part of a message names the process that its identifier names.\<close>

definition from_origin :: "nat \<Rightarrow> urb_msg \<Rightarrow> bool" where
  "from_origin n m \<longleftrightarrow> unat (lcb_original_sender (lcb_part m)) = unat (seen_id m) mod n + 1"

text \<open>What is known of the clocks that travel: message \<open>s\<close> may carry the entries \<open>xs\<close>. A message
  whose clock could not be copied has none.\<close>

type_synonym carried = "u32 \<Rightarrow> u32 list \<Rightarrow> bool"

definition carries :: "carried \<Rightarrow> nat \<Rightarrow> urb_msg \<Rightarrow> bool" where
  "carries R n m \<longleftrightarrow>
     (case vector (lcb_clock (lcb_part m)) of Arr xs \<Rightarrow> R (seen_id m) (take n xs) | _ \<Rightarrow> True)"

definition good_urb :: "carried \<Rightarrow> nat \<Rightarrow> sightings \<Rightarrow> urb_msg \<Rightarrow> bool" where
  "good_urb R n S m \<longleftrightarrow> attested n S (urb_mid m) (seen_id m) \<and> from_origin n m \<and> carries R n m"

definition good_msg :: "carried \<Rightarrow> nat \<Rightarrow> sightings \<Rightarrow> msg \<Rightarrow> bool" where
  "good_msg R n S m \<longleftrightarrow> mtype m = ACK_NO \<or> good_urb R n S (urb_part m)"

definition good_queue :: "carried \<Rightarrow> nat \<Rightarrow> sightings \<Rightarrow> msg_queue \<Rightarrow> bool" where
  "good_queue R n S q \<longleftrightarrow> queue_mutex q
     \<or> (queue_ok q \<and> (\<forall>t \<in> set (queue_tasks q). good_msg R n S (task_msg t)))"

text \<open>A datagram that a process may send: whatever it decodes to is good.\<close>

definition good_bytes :: "carried \<Rightarrow> nat \<Rightarrow> sightings \<Rightarrow> byte list \<Rightarrow> bool" where
  "good_bytes R n S bs \<longleftrightarrow> length bs = message_size n
     \<and> (\<forall>e m0 r m. deserialize e m0 (Arr bs) n = ret (r, m) \<longrightarrow> r = 0 \<longrightarrow> good_msg R n S m)"

definition acks_good :: "nat \<Rightarrow> u32 \<Rightarrow> sightings \<Rightarrow> urb_ack_table \<Rightarrow> bool" where
  "acks_good n T S d \<longleftrightarrow> table_ok (urb_ack_tab d) \<and> no_process (urb_ack_tab d) = of_nat n
     \<and> unat (total_entries (urb_ack_tab d)) = n * unat T
     \<and> (\<forall>i. table_view (urb_ack_tab d) i \<noteq> 0 \<longrightarrow> (\<exists>s. attested n S i s))"

definition tab_good :: "nat \<Rightarrow> nat \<Rightarrow> u32 \<Rightarrow> sightings \<Rightarrow> urb_table \<Rightarrow> bool" where
  "tab_good n p T S t \<longleftrightarrow> urb_ok t \<and> urb_total_entries t = T
     \<and> (\<forall>s. seen_view t s \<noteq> 0 \<longrightarrow> (p, s) \<in> S) \<and> (\<forall>s. delivered_view t s \<noteq> 0 \<longrightarrow> quorum n S s)"

definition net_good :: "carried \<Rightarrow> nat \<Rightarrow> sightings \<Rightarrow> (sockaddr_in \<times> byte list) list \<Rightarrow> bool" where
  "net_good R n S out \<longleftrightarrow> (\<forall>(a, bs) \<in> set out. good_bytes R n S bs)"

definition urb_inv :: "carried \<Rightarrow> nat \<Rightarrow> nat \<Rightarrow> u32 \<Rightarrow> sightings \<Rightarrow> net_data \<Rightarrow> bool" where
  "urb_inv R n p T S data \<longleftrightarrow> num_proc data = n \<and> self_pid data = p
     \<and> tab_good n p T S (urb_tab data) \<and> acks_good n T S (urbacks data)
     \<and> good_queue R n S (task_q data) \<and> net_good R n S (net_out data)"

definition sightings_ok :: "nat \<Rightarrow> u32 \<Rightarrow> sightings \<Rightarrow> bool" where
  "sightings_ok n T S \<longleftrightarrow> (\<forall>(q, s) \<in> S. 1 \<le> q \<and> q \<le> n \<and> s < T)"

subsection \<open>More sightings\<close>

lemma attested_mono: "attested n S i s \<Longrightarrow> S \<subseteq> S' \<Longrightarrow> attested n S' i s"
  by (auto simp: attested_def)

lemma quorum_mono:
  assumes "quorum n S s" "S \<subseteq> S'"
  shows "quorum n S' s"
proof -
  have "card {q. 1 \<le> q \<and> q \<le> n \<and> (q, s) \<in> S} \<le> card {q. 1 \<le> q \<and> q \<le> n \<and> (q, s) \<in> S'}"
    by (rule card_mono) (use assms(2) in auto)
  with assms(1) show ?thesis by (simp add: quorum_def)
qed

lemma carries_mono: "carries R n m \<Longrightarrow> R \<le> R' \<Longrightarrow> carries R' n m"
  by (auto simp: carries_def split: ptr.splits)

lemma good_msg_mono: "good_msg R n S m \<Longrightarrow> R \<le> R' \<Longrightarrow> S \<subseteq> S' \<Longrightarrow> good_msg R' n S' m"
  by (auto simp: good_msg_def good_urb_def intro: attested_mono carries_mono)

lemma good_queue_mono: "good_queue R n S q \<Longrightarrow> R \<le> R' \<Longrightarrow> S \<subseteq> S' \<Longrightarrow> good_queue R' n S' q"
  by (auto simp: good_queue_def intro: good_msg_mono)

lemma good_bytes_mono: "good_bytes R n S bs \<Longrightarrow> R \<le> R' \<Longrightarrow> S \<subseteq> S' \<Longrightarrow> good_bytes R' n S' bs"
  unfolding good_bytes_def using good_msg_mono by blast

lemma acks_good_mono: "acks_good n T S d \<Longrightarrow> S \<subseteq> S' \<Longrightarrow> acks_good n T S' d"
  unfolding acks_good_def using attested_mono by blast

lemma tab_good_mono: "tab_good n p T S t \<Longrightarrow> S \<subseteq> S' \<Longrightarrow> tab_good n p T S' t"
  unfolding tab_good_def using quorum_mono by blast

lemma net_good_mono: "net_good R n S out \<Longrightarrow> R \<le> R' \<Longrightarrow> S \<subseteq> S' \<Longrightarrow> net_good R' n S' out"
  unfolding net_good_def using good_bytes_mono by blast

lemma urb_inv_mono: "urb_inv R n p T S data \<Longrightarrow> R \<le> R' \<Longrightarrow> S \<subseteq> S' \<Longrightarrow> urb_inv R' n p T S' data"
  unfolding urb_inv_def
  by (elim conjE, intro conjI)
    (assumption | erule tab_good_mono acks_good_mono good_queue_mono net_good_mono, assumption+)+

section \<open>The operations keep the invariant\<close>

lemma attested_in_range:
  assumes "sizes n T" "sightings_ok n T S" "attested n S i s"
  shows "unat i < n * unat T"
proof -
  from assms(3) obtain q where q: "1 \<le> q" "q \<le> n" "(q, s) \<in> S" "i = mid_of n s q"
    by (auto simp: attested_def)
  from assms(2) q(3) have s: "s < T" by (auto simp: sightings_ok_def)
  then have "unat s + 1 \<le> unat T" by (simp add: word_less_nat_alt)
  then have "n * unat s + n \<le> n * unat T"
    by (metis Suc_eq_plus1 add.commute mult_Suc_right mult_le_mono2)
  with unat_mid_of [OF assms(1) s q(1,2)] q show ?thesis by simp
qed

lemma set_ack_urb_good:
  assumes "sizes n T" "sightings_ok n T S" "acks_good n T S d" "attested n S i s"
  shows "on_ret (set_ack_urb e d i) (\<lambda>(r, d'). r \<le> 0 \<and> acks_good n T S d')"
proof (cases "MAX_SIZE < i")
  case True
  then have "set_ack_urb e d i = ret (err ERROR_TABLE, d)"
    by (simp add: set_ack_urb_def table_write_too_big)
  with assms(3) show ?thesis by simp
next
  case False
  have "i \<in> table_ids (urb_ack_tab d)"
    using attested_in_range [OF assms(1,2,4)] assms(3) False
    by (simp add: table_ids_nat acks_good_def word_less_nat_alt)
  with set_ack_urb_in_range [of d i e] assms(3) obtain d' where
    d': "set_ack_urb e d i = ret (0, d')" "table_ok (urb_ack_tab d')"
      "total_entries (urb_ack_tab d') = total_entries (urb_ack_tab d)"
      "no_process (urb_ack_tab d') = no_process (urb_ack_tab d)"
      "table_view (urb_ack_tab d') = (table_view (urb_ack_tab d))(i := 1)"
    unfolding acks_good_def by blast
  have "\<exists>s. attested n S j s" if "table_view (urb_ack_tab d') j \<noteq> 0" for j
  proof (cases "j = i")
    case True
    with assms(4) show ?thesis by blast
  next
    case False
    with that d'(5) have "table_view (urb_ack_tab d) j \<noteq> 0" by simp
    with assms(3) show ?thesis unfolding acks_good_def by blast
  qed
  then have "acks_good n T S d'" using assms(3) d'(2-4) unfolding acks_good_def by metis
  with d'(1) show ?thesis by simp
qed

lemma add_seen_effect:
  assumes "sizes n T" "urb_ok t" "urb_total_entries t = T"
  shows "on_ret (add_seen_urb e t s) (\<lambda>(r, t'). r \<le> 0 \<and> (r = 0 \<longrightarrow> s < T \<and> urb_ok t'
    \<and> urb_total_entries t' = T \<and> seen_view t' = (seen_view t)(s := 1) \<and> delivered_view t' = delivered_view t))"
proof (cases "s \<in> urb_ids t")
  case True
  from add_seen_in_range [OF assms(2) True, of e] obtain t' where
    "add_seen_urb e t s = ret (0, t')" "urb_ok t'" "urb_total_entries t' = urb_total_entries t"
    "seen_view t' = (seen_view t)(s := 1)" "delivered_view t' = delivered_view t" by blast
  moreover have "s < T" using True assms(3) by (simp add: urb_ids_def)
  ultimately show ?thesis using assms(3) by (simp del: fun_upd_apply)
next
  case False
  have pos: "0 < urb_total_entries t" using assms(1,3) by (simp add: sizes_def word_less_nat_alt)
  show ?thesis
  proof (cases "MAX_SIZE_URB < s")
    case True
    then show ?thesis by (simp add: add_seen_urb_def)
  next
    case small: False
    with False have "urb_total_entries t \<le> s" by (auto simp: urb_ids_def)
    with urb_grow_beyond [OF assms(2) pos this, of e] small show ?thesis
      by (simp add: add_seen_urb_def)
  qed
qed

lemma add_delivered_effect:
  assumes "sizes n T" "urb_ok t" "urb_total_entries t = T"
  shows "on_ret (add_delivered_urb e t s) (\<lambda>(r, t'). r \<le> 0 \<and> (r = 0 \<longrightarrow> urb_ok t'
    \<and> urb_total_entries t' = T \<and> delivered_view t' = (delivered_view t)(s := 1) \<and> seen_view t' = seen_view t))"
proof (cases "s \<in> urb_ids t")
  case True
  from add_delivered_in_range [OF assms(2) True, of e] obtain t' where
    "add_delivered_urb e t s = ret (0, t')" "urb_ok t'" "urb_total_entries t' = urb_total_entries t"
    "delivered_view t' = (delivered_view t)(s := 1)" "seen_view t' = seen_view t" by blast
  then show ?thesis using assms(3) by (simp del: fun_upd_apply)
next
  case False
  have pos: "0 < urb_total_entries t" using assms(1,3) by (simp add: sizes_def word_less_nat_alt)
  show ?thesis
  proof (cases "MAX_SIZE_URB < s")
    case True
    then show ?thesis by (simp add: add_delivered_urb_def)
  next
    case small: False
    with False have "urb_total_entries t \<le> s" by (auto simp: urb_ids_def)
    with urb_grow_beyond [OF assms(2) pos this, of e] small show ?thesis
      by (simp add: add_delivered_urb_def)
  qed
qed

text \<open>A copy of the clock of a message is a null pointer or has the same entries.\<close>

definition copy_of :: "nat \<Rightarrow> vec_clock \<Rightarrow> vec_clock \<Rightarrow> bool" where
  "copy_of n c' c \<longleftrightarrow> (case vector c' of
     Arr xs \<Rightarrow> (case vector c of Arr ys \<Rightarrow> take n xs = take n ys | _ \<Rightarrow> False) | _ \<Rightarrow> True)"

lemma alloc_vector_copy:
  assumes "n < 2 ^ 32"
  shows "on_ret (alloc_vector e c0 (of_nat n) (vector c)) (\<lambda>(r, c'). r \<le> 0 \<and> copy_of n c' c)"
proof -
  have "unat (of_nat n :: u32) = n" using assms by (rule unat_of_nat_u32)
  then show ?thesis
    by (auto simp: alloc_vector_def Let_def copy_of_def on_ret_def bnd_eq_ret read_block_eq_ret)
qed

lemma carries_copy:
  assumes "carries R n m" "copy_of n c (lcb_clock (lcb_part m))" "seen_id m' = seen_id m"
    "lcb_clock (lcb_part m') = c"
  shows "carries R n m'"
  using assms by (auto simp: carries_def copy_of_def split: ptr.splits)

lemma good_beb_message:
  assumes "good_urb R n S m" "copy_of n c (lcb_clock (lcb_part m))"
  shows "good_msg R n S (with_clock (beb_message k self m i) c)"
proof -
  have "carries R n (urb_part (with_clock (beb_message k self m i) c))"
    by (rule carries_copy [OF _ assms(2)]) (use assms(1) in \<open>simp_all add: good_urb_def with_clock_def beb_message_def\<close>)
  with assms(1) show ?thesis
    by (simp add: good_msg_def good_urb_def from_origin_def with_clock_def beb_message_def ACK_NO_def)
qed

lemma enqueue_code: "on_ret (enqueue e q t) (\<lambda>(r, q'). r \<le> 0)"
  unfolding enqueue_def realloc_queue_def Let_def by auto

lemma enqueue_good:
  assumes "good_queue R n S q" "good_msg R n S (task_msg t)"
  shows "on_ret (enqueue e q t) (\<lambda>(r, q'). r \<le> 0 \<and> good_queue R n S q')"
proof (cases "queue_mutex q")
  case True
  then have "enqueue e q t = hang" by (simp add: enqueue_def)
  then show ?thesis by simp
next
  case False
  with assms(1) have q: "queue_ok q" "\<forall>t \<in> set (queue_tasks q). good_msg R n S (task_msg t)"
    by (auto simp: good_queue_def)
  have "good_queue R n S q' \<and> r \<le> 0" if "enqueue e q t = ret (r, q')" for r q'
    using enqueue_ret [OF q(1) that] q(2) assms(2) on_retD [OF enqueue_code that]
    by (auto simp: good_queue_def)
  then show ?thesis by (simp add: on_ret_def)
qed

lemma beb_loop_good:
  assumes "good_urb R n S m" "n < 2 ^ 32" "num_proc data = n" "good_queue R n S (task_q data)"
  shows "on_ret (beb_loop e data m i k) (\<lambda>(r, d'). r \<le> 0 \<and> d' = data\<lparr>task_q := task_q d'\<rparr> \<and> good_queue R n S (task_q d'))"
  using assms(3,4)
proof (induction k arbitrary: data i)
  case 0
  with 0 show ?case by simp
next
  case (Suc k)
  have IH: "on_ret (beb_loop e (data\<lparr>task_q := q\<rparr>) m (Suc i) k)
      (\<lambda>(r, d'). r \<le> 0 \<and> d' = data\<lparr>task_q := task_q d'\<rparr> \<and> good_queue R n S (task_q d'))" if "good_queue R n S q" for q
    using Suc.IH [of "data\<lparr>task_q := q\<rparr>" "Suc i"] Suc.prems(1) that by simp
  show ?case
  proof (cases "(of_nat i :: u32) = of_nat (self_pid data)")
    case True
    with Suc show ?thesis by simp
  next
    case False
    have good: "good_msg R n S (task_msg \<lparr>pid_dest = j, task_msg = with_clock (beb_message k self m i) c\<rparr>)"
      if "copy_of n c (lcb_clock (lcb_part m))" for j k self i c
      using good_beb_message [OF assms(1) that] by simp
    have clock: "lcb_clock (lcb_part (urb_part (beb_message k self m i))) = lcb_clock (lcb_part m)" for k self i
      by (simp add: beb_message_def)
    from False show ?thesis
      by (auto simp: Let_def Suc.prems(1) clock intro!: on_ret_mono [OF alloc_vector_copy [OF assms(2)]]
          on_ret_mono [OF enqueue_good [OF Suc.prems(2) good]] IH)
  qed
qed

lemma send_beb_good:
  assumes "good_urb R n S m" "n < 2 ^ 32" "num_proc data = n" "good_queue R n S (task_q data)"
  shows "on_ret (send_beb e data m) (\<lambda>(r, d'). r \<le> 0 \<and> (\<exists>q. d' = data\<lparr>task_q := q\<rparr> \<and> good_queue R n S q))"
proof -
  have "on_ret (send_beb e data m)
      (\<lambda>(r, d'). r \<le> 0 \<and> d' = data\<lparr>task_q := task_q d'\<rparr> \<and> good_queue R n S (task_q d'))"
    unfolding send_beb_def
    by (auto intro!: on_ret_mono [OF beb_loop_good [OF assms]] on_ret_any [where m = "free x" for x])
  then show ?thesis by (rule on_ret_mono) auto
qed

section \<open>The handlers\<close>

text \<open>
  What a call that has returned 0 has done: \<open>p\<close> has seen \<open>s\<close>, nothing else, and the
  invariant holds for the larger set of sightings.
\<close>

definition urb_post :: "carried \<Rightarrow> nat \<Rightarrow> nat \<Rightarrow> u32 \<Rightarrow> sightings \<Rightarrow> net_data \<Rightarrow> u32 \<Rightarrow> int \<times> net_data \<Rightarrow> bool" where
  "urb_post R n p T S data s = (\<lambda>(r, d'). r \<le> 0 \<and> (r = 0 \<longrightarrow> s < T
     \<and> urb_inv R n p T (insert (p, s) S) d' \<and> seen_set d' = insert s (seen_set data)))"

lemma sightings_insert: "sightings_ok n T S \<Longrightarrow> 1 \<le> p \<Longrightarrow> p \<le> n \<Longrightarrow> s < T \<Longrightarrow> sightings_ok n T (insert (p, s) S)"
  by (auto simp: sightings_ok_def)

lemma attested_self: "1 \<le> p \<Longrightarrow> p \<le> n \<Longrightarrow> attested n (insert (p, s) S) (mid_of n s p) s"
  by (auto simp: attested_def)

lemma add_seen_good:
  assumes "sizes n T" "tab_good n p T S t"
  shows "on_ret (add_seen_urb e t s) (\<lambda>(r, t'). r \<le> 0 \<and> (r = 0 \<longrightarrow> s < T
    \<and> tab_good n p T (insert (p, s) S) t' \<and> {i. seen_view t' i \<noteq> 0} = insert s {i. seen_view t i \<noteq> 0}))"
proof -
  have t: "urb_ok t" "urb_total_entries t = T" using assms(2) by (simp_all add: tab_good_def)
  have "tab_good n p T (insert (p, s) S) t" by (rule tab_good_mono [OF assms(2)]) auto
  then show ?thesis
    by (intro on_ret_mono [OF add_seen_effect [OF assms(1) t]]) (auto simp: tab_good_def split: if_splits)
qed

lemma add_delivered_good:
  assumes "sizes n T" "tab_good n p T S t" "quorum n S s"
  shows "on_ret (add_delivered_urb e t s) (\<lambda>(r, t'). r \<le> 0 \<and> (r = 0 \<longrightarrow>
    tab_good n p T S t' \<and> seen_view t' = seen_view t))"
proof -
  have t: "urb_ok t" "urb_total_entries t = T" using assms(2) by (simp_all add: tab_good_def)
  show ?thesis using assms(2,3)
    by (intro on_ret_mono [OF add_delivered_effect [OF assms(1) t]]) (auto simp: tab_good_def split: if_splits)
qed

lemma send_urb_inv:
  assumes sz: "sizes n T" and S: "sightings_ok n T S" and p: "1 \<le> p" "p \<le> n"
    and inv: "urb_inv R n p T S data"
    and l: "seen_id_of n f < T \<Longrightarrow> unat (lcb_original_sender l) = unat (seen_id_of n f) mod n + 1"
    and c: "vector (lcb_clock l) = Arr xs" "seen_id_of n f < T \<Longrightarrow> R (seen_id_of n f) (take n xs)"
  shows "on_ret (send_urb e data f l) (urb_post R n p T S data (seen_id_of n f))"
proof -
  let ?s = "seen_id_of n f" let ?S = "insert (p, ?s) S"
  from inv have np: "num_proc data = n" "self_pid data = p" "tab_good n p T S (urb_tab data)"
    by (simp_all add: urb_inv_def)
  note n32 = sizes_small [OF sz]
  have inv': "acks_good n T ?S (urbacks data)" "good_queue R n ?S (task_q data)" "net_good R n ?S (net_out data)"
    using urb_inv_mono [OF inv order.refl, of ?S] by (auto simp: urb_inv_def)
  show ?thesis
  proof (cases "?s < T")
    case False
    then show ?thesis
      unfolding send_urb_def Let_def np
      by (auto simp: urb_post_def intro!: on_ret_mono [OF add_seen_good [OF sz np(3)]])
  next
    case True
    have S': "sightings_ok n T ?S" by (rule sightings_insert [OF S p True])
    have good: "good_urb R n ?S \<lparr>lcb_part = l, fifo_part = f, seen_id = ?s, urb_mid = mid_of n ?s p\<rparr>"
      using attested_self [OF p] l [OF True] c(1) c(2) [OF True] by (simp add: good_urb_def from_origin_def carries_def)
    show ?thesis
      unfolding send_urb_def Let_def np
      by (auto simp: urb_post_def urb_inv_def seen_set_def np inv' intro!: on_ret_mono [OF add_seen_good [OF sz np(3)]]
          on_ret_mono [OF set_ack_urb_good [OF sz S' inv'(1) attested_self [OF p]]]
          on_ret_mono [OF log_urb_broadcast_code] on_ret_mono [OF send_beb_good [OF good n32]])
  qed
qed

lemma ackers_quorum:
  assumes sz: "sizes n T" and S: "sightings_ok n T S" and d: "acks_good n T S d" and s: "s < T"
    and can: "can_deliver d s = ret 1"
  shows "quorum n S s"
proof -
  let ?t = "urb_ack_tab d"
  have n: "unat (of_nat n :: u32) = n"
    using sz by (intro unat_of_nat_u32) (auto simp: sizes_def)
  have t: "table_ok ?t" "unat (no_process ?t) = n" using d n by (simp_all add: acks_good_def)
  have row: "unat s * n + n \<le> n * unat T"
    using s by (metis Suc_leI add.commute mult.commute mult_Suc_right mult_le_mono2 word_less_nat_alt)
  then have "unat s * unat (no_process ?t) + unat (no_process ?t) < 2 ^ 32"
    using sz t(2) by (simp add: sizes_def)
  from can_deliver_spec [OF t(1) this] can t(2) have "n div 2 < card (ackers d s)"
    by (auto split: if_splits)
  also have "card (ackers d s) \<le> card {q. 1 \<le> q \<and> q \<le> n \<and> (q, s) \<in> S}"
  proof (rule card_inj_on_le [where f = Suc])
    show "Suc ` ackers d s \<subseteq> {q. 1 \<le> q \<and> q \<le> n \<and> (q, s) \<in> S}"
    proof clarsimp
      fix k assume k: "k \<in> ackers d s"
      then have kn: "k < n" and "table_view ?t (s * no_process ?t + of_nat k) = 1"
        using t(2) by (simp_all add: ackers_def)
      moreover have "s * no_process ?t + of_nat k = mid_of n s (Suc k)"
        using d by (simp add: mid_of_def acks_good_def algebra_simps)
      ultimately have "table_view ?t (mid_of n s (Suc k)) \<noteq> 0" by simp
      with d obtain s' where "attested n S (mid_of n s (Suc k)) s'"
        unfolding acks_good_def by blast
      then obtain q where q: "1 \<le> q" "q \<le> n" "(q, s') \<in> S" "mid_of n s (Suc k) = mid_of n s' q"
        by (auto simp: attested_def)
      moreover have s': "s' < T" using q(3) S by (auto simp: sightings_ok_def)
      ultimately have "s = s' \<and> Suc k = q" using mid_of_inj [OF sz s, of s' "Suc k" q] kn by simp
      with q kn show "Suc k \<le> n \<and> (Suc k, s) \<in> S" by simp
    qed
  qed auto
  finally show ?thesis by (simp add: quorum_def)
qed

lemma can_deliver_01: "on_ret (can_deliver d s) (\<lambda>c. c = 0 \<or> can_deliver d s = ret 1)"
  by (auto simp: can_deliver_def Let_def on_ret_def bnd_eq_ret)

lemma urb_inv_core:
  assumes "lcb_core d = lcb_core data"
  shows "urb_inv R n p T S d = urb_inv R n p T S data \<and> seen_set d = seen_set data"
  unfolding urb_inv_def seen_set_def lcb_core_sel [OF assms] by simp

lemma deliver_lcb_keeps:
  "on_ret (deliver_lcb e data m) (\<lambda>(r, d). r \<le> 0 \<and> urb_inv R n p T S d = urb_inv R n p T S data
     \<and> seen_set d = seen_set data)"
  by (rule on_ret_mono [OF deliver_lcb_core])
    (simp only: split_paired_all prod.case, blast dest: urb_inv_core)

lemma try_deliver_inv:
  assumes sz: "sizes n T" and S: "sightings_ok n T S" and s: "seen_id m < T"
    and inv: "urb_inv R n p T S data"
  shows "on_ret (urb_try_deliver e data m) (\<lambda>(r, d'). r \<le> 0
    \<and> (r = 0 \<longrightarrow> urb_inv R n p T S d' \<and> seen_set d' = seen_set data))"
proof (cases "can_deliver (urbacks data) (seen_id m) = ret 1")
  case False
  with inv show ?thesis unfolding urb_try_deliver_def
    by (auto intro!: on_ret_mono [OF can_deliver_01])
next
  case True
  from inv have c: "num_proc data = n" "self_pid data = p" "tab_good n p T S (urb_tab data)"
    "acks_good n T S (urbacks data)" "good_queue R n S (task_q data)" "net_good R n S (net_out data)"
    by (simp_all add: urb_inv_def)
  note q = ackers_quorum [OF sz S c(4) s True]
  from True c show ?thesis
    unfolding urb_try_deliver_def
    by (auto simp: Let_def urb_inv_def [of _ _ _ _ _ "data\<lparr>urb_tab := t\<rparr>" for t] urb_inv_def [of _ _ _ _ _ data]
        seen_set_def [of "data\<lparr>urb_tab := t\<rparr>" for t] seen_set_def [of data]
        intro!: on_ret_any [where m = "is_delivered_urb t s" for t s]
        on_ret_mono [OF add_delivered_good [OF sz c(3) q]]
        on_ret_mono [OF deliver_lcb_keeps [where n = n and p = p and T = T and S = S]])
qed

text \<open>
  \<open>deliver_urb\<close> on a good message. A message that was seen before adds nothing to the
  sightings; a new one is relayed.
\<close>

lemma urb_relay_inv:
  assumes sz: "sizes n T" and S: "sightings_ok n T S" and p: "1 \<le> p" "p \<le> n"
    and inv: "urb_inv R n p T S data" and m: "from_origin n m" "carries R n m"
  shows "on_ret (urb_relay e data m) (urb_post R n p T S data (seen_id m))"
proof -
  let ?s = "seen_id m" let ?S = "insert (p, ?s) S"
  from inv have np: "num_proc data = n" "self_pid data = p" "tab_good n p T S (urb_tab data)"
    by (simp_all add: urb_inv_def)
  note n32 = sizes_small [OF sz]
  have inv': "acks_good n T ?S (urbacks data)" "good_queue R n ?S (task_q data)" "net_good R n ?S (net_out data)"
    using urb_inv_mono [OF inv order.refl, of ?S] by (auto simp: urb_inv_def)
  show ?thesis
  proof (cases "?s < T")
    case False
    then show ?thesis
      unfolding urb_relay_def Let_def np
      by (auto simp: urb_post_def intro!: on_ret_mono [OF add_seen_good [OF sz np(3)]])
  next
    case True
    have S': "sightings_ok n T ?S" by (rule sightings_insert [OF S p True])
    have good: "good_urb R n ?S (m\<lparr>urb_mid := mid_of n ?s p, lcb_part := (lcb_part m)\<lparr>lcb_clock := c\<rparr>\<rparr>)"
      if "copy_of n c (lcb_clock (lcb_part m))" for c
      using attested_self [OF p] m(1) carries_copy [OF m(2) that] by (simp add: good_urb_def from_origin_def)
    show ?thesis
      unfolding urb_relay_def Let_def np
      by (auto simp: urb_post_def urb_inv_def seen_set_def np inv'
          intro!: on_ret_mono [OF add_seen_good [OF sz np(3)]] on_ret_mono [OF alloc_vector_copy [OF n32]]
          on_ret_mono [OF set_ack_urb_good [OF sz S' inv'(1) attested_self [OF p]]]
          on_ret_mono [OF send_beb_good [OF good n32]])
  qed
qed

lemma deliver_urb_inv:
  assumes sz: "sizes n T" and S: "sightings_ok n T S" and p: "1 \<le> p" "p \<le> n"
    and inv: "urb_inv R n p T S data" and m: "good_urb R n S m"
  shows "on_ret (deliver_urb e data m) (urb_post R n p T S data (seen_id m))"
proof -
  let ?s = "seen_id m" let ?S = "insert (p, ?s) S"
  from inv have c: "tab_good n p T S (urb_tab data)" "acks_good n T S (urbacks data)"
    by (simp_all add: urb_inv_def)
  from m S have sT: "?s < T" by (auto simp: good_urb_def attested_def sightings_ok_def)
  have S': "sightings_ok n T ?S" by (rule sightings_insert [OF S p sT])
  have att: "attested n S (urb_mid m) ?s" and orig: "from_origin n m" "carries R n m" using m by (simp_all add: good_urb_def)
  have relay: "on_ret (if v = 0 then urb_relay e d m else ret (0, d)) (urb_post R n p T S data ?s)"
    if d: "urb_inv R n p T S d" "seen_set d = seen_set data" and v: "is_seen_urb (urb_tab data) ?s = ret v" for v d
  proof (cases "v = 0")
    case True
    from urb_relay_inv [OF sz S p d(1) orig, of e] d(2) True show ?thesis by (simp add: urb_post_def)
  next
    case False
    have "urb_ok (urb_tab data)" using c(1) by (simp add: tab_good_def)
    with v False have "seen_view (urb_tab data) ?s \<noteq> 0" by (simp add: is_seen_view)
    then have "?s \<in> seen_set data" "(p, ?s) \<in> S"
      using c(1) by (simp_all add: seen_set_def tab_good_def)
    then show ?thesis using False d sT by (simp add: urb_post_def insert_absorb)
  qed
  have rest: "on_ret (urb_try_deliver e d m) (urb_post R n p T S data ?s)"
    if "urb_post R n p T S data ?s (0, d)" for d
  proof -
    from that have "urb_inv R n p T ?S d" "seen_set d = insert ?s (seen_set data)"
      by (simp_all add: urb_post_def)
    with sT show ?thesis
      by (auto simp: urb_post_def intro!: on_ret_mono [OF try_deliver_inv [OF sz S' sT]])
  qed
  have upd: "urb_inv R n p T S (data\<lparr>urbacks := d\<rparr>)" "seen_set (data\<lparr>urbacks := d\<rparr>) = seen_set data"
    if "acks_good n T S d" for d
    using that inv by (simp_all add: urb_inv_def seen_set_def)
  have "on_ret (is_seen_urb (urb_tab data) ?s) (\<lambda>v.
      on_ret (if v = 0 then urb_relay e d m else ret (0, d)) (\<lambda>(r, d).
      on_ret (if r \<noteq> 0 then ret (r, d) else urb_try_deliver e d m) (urb_post R n p T S data ?s)))"
    if d: "urb_inv R n p T S d" "seen_set d = seen_set data" for d
    unfolding on_ret_def [of "is_seen_urb (urb_tab data) ?s"]
    by (intro allI impI on_ret_mono [OF relay [OF d]]) (assumption, auto intro!: rest)
  from this [OF upd] have tail: "on_ret (is_seen_urb (urb_tab data) ?s) (\<lambda>v.
      on_ret (if v = 0 then urb_relay e (data\<lparr>urbacks := d\<rparr>) m else ret (0, data\<lparr>urbacks := d\<rparr>)) (\<lambda>(r, d).
      on_ret (if r \<noteq> 0 then ret (r, d) else urb_try_deliver e d m) (urb_post R n p T S data ?s)))"
    if "acks_good n T S d" for d using that by blast
  show ?thesis
    unfolding deliver_urb_def Let_def on_ret_bnd
  proof (rule on_ret_mono [OF set_ack_urb_good [OF sz S c(2) att]], clarify)
    fix r d assume r: "r \<le> (0 :: int)" and d: "acks_good n T S d"
    show "on_ret (if r \<noteq> 0 then ret (r, data\<lparr>urbacks := d\<rparr>)
        else bnd (is_seen_urb (urb_tab (data\<lparr>urbacks := d\<rparr>)) ?s) (\<lambda>v.
          bnd (if v = 0 then urb_relay e (data\<lparr>urbacks := d\<rparr>) m else ret (0, data\<lparr>urbacks := d\<rparr>)) (\<lambda>(r, data).
          if r \<noteq> 0 then ret (r, data) else urb_try_deliver e data m))) (urb_post R n p T S data ?s)"
    proof (cases "r = 0")
      case True
      then show ?thesis using tail [OF d] by (simp add: case_prod_unfold)
    next
      case False
      with r show ?thesis by (simp add: urb_post_def)
    qed
  qed
qed

end
