(* ===== verification/LinkInv.thy ===== *)
theory LinkInv
  imports UrbSpec
begin

text \<open>
  The invariant of uniform reliable broadcast through the layers below and above it: what
  a turn of the receiver thread, a round of a sender thread and a broadcast do to it.
\<close>

section \<open>Datagrams\<close>

lemma alloc_vector_granted:
  assumes "alloc_vector e c k v = ret (0, c')"
  shows "alloc_vector (with_memory e) c k v = ret (0, c')"
  using assms by (auto simp: alloc_vector_def Let_def split: if_splits)

lemma serialize_granted:
  assumes "serialize e m n = ret (0, buf)"
  shows "serialize (with_memory e) m n = ret (0, buf)" "sendable n m"
proof -
  have j: "temp_junk (with_memory e) n = temp_junk e n"
    by (simp add: temp_junk_def with_memory_def)
  from assms have g: "grant e (message_size n)" by (auto simp: serialize_def split: if_splits)
  with assms show "serialize (with_memory e) m n = ret (0, buf)"
    by (simp add: serialize_def j)
  show "sendable n m"
  proof (cases "mtype m = 1")
    case False
    with assms g show ?thesis
      by (auto simp: serialize_def Let_def bnd_eq_ret read_block_eq_ret sendable_def)
  qed (simp add: sendable_def)
qed

lemma deserialize_granted:
  assumes "deserialize e m0 buf n = ret (0, m)"
  shows "deserialize (with_memory e) m0 buf n = ret (0, m)"
proof -
  have step: "bnd (alloc_vector e c k v) (\<lambda>(r, c). if r \<noteq> 0 then ret (r, f c) else ret (0, f c)) = ret (0, m)
    \<Longrightarrow> bnd (alloc_vector (with_memory e) c k v) (\<lambda>(r, c). if r \<noteq> 0 then ret (r, f c) else ret (0, f c))
        = ret (0, m)" for c k v and f :: "vec_clock \<Rightarrow> msg"
    by (auto simp: bnd_eq_ret dest: alloc_vector_granted split: if_splits)
  from assms show ?thesis
    by (auto simp: deserialize_def Let_def bnd_eq_ret [of "load p i" for p i] split: if_splits intro!: step)
qed

lemma wire_good:
  "sendable n m \<Longrightarrow> wire_of n m' = wire_of n m \<Longrightarrow> good_msg R n S m \<Longrightarrow> good_msg R n S m'"
  by (auto simp: wire_of_def sendable_def good_msg_def good_urb_def from_origin_def carries_def clock_entries_def
      ACK_NO_def split: if_splits ptr.splits)

lemma datagram_good:
  assumes "datagram_of e n m bs" "good_msg R n S m" "n < 2 ^ 32"
  shows "good_bytes R n S bs"
  unfolding good_bytes_def
proof (intro conjI allI impI)
  show "length bs = message_size n" using assms(1) by (simp add: datagram_of_def)
  fix e' m0 r m' assume "deserialize e' m0 (Arr bs) n = ret (r, m')" "r = 0"
  then have d: "deserialize (with_memory e') m0 (Arr bs) n = ret (0, m')"
    by (simp add: deserialize_granted)
  from assms(1) have "serialize e m n = ret (0, Arr bs)" by (simp add: datagram_of_def)
  note s = serialize_granted [OF this]
  obtain m'' where "deserialize (with_memory e') m0 (Arr bs) n = ret (0, m'')" "wire_of n m'' = wire_of n m"
    using wire_roundtrip [where m = m and e = "with_memory e" and e' = "with_memory e'" and ?m0.0 = m0, OF s(2)
        grant_with_memory grant_with_memory assms(3) s(1)] by (elim exE conjE) (rule that)
  with d have "wire_of n m' = wire_of n m" by simp
  from wire_good [OF s(2) this assms(2)] show "good_msg R n S m'" by blast
qed

lemma send_fl_good:
  assumes "good_msg R n S m" "net_good R n S (net_out data)" "num_proc data = n" "n < 2 ^ 32"
  shows "on_ret (send_fl e data pid m) (\<lambda>(r, d'). \<exists>out. d' = data\<lparr>net_out := out\<rparr> \<and> net_good R n S out)"
proof -
  have "\<exists>out. d' = data\<lparr>net_out := out\<rparr> \<and> net_good R n S out" if "send_fl e data pid m = ret (r, d')" for r d'
    using send_fl_ret [OF that]
  proof (elim disjE conjE exE)
    assume "d' = data"
    then have "d' = data\<lparr>net_out := net_out data\<rparr>" by (cases data) simp
    with assms(2) show ?thesis by blast
  next
    fix a bs assume "datagram_of e (num_proc data) m bs" "d' = data\<lparr>net_out := net_out data @ [(a, bs)]\<rparr>"
    moreover from this have "good_bytes R n S bs" using datagram_good assms by blast
    then have "net_good R n S (net_out data @ [(a, bs)])" using assms(2) by (simp add: net_good_def)
    ultimately show ?thesis by blast
  qed
  then show ?thesis by (simp add: on_ret_def)
qed

lemma dequeue_good:
  assumes "good_queue R n S q"
  shows "on_ret (dequeue q) (\<lambda>(r, t, q'). good_queue R n S q'
    \<and> (case t of None \<Rightarrow> True | Some t \<Rightarrow> good_msg R n S (task_msg t)))"
proof (cases "queue_mutex q")
  case True
  then show ?thesis by (simp add: dequeue_def)
next
  case False
  with assms have q: "queue_ok q" "\<forall>t \<in> set (queue_tasks q). good_msg R n S (task_msg t)"
    by (auto simp: good_queue_def)
  show ?thesis
  proof (cases "queue_tasks q")
    case Nil
    with dequeue_empty [OF q(1)] assms show ?thesis by simp
  next
    case (Cons t ts)
    from dequeue_ok [OF q(1) Cons] q(2) Cons show ?thesis by (auto simp: good_queue_def)
  qed
qed

section \<open>What a step of a process may do\<close>

text \<open>
  The process has seen the messages of some set \<open>N\<close>, all in \<open>M\<close>, and the invariant holds
  for the sightings that include them.
\<close>

definition grows :: "carried \<Rightarrow> nat \<Rightarrow> nat \<Rightarrow> u32 \<Rightarrow> sightings \<Rightarrow> u32 set \<Rightarrow> net_data \<Rightarrow> net_data \<Rightarrow> bool" where
  "grows R n p T S M data d' \<longleftrightarrow> (\<exists>N \<subseteq> M. (\<forall>s \<in> N. s < T) \<and> seen_set d' = seen_set data \<union> N
     \<and> urb_inv R n p T (S \<union> {p} \<times> N) d')"

lemma grows_same: "urb_inv R n p T S d' \<Longrightarrow> seen_set d' = seen_set data \<Longrightarrow> grows R n p T S M data d'"
  unfolding grows_def by (rule exI [of _ "{}"]) simp

lemma grows_one:
  "s < T \<Longrightarrow> s \<in> M \<Longrightarrow> urb_inv R n p T (insert (p, s) S) d' \<Longrightarrow> seen_set d' = insert s (seen_set data)
    \<Longrightarrow> grows R n p T S M data d'"
  unfolding grows_def by (rule exI [of _ "{s}"]) simp

lemma urb_post_grows:
  "urb_post R n p T S data s (0, d') \<Longrightarrow> s \<in> M \<Longrightarrow> grows R n p T S M data d'"
  by (auto simp: urb_post_def intro: grows_one)

lemma urb_inv_pl [simp]:
  "urb_inv R n p T S (data\<lparr>pl_acks := a\<rparr>) = urb_inv R n p T S data"
  "urb_inv R n p T S (data\<lparr>pl_deliv := d\<rparr>) = urb_inv R n p T S data"
  "seen_set (data\<lparr>pl_acks := a\<rparr>) = seen_set data"
  "seen_set (data\<lparr>pl_deliv := d\<rparr>) = seen_set data"
  "seen_set (data\<lparr>net_out := out\<rparr>) = seen_set data"
  "seen_set (data\<lparr>task_q := q\<rparr>) = seen_set data"
  by (simp_all add: urb_inv_def seen_set_def)

lemma urb_inv_out:
  "urb_inv R n p T S data \<Longrightarrow> net_good R n S out \<Longrightarrow> urb_inv R n p T S (data\<lparr>net_out := out\<rparr>)"
  by (simp add: urb_inv_def)

lemma urb_inv_queue: "urb_inv R n p T S data \<Longrightarrow> good_queue R n S q \<Longrightarrow> urb_inv R n p T S (data\<lparr>task_q := q\<rparr>)"
  by (simp add: urb_inv_def)

lemma good_urb_origin: "good_urb R n S m \<Longrightarrow> seen_id m \<in> snd ` S"
  by (force simp: good_urb_def attested_def)

lemma deliver_pl_inv:
  assumes sz: "sizes n T" and S: "sightings_ok n T S" and p: "1 \<le> p" "p \<le> n"
    and inv: "urb_inv R n p T S data" and m: "good_msg R n S m"
  shows "on_ret (deliver_pl e data m) (\<lambda>(r, d'). r < 0 \<or> grows R n p T S (snd ` S) data d')"
proof (cases "mtype m = ACK_NO")
  case True
  then show ?thesis unfolding deliver_pl_def Let_def
    by (auto intro!: on_ret_any [where m = "set_ack e a i" for a i] grows_same inv)
next
  case False
  with m have good: "good_urb R n S (urb_part m)" by (simp add: good_msg_def)
  have ack: "good_msg R n S (ack_msg e data m)" by (simp add: good_msg_def ack_msg_def)
  have c: "num_proc data = n" "net_good R n S (net_out data)" using inv by (simp_all add: urb_inv_def)
  have up: "on_ret (deliver_beb e d (urb_part m)) (\<lambda>(r, d'). r < 0 \<or> (\<not> r < 0 \<and> grows R n p T S (snd ` S) data d'))"
    if d: "urb_inv R n p T S d" "seen_set d = seen_set data" for d
  proof -
    have "urb_post R n p T S d (seen_id (urb_part m)) (r, d') \<Longrightarrow> \<not> r < 0
        \<Longrightarrow> grows R n p T S (snd ` S) data d'" for r d'
      using d(2) good_urb_origin [OF good]
      by (cases "r = 0") (auto simp: urb_post_def intro: grows_one)
    then show ?thesis unfolding deliver_beb_def
      by (intro on_ret_mono [OF deliver_urb_inv [OF sz S p d(1) good]]) auto
  qed
  from False show ?thesis unfolding deliver_pl_def Let_def
    by (auto intro!: on_ret_mono [OF send_fl_good [OF ack c(2,1) sizes_small [OF sz]]]
        on_ret_any [where m = "is_delivered d i" for d i] on_ret_any [where m = "set_delivered e d i" for d i]
        on_ret_mono [OF up] grows_same urb_inv_out inv)
qed

lemma receive_good:
  assumes "num_proc data = n" "good_bytes R n S bs"
  shows "on_ret (receive_msg e data (Arr (replicate (message_size n) 0)) (Some bs) m0)
      (\<lambda>(r, m, _). r = 0 \<longrightarrow> good_msg R n S m)"
  using assms unfolding good_bytes_def
  by (auto simp: receive_msg_def Let_def on_ret_def bnd_eq_ret split: if_splits)

lemma receiver_turn_inv:
  assumes sz: "sizes n T" and S: "sightings_ok n T S" and p: "1 \<le> p" "p \<le> n"
    and inv: "urb_inv R n p T S data" and bs: "good_bytes R n S bs"
  shows "on_ret (receiver_turn e data (Some bs) m0) (\<lambda>(x, d', _). x = None \<longrightarrow> grows R n p T S (snd ` S) data d')"
proof -
  have np: "num_proc data = n" using inv by (simp add: urb_inv_def)
  show ?thesis
    unfolding receiver_turn_def Let_def np process_msg_def deliver_fl_def
    by (auto intro!: on_ret_mono [OF receive_good [OF np bs]] on_ret_mono [OF deliver_pl_inv [OF sz S p inv]]
        on_ret_any [where m = "free x" for x])
qed

lemma send_pl_round_inv:
  assumes sz: "sizes n T" and inv: "urb_inv R n p T S data" and m: "good_msg R n S m"
  shows "on_ret (send_pl_round e pid data m i) (\<lambda>(_, d'). urb_inv R n p T S d' \<and> seen_set d' = seen_set data)"
proof -
  have c: "num_proc data = n" "net_good R n S (net_out data)" "good_queue R n S (task_q data)"
    using inv by (simp_all add: urb_inv_def)
  have q: "good_msg R n S (task_msg \<lparr>pid_dest = pid, task_msg = m\<rparr>)" using m by simp
  show ?thesis
    unfolding send_pl_round_def Let_def
    by (auto intro!: on_ret_any [where m = "is_ack a i" for a i] on_ret_mono [OF enqueue_good [OF c(3) q]]
        on_ret_mono [OF send_fl_good [OF m]] urb_inv_queue urb_inv_out inv
        simp: c sizes_small [OF sz, simplified])
qed

text \<open>The clock that \<open>send_lcb\<close> puts into message \<open>i\<close>: that of the process, with the number of
  its earlier messages as its own entry.\<close>

definition clock_sent :: "nat \<Rightarrow> nat \<Rightarrow> net_data \<Rightarrow> nat \<Rightarrow> u32 list" where
  "clock_sent n p data i = (map (clock_val (vector_clock data)) [0..<n])[p - 1 := of_nat (i - 1)]"

lemma get_copy_clock:
  assumes "num_proc data = n" "n < 2 ^ 32"
  shows "on_ret (get_vec_clock_copy e data c) (\<lambda>(r, c', d). r = 0 \<longrightarrow>
    (\<forall>p i v. store (vector c') (p - 1) (of_nat (i - 1)) = ret v \<longrightarrow> v = Arr (clock_sent n p data i)))"
proof -
  have un: "unat (of_nat n :: u32) = n" using assms(2) by (rule unat_of_nat_u32)
  have "take n xs = map (clock_val (vector_clock data)) [0..<n]"
    if "vector (vector_clock data) = Arr xs" "n \<le> length xs" for xs
    using that by (intro nth_equalityI) (simp_all add: clock_val_def)
  then show ?thesis
    by (auto simp: get_vec_clock_copy_def Let_def alloc_vector_def assms(1) un on_ret_def bnd_eq_ret
        read_block_eq_ret store_eq_ret clock_sent_def split: if_splits)
qed

lemma send_lcb_round_inv:
  assumes sz: "sizes n T" and S: "sightings_ok n T S" and p: "1 \<le> p" "p \<le> n"
    and inv: "urb_inv R n p T S data"
    and orig: "seen_id_of n \<lparr>sequence_num = of_nat i, original_sender = of_nat p\<rparr> < T \<Longrightarrow>
      unat (seen_id_of n \<lparr>sequence_num = of_nat i, original_sender = of_nat p\<rparr>) mod n + 1 = p"
    and R: "seen_id_of n \<lparr>sequence_num = of_nat i, original_sender = of_nat p\<rparr> < T \<Longrightarrow>
      R (seen_id_of n \<lparr>sequence_num = of_nat i, original_sender = of_nat p\<rparr>) (clock_sent n p data i)"
  shows "on_ret (send_lcb_round e data l i) (\<lambda>(r, _, d'). r = 0 \<longrightarrow>
    seen_id_of n \<lparr>sequence_num = of_nat i, original_sender = of_nat p\<rparr> < T
    \<and> grows R n p T S {seen_id_of n \<lparr>sequence_num = of_nat i, original_sender = of_nat p\<rparr>} data d'
    \<and> seen_id_of n \<lparr>sequence_num = of_nat i, original_sender = of_nat p\<rparr> \<in> seen_set d')"
proof -
  have np: "self_pid data = p" using inv by (simp add: urb_inv_def)
  have np': "num_proc data = n" using inv by (simp add: urb_inv_def)
  let ?id = "seen_id_of n \<lparr>sequence_num = of_nat i, original_sender = of_nat p\<rparr>"
  have core: "on_ret (get_vec_clock_copy e data c) (\<lambda>(_, _, d). urb_inv R n p T S d \<and> seen_set d = seen_set data)" for c
    by (rule on_ret_mono [OF get_vec_clock_copy_core])
      (use inv in \<open>simp only: split_paired_all prod.case, blast dest: urb_inv_core\<close>)
  have copy: "on_ret (get_vec_clock_copy e data c) (\<lambda>(r, c', d). urb_inv R n p T S d \<and> seen_set d = seen_set data
      \<and> (r = 0 \<longrightarrow> on_ret (store (vector c') (size_dec p) (of_nat (i - 1))) (\<lambda>v. v = Arr (clock_sent n p data i))))" for c
    by (rule on_ret_mono [OF on_ret_conj [OF core get_copy_clock [OF np' sizes_small [OF sz]]]])
      (use p in \<open>auto simp: on_ret_def size_dec_def\<close>)
  have R': "R ?id (take n (clock_sent n p data i))" if "?id < T"
    using R [OF that] by (simp add: clock_sent_def)
  have send: "on_ret (send_urb e d f l) (\<lambda>(r, d'). r = 0 \<longrightarrow> seen_id_of n f < T
      \<and> grows R n p T S {seen_id_of n f} data d' \<and> seen_id_of n f \<in> seen_set d')"
    if d: "urb_inv R n p T S d" "seen_set d = seen_set data"
      and l: "seen_id_of n f < T \<Longrightarrow> unat (lcb_original_sender l) = unat (seen_id_of n f) mod n + 1"
      and x: "vector (lcb_clock l) = Arr xs" "seen_id_of n f < T \<Longrightarrow> R (seen_id_of n f) (take n xs)" for d f l xs
    by (rule on_ret_mono [OF send_urb_inv [OF sz S p d(1) l x]])
      (use d(2) in \<open>auto simp: urb_post_def intro: grows_one\<close>)
  have "p < 2 ^ 32" using p(2) sizes_small [OF sz] by simp
  then have up: "unat (of_nat p :: u32) = p" by (rule unat_of_nat_u32)
  have orig': "p = Suc (unat (seen_id_of n \<lparr>sequence_num = of_nat i, original_sender = of_nat p\<rparr>) mod n)"
    if "seen_id_of n \<lparr>sequence_num = of_nat i, original_sender = of_nat p\<rparr> < T" using orig [OF that] by simp
  have pid: "self_pid d = p" if "urb_inv R n p T S d" for d using that by (simp add: urb_inv_def)
  show ?thesis
    unfolding send_lcb_round_def Let_def
    by (auto intro!: on_ret_mono [OF copy] on_ret_mono [OF send] orig' R' elim!: on_ret_mono simp: pid up)
qed

end
