(* ===== verification/Delivery.thy ===== *)
theory Delivery
  imports LinkInv
begin

text \<open>
  What one turn of a thread can do to the record of delivered messages and to the state of
  localized causal broadcast, in any environment and for any datagram; that every data
  message is acknowledged; how the threads end; the identifiers of messages.
\<close>

section \<open>At most one delivery\<close>

text \<open>
  Nothing was handed to localized causal broadcast, or one message that had not been
  handed to it before.
\<close>

definition lcb_same :: "net_data \<Rightarrow> net_data \<Rightarrow> bool" where
  "lcb_same data d \<longleftrightarrow> vector_clock d = vector_clock data \<and> pending_lcb d = pending_lcb data"

definition once :: "net_data \<Rightarrow> net_data \<Rightarrow> bool" where
  "once data d \<longleftrightarrow> (lcb_same data d \<and> delivered_set d = delivered_set data)
     \<or> (\<exists>s. s \<notin> delivered_set data \<and> delivered_set d = insert s (delivered_set data))"

text \<open>The relay touches neither.\<close>

definition quiet :: "u32 \<Rightarrow> net_data \<Rightarrow> net_data \<Rightarrow> bool" where
  "quiet T data d \<longleftrightarrow> lcb_same data d \<and> urb_ok (urb_tab d) \<and> urb_total_entries (urb_tab d) = T
     \<and> delivered_set d = delivered_set data"

definition tab_fit :: "nat \<Rightarrow> u32 \<Rightarrow> net_data \<Rightarrow> bool" where
  "tab_fit n T data \<longleftrightarrow> sizes n T \<and> urb_ok (urb_tab data) \<and> urb_total_entries (urb_tab data) = T"

lemma quiet_refl: "tab_fit n T data \<Longrightarrow> quiet T data data"
  by (simp add: quiet_def tab_fit_def lcb_same_def)

lemma quiet_once: "quiet T data d \<Longrightarrow> once data d"
  by (simp add: quiet_def once_def)

lemma quiet_trans: "quiet T a b \<Longrightarrow> quiet T b c \<Longrightarrow> quiet T a c"
  by (simp add: quiet_def lcb_same_def)

lemma quiet_update [simp]:
  "quiet T data (d\<lparr>task_q := q\<rparr>) = quiet T data d"
  "quiet T data (d\<lparr>urbacks := a\<rparr>) = quiet T data d"
  "quiet T data (d\<lparr>net_out := out\<rparr>) = quiet T data d"
  "quiet T data (d\<lparr>pl_deliv := t\<rparr>) = quiet T data d"
  "quiet T data (d\<lparr>pl_acks := k\<rparr>) = quiet T data d"
  "quiet T data (d\<lparr>logdata := l\<rparr>) = quiet T data d"
  by (simp_all add: quiet_def lcb_same_def delivered_set_def)

lemma beb_loop_only_queue: "on_ret (beb_loop e data m i k) (\<lambda>(_, d). \<exists>q. d = data\<lparr>task_q := q\<rparr>)"
proof (induction k arbitrary: data i)
  case 0
  have "\<exists>q. data = data\<lparr>task_q := q\<rparr>" by (rule exI [of _ "task_q data"]) simp
  then show ?case by simp
next
  case (Suc k)
  have IH: "on_ret (beb_loop e (data\<lparr>task_q := q\<rparr>) m j k) (\<lambda>(_, d). \<exists>q. d = data\<lparr>task_q := q\<rparr>)" for q j
    using Suc [of "data\<lparr>task_q := q\<rparr>" j] by simp
  show ?case
    by (auto simp: Let_def intro!: on_ret_any [where m = "alloc_vector e c v x" for c v x]
        on_ret_any [where m = "enqueue e q t" for q t] IH Suc)
      (rule exI, rule refl)
qed

lemma send_beb_only_queue: "on_ret (send_beb e data m) (\<lambda>(_, d). \<exists>q. d = data\<lparr>task_q := q\<rparr>)"
  unfolding send_beb_def
  by (auto intro!: on_ret_mono [OF beb_loop_only_queue] on_ret_any [where m = "free x" for x])

lemma urb_relay_quiet:
  assumes "tab_fit n T data"
  shows "on_ret (urb_relay e data m) (\<lambda>(r, d). r = 0 \<longrightarrow> quiet T data d)"
proof -
  have t: "sizes n T" "urb_ok (urb_tab data)" "urb_total_entries (urb_tab data) = T"
    using assms by (simp_all add: tab_fit_def)
  show ?thesis
    unfolding urb_relay_def
    by (auto simp: Let_def intro!: on_ret_mono [OF add_seen_effect [OF t]] on_ret_mono [OF alloc_vector_code]
        on_ret_any [where m = "set_ack_urb e x i" for x i] on_ret_mono [OF send_beb_only_queue])
      (auto simp: quiet_def lcb_same_def delivered_set_def)
qed

lemma deliver_lcb_tab: "on_ret (deliver_lcb e data m) (\<lambda>(_, d). urb_tab d = urb_tab data)"
  by (rule on_ret_mono [OF deliver_lcb_core]) (auto dest: lcb_core_sel)

lemma once_insert:
  "s \<notin> delivered_set data \<Longrightarrow> delivered_view (urb_tab d) = (delivered_view (urb_tab data))(s := 1) \<Longrightarrow> once data d"
  unfolding once_def by (intro disjI2 exI [of _ s]) (auto simp: delivered_set_def)

lemma once_refl [simp]: "once data data"
  by (simp add: once_def lcb_same_def)

lemma try_deliver_once:
  assumes "tab_fit n T data"
  shows "on_ret (urb_try_deliver e data m) (\<lambda>(r, d). r = 0 \<longrightarrow> once data d)"
proof -
  have t: "sizes n T" "urb_ok (urb_tab data)" "urb_total_entries (urb_tab data) = T"
    using assms by (simp_all add: tab_fit_def)
  have fresh: "on_ret (is_delivered_urb (urb_tab data) s) (\<lambda>v. v = 0 \<longrightarrow> s \<notin> delivered_set data)" for s
    by (simp add: is_delivered_view [OF t(2)] delivered_set_def)
  show ?thesis
    unfolding urb_try_deliver_def
    by (auto simp: Let_def simp del: fun_upd_apply
        intro!: on_ret_any [where m = "can_deliver a i" for a i]
        on_ret_mono [OF fresh] on_ret_mono [OF add_delivered_effect [OF t]] on_ret_mono [OF deliver_lcb_tab])
      (auto intro: once_insert)
qed

lemma quiet_then_once:
  assumes "quiet T data d" "once d d'"
  shows "once data d'"
  using assms by (auto simp: quiet_def once_def lcb_same_def)

lemma quiet_fit: "tab_fit n T data \<Longrightarrow> quiet T data d \<Longrightarrow> tab_fit n T d"
  by (simp add: quiet_def tab_fit_def)

lemma deliver_urb_once:
  assumes "tab_fit n T data"
  shows "on_ret (deliver_urb e data m) (\<lambda>(r, d). r = 0 \<longrightarrow> once data d)"
proof -
  have fit: "tab_fit n T (data\<lparr>urbacks := a\<rparr>)" for a using assms by (simp add: tab_fit_def)
  have q: "quiet T data (data\<lparr>urbacks := a\<rparr>)" for a using quiet_refl [OF assms] by simp
  have try_it: "on_ret (urb_try_deliver e d m) (\<lambda>(r, d'). r = 0 \<longrightarrow> once data d')" if "quiet T data d" for d
    by (rule on_ret_mono [OF try_deliver_once [OF quiet_fit [OF assms that]]])
      (auto intro: quiet_then_once [OF that])
  have relay: "on_ret (urb_relay e (data\<lparr>urbacks := a\<rparr>) m) (\<lambda>(r, d). r = 0 \<longrightarrow> quiet T data d)" for a
    by (rule on_ret_mono [OF urb_relay_quiet [OF fit]]) (auto intro: quiet_trans [OF q])
  show ?thesis
    unfolding deliver_urb_def
    by (auto simp: Let_def intro!: on_ret_any [where m = "set_ack_urb e x i" for x i]
        on_ret_any [where m = "is_seen_urb t i" for t i] on_ret_mono [OF relay] try_it q)
qed

lemma fit_inv: "sizes n T \<Longrightarrow> urb_inv R n p T S data \<Longrightarrow> tab_fit n T data"
  by (simp add: tab_fit_def urb_inv_def tab_good_def)

lemma once_update [simp]:
  "once data (data\<lparr>net_out := out\<rparr>)" "once data (data\<lparr>pl_acks := k\<rparr>)"
  "once data (data\<lparr>net_out := out, pl_deliv := t\<rparr>)" "once data (data\<lparr>pl_acks := k, task_q := q\<rparr>)"
  "once data (data\<lparr>pl_acks := k, net_out := out\<rparr>)" "once data (data\<lparr>task_q := q\<rparr>)"
  by (simp_all add: once_def lcb_same_def delivered_set_def)

lemma deliver_pl_once:
  assumes sz: "sizes n T" and S: "sightings_ok n T S" and p: "1 \<le> p" "p \<le> n"
    and inv: "urb_inv R n p T S data" and m: "good_msg R n S m"
  shows "on_ret (deliver_pl e data m) (\<lambda>(r, d'). r < 0 \<or> once data d')"
proof (cases "mtype m = ACK_NO")
  case True
  then show ?thesis unfolding deliver_pl_def Let_def
    by (auto intro!: on_ret_any [where m = "set_ack e a i" for a i])
next
  case False
  with m have good: "good_urb R n S (urb_part m)" by (simp add: good_msg_def)
  have ack: "good_msg R n S (ack_msg e data m)" by (simp add: good_msg_def ack_msg_def)
  have c: "num_proc data = n" "net_good R n S (net_out data)" using inv by (simp_all add: urb_inv_def)
  have q: "quiet T data d" if "d = data\<lparr>net_out := out, pl_deliv := t\<rparr>" for d out t
    using quiet_refl [OF fit_inv [OF sz inv]] that by simp
  have up: "on_ret (deliver_beb e (data\<lparr>net_out := out, pl_deliv := t\<rparr>) (urb_part m))
      (\<lambda>(r, d'). r < 0 \<or> (\<not> r < 0 \<and> once data d'))" if "net_good R n S out" for out t
  proof -
    let ?d = "data\<lparr>net_out := out, pl_deliv := t\<rparr>"
    have d: "urb_inv R n p T S ?d" using inv that by (simp add: urb_inv_def)
    have "urb_post R n p T S ?d (seen_id (urb_part m)) (r, d') \<Longrightarrow> (r = 0 \<longrightarrow> once ?d d')
        \<Longrightarrow> \<not> r < 0 \<Longrightarrow> once data d'" for r d'
      using quiet_then_once [OF q [OF refl]] by (simp add: urb_post_def)
    then show ?thesis unfolding deliver_beb_def
      by (intro on_ret_mono [OF on_ret_conj [OF deliver_urb_inv [OF sz S p d good]
              deliver_urb_once [OF fit_inv [OF sz d]]]]) auto
  qed
  from False show ?thesis unfolding deliver_pl_def Let_def
    by (auto intro!: on_ret_mono [OF send_fl_good [OF ack c(2,1) sizes_small [OF sz]]]
        on_ret_any [where m = "is_delivered d i" for d i] on_ret_any [where m = "set_delivered e d i" for d i]
        on_ret_mono [OF up])
qed

lemma receiver_turn_once:
  assumes sz: "sizes n T" and S: "sightings_ok n T S" and p: "1 \<le> p" "p \<le> n"
    and inv: "urb_inv R n p T S data" and bs: "good_bytes R n S bs"
  shows "on_ret (receiver_turn e data (Some bs) m0) (\<lambda>(x, d', _). x = None \<longrightarrow> once data d')"
proof -
  have np: "num_proc data = n" using inv by (simp add: urb_inv_def)
  show ?thesis
    unfolding receiver_turn_def Let_def np process_msg_def deliver_fl_def
    by (auto intro!: on_ret_mono [OF receive_good [OF np bs]] on_ret_mono [OF deliver_pl_once [OF sz S p inv]]
        on_ret_any [where m = "free x" for x])
qed

lemma send_fl_only_out: "on_ret (send_fl e data pid m) (\<lambda>(_, d). \<exists>out. d = data\<lparr>net_out := out\<rparr>)"
proof -
  have same: "\<exists>out. data = data\<lparr>net_out := out\<rparr>" by (rule exI [of _ "net_out data"]) simp
  show ?thesis
    unfolding send_fl_def send_message_def
    by (auto simp: same split: option.splits intro!: on_ret_any [where m = "get_addr b i" for b i]
        on_ret_any [where m = "serialize e m i" for m i] on_ret_any [where m = "read_block b i" for b i]
        on_ret_any [where m = "free b" for b])
      (rule exI, rule refl)
qed

lemma send_pl_round_once: "on_ret (send_pl_round e pid data m i) (\<lambda>(_, d). once data d)"
  unfolding send_pl_round_def Let_def
  by (auto intro!: on_ret_any [where m = "is_ack a i" for a i] on_ret_any [where m = "enqueue e q t" for q t]
      on_ret_mono [OF send_fl_only_out])

lemma get_copy_same:
  "on_ret (get_vec_clock_copy e data c) (\<lambda>(r, _, d). r = 0 \<longrightarrow> d = data)"
proof -
  have "data\<lparr>vector_clock := vector_clock data\<lparr>vc_mutex := False\<rparr>\<rparr> = data" if "\<not> vc_mutex (vector_clock data)"
    using that by (cases data, cases "vector_clock data") simp
  then show ?thesis
    by (cases "vc_mutex (vector_clock data)")
      (auto simp: get_vec_clock_copy_def Let_def intro!: on_ret_any [where m = "alloc_vector e c k v" for c k v])
qed

lemma send_lcb_round_once:
  assumes "tab_fit n T data"
  shows "on_ret (send_lcb_round e data l i) (\<lambda>(r, _, d). r = 0 \<longrightarrow> once data d)"
proof -
  have t: "sizes n T" "urb_ok (urb_tab data)" "urb_total_entries (urb_tab data) = T"
    using assms by (simp_all add: tab_fit_def)
  have q: "quiet T data (data\<lparr>urb_tab := tb\<rparr>)" if "urb_ok tb" "urb_total_entries tb = T"
      "delivered_view tb = delivered_view (urb_tab data)" for tb
    using that by (simp add: quiet_def lcb_same_def delivered_set_def)
  have send: "on_ret (send_urb e data f lm) (\<lambda>(r, d'). r = 0 \<longrightarrow> quiet T data d')" for f lm
    unfolding send_urb_def Let_def
    by (auto simp: q intro!: on_ret_mono [OF add_seen_effect [OF t]]
        on_ret_any [where m = "set_ack_urb e x i" for x i] on_ret_any [where m = "log_urb_broadcast e x i" for x i]
        on_ret_mono [OF send_beb_only_queue]) (use q in blast)
  show ?thesis
    unfolding send_lcb_round_def Let_def
    by (auto intro!: on_ret_mono [OF get_copy_same] on_ret_any [where m = "store q j v" for q j v]
        on_ret_mono [OF send] quiet_once)
qed

section \<open>Every data message is acknowledged\<close>

text \<open>What uniform reliable broadcast does with a message touches neither the network nor the
  table of the perfect link.\<close>

definition link_same :: "net_data \<Rightarrow> net_data \<Rightarrow> bool" where
  "link_same data d \<longleftrightarrow> net_out d = net_out data \<and> pl_deliv d = pl_deliv data"

lemma link_same_refl: "link_same data data"
  by (simp add: link_same_def)

lemma link_same_update [simp]:
  "link_same data (d\<lparr>task_q := q\<rparr>) = link_same data d" "link_same data (d\<lparr>urbacks := a\<rparr>) = link_same data d"
  "link_same data (d\<lparr>urb_tab := t\<rparr>) = link_same data d" "link_same (data\<lparr>urbacks := a\<rparr>) d = link_same data d"
  "link_same (data\<lparr>urb_tab := t\<rparr>) d = link_same data d"
  by (simp_all add: link_same_def)

lemma deliver_lcb_link: "on_ret (deliver_lcb e data m) (\<lambda>(_, d). link_same data d)"
  by (rule on_ret_mono [OF deliver_lcb_core]) (auto simp: link_same_def dest: lcb_core_sel)

lemma send_beb_link: "on_ret (send_beb e data m) (\<lambda>(_, d). link_same data d)"
  by (rule on_ret_mono [OF send_beb_only_queue]) (auto simp: link_same_refl)

lemma urb_relay_link: "on_ret (urb_relay e data m) (\<lambda>(_, d). link_same data d)"
proof -
  have beb: "on_ret (send_beb e (data\<lparr>urb_tab := t, urbacks := a\<rparr>) x) (\<lambda>(_, d). link_same data d)" for t a x
    using send_beb_link [of e "data\<lparr>urb_tab := t, urbacks := a\<rparr>"] by simp
  show ?thesis
    unfolding urb_relay_def
    by (auto simp: Let_def link_same_refl intro!: on_ret_any [where m = "add_seen_urb e t i" for t i]
        on_ret_any [where m = "alloc_vector e c n v" for c n v] on_ret_any [where m = "set_ack_urb e x i" for x i]
        on_ret_mono [OF beb])
qed

lemma try_deliver_link: "on_ret (urb_try_deliver e data m) (\<lambda>(_, d). link_same data d)"
proof -
  have lcb: "on_ret (deliver_lcb e (data\<lparr>urb_tab := t\<rparr>) x) (\<lambda>(_, d). link_same data d)" for t x
    using deliver_lcb_link [of e "data\<lparr>urb_tab := t\<rparr>"] by simp
  show ?thesis
    unfolding urb_try_deliver_def
    by (auto simp: Let_def link_same_refl intro!: on_ret_any [where m = "can_deliver a i" for a i]
        on_ret_any [where m = "is_delivered_urb t i" for t i] on_ret_any [where m = "add_delivered_urb e t i" for t i]
        on_ret_mono [OF lcb])
qed

lemma link_same_trans: "link_same a b \<Longrightarrow> link_same b c \<Longrightarrow> link_same a c"
  by (simp add: link_same_def)

lemma deliver_urb_link: "on_ret (deliver_urb e data m) (\<lambda>(_, d). link_same data d)"
proof -
  have relay: "on_ret (urb_relay e (data\<lparr>urbacks := a\<rparr>) m) (\<lambda>(_, d). link_same data d)" for a
    using urb_relay_link [of e "data\<lparr>urbacks := a\<rparr>"] by simp
  have up: "on_ret (urb_try_deliver e d m) (\<lambda>(_, d'). link_same data d')" if "link_same data d" for d
    by (rule on_ret_mono [OF try_deliver_link]) (auto intro: link_same_trans [OF that])
  show ?thesis
    unfolding deliver_urb_def
    by (auto simp: Let_def link_same_refl intro!: on_ret_any [where m = "set_ack_urb e x i" for x i]
        on_ret_any [where m = "is_seen_urb t i" for t i] on_ret_mono [OF relay] up)
qed

text \<open>The table of delivered messages, with memory available.\<close>

lemma set_delivered_granted:
  assumes "table_ok (pl_tab v)" "\<And>n. grant e n"
  shows "if MAX_SIZE < mid then set_delivered e v mid = ret (err ERROR_TABLE, v)
    else \<exists>v'. set_delivered e v mid = ret (0, v') \<and> table_ok (pl_tab v') \<and> table_view (pl_tab v') mid = 1"
proof (cases "MAX_SIZE < mid")
  case True
  then show ?thesis by (simp add: set_delivered_def table_write_too_big)
next
  case False
  then have "mid \<le> MAX_SIZE" by simp
  from table_write_spec [OF assms(1) this, of e 1] assms(2) obtain t where
    "table_write_entry e (pl_tab v) mid 1 = ret (0, t)" "table_ok t" "table_view t mid = 1" by auto
  then have "set_delivered e v mid = ret (0, v\<lparr>pl_tab := t\<rparr>)" "table_ok (pl_tab (v\<lparr>pl_tab := t\<rparr>))"
    "table_view (pl_tab (v\<lparr>pl_tab := t\<rparr>)) mid = 1" by (simp_all add: set_delivered_def)
  with False show ?thesis by (simp only: if_False) blast
qed

text \<open>C15: every data message that arrives is acknowledged, delivered before or not. \<open>deliver_pl\<close>
  first sends one datagram, to the address of the sender, that decodes to an acknowledgement
  with the ids of the message. Then: a message delivered before has no other effect; an id
  above 8192 is refused with \<open>ERROR_TABLE\<close>; any other message is marked as delivered, with
  the acknowledgement already on the network, and handed to best-effort broadcast, whose
  errors are passed on and whose work adds no datagram and leaves the mark. (The sender is in
  the address book, \<open>sendto\<close> succeeds and memory is available.)\<close>

theorem deliver_pl_acks_every_message:
  assumes "mtype m \<noteq> ACK_NO" "book_ok (address_book data)" "unat (sender m) \<in> book_pids (address_book data)"
    and "\<And>n. grant e n" "sendto_ok e (length (net_out data))" "num_proc data < 2 ^ 32"
    and "table_ok (pl_tab (pl_deliv data))"
  shows "\<exists>bs. (\<forall>m0. \<exists>m'. deserialize e m0 (Arr bs) (num_proc data) = ret (0, m')
         \<and> wire_of (num_proc data) m' = WireAck (msg_mid m) (ackid m) (of_nat (self_pid data)))
    \<and> (let acked = data\<lparr>net_out := net_out data @ [(addr_of data (sender m), bs)]\<rparr> in
       if table_view (pl_tab (pl_deliv data)) (msg_mid m) \<noteq> 0 then deliver_pl e data m = ret (0, acked)
       else if MAX_SIZE < msg_mid m then deliver_pl e data m = ret (err ERROR_TABLE, acked)
       else \<exists>v. table_ok (pl_tab v) \<and> table_view (pl_tab v) (msg_mid m) = 1
         \<and> deliver_pl e data m = bnd (deliver_beb e (acked\<lparr>pl_deliv := v\<rparr>) (urb_part m))
             (\<lambda>(r, d). ret (if r < 0 then r else 0, d))
         \<and> (\<forall>r d. deliver_pl e data m = ret (r, d) \<longrightarrow> net_out d = net_out acked \<and> pl_deliv d = v))"
proof -
  let ?n = "num_proc data" and ?a = "ack_msg e data m"
  let ?bs = "msg_bytes e ?n ?a"
  let ?d = "data\<lparr>net_out := net_out data @ [(addr_of data (sender m), ?bs)]\<rparr>"
  have fl: "send_fl e data (sender m) ?a = ret (0, ?d)"
    by (rule send_fl_ok) (use assms ack_sendable in simp_all)
  from serialize_ok [OF ack_sendable [of ?n e data m], of e] assms(4)
  have ser: "serialize e ?a ?n = ret (0, Arr ?bs)" by (auto simp: msg_bytes_def)
  have dec: "\<exists>m'. deserialize e m0 (Arr ?bs) ?n = ret (0, m')
      \<and> wire_of ?n m' = WireAck (msg_mid m) (ackid m) (of_nat (self_pid data))" for m0
  proof -
    have "wire_of ?n ?a = WireAck (msg_mid m) (ackid m) (of_nat (self_pid data))"
      by (simp add: wire_of_def ack_msg_def ACK_NO_def)
    with wire_roundtrip [OF ack_sendable assms(4) assms(4) assms(6) ser, of m0] show ?thesis by auto
  qed
  note run = fl assms(1) table_read_view [OF assms(7)] deliver_pl_def is_delivered_def
  have rest: "if table_view (pl_tab (pl_deliv data)) (msg_mid m) \<noteq> 0 then deliver_pl e data m = ret (0, ?d)
       else if MAX_SIZE < msg_mid m then deliver_pl e data m = ret (err ERROR_TABLE, ?d)
       else \<exists>v. table_ok (pl_tab v) \<and> table_view (pl_tab v) (msg_mid m) = 1
         \<and> deliver_pl e data m = bnd (deliver_beb e (?d\<lparr>pl_deliv := v\<rparr>) (urb_part m))
             (\<lambda>(r, d). ret (if r < 0 then r else 0, d))
         \<and> (\<forall>r d. deliver_pl e data m = ret (r, d) \<longrightarrow> net_out d = net_out ?d \<and> pl_deliv d = v)"
  proof (cases "table_view (pl_tab (pl_deliv data)) (msg_mid m) \<noteq> 0 \<or> MAX_SIZE < msg_mid m")
    case True
    with set_delivered_granted [OF assms(7,4), of "msg_mid m"] run show ?thesis by (auto simp: Let_def)
  next
    case False
    with set_delivered_granted [OF assms(7,4), of "msg_mid m"] obtain v where
      v: "set_delivered e (pl_deliv data) (msg_mid m) = ret (0, v)" "table_ok (pl_tab v)"
        "table_view (pl_tab v) (msg_mid m) = 1" by auto
    have eq: "deliver_pl e data m = bnd (deliver_beb e (?d\<lparr>pl_deliv := v\<rparr>) (urb_part m))
             (\<lambda>(r, d). ret (if r < 0 then r else 0, d))"
      using False run v(1) by (auto simp: Let_def intro!: bnd_cong)
    have "net_out d = net_out ?d \<and> pl_deliv d = v" if "deliver_pl e data m = ret (r, d)" for r d
      using that on_retD [OF deliver_urb_link [of e "?d\<lparr>pl_deliv := v\<rparr>" "urb_part m"]]
      by (auto simp: eq bnd_eq_ret deliver_beb_def link_same_def)
    with eq v(2,3) False show ?thesis by auto
  qed
  with dec show ?thesis by (intro exI [of _ ?bs] conjI allI dec) (simp only: Let_def)
qed

text \<open>A message delivered before, and a new one.\<close>

theorem deliver_pl_acks_every_message_witness:
  "(\<exists>bs. deliver_pl good_env (sample\<lparr>pl_deliv := \<lparr>pl_tab = ack_tab acked_table\<rparr>\<rparr>) (sample_msg\<lparr>msg_mid := 1\<rparr>)
     = ret (0, sample\<lparr>pl_deliv := \<lparr>pl_tab = ack_tab acked_table\<rparr>, net_out := [(addr_of sample 1, bs)]\<rparr>))
   \<and> (\<exists>bs v. table_view (pl_tab v) 1 = 1 \<and> deliver_pl good_env sample (sample_msg\<lparr>msg_mid := 1\<rparr>)
     = bnd (deliver_beb good_env (sample\<lparr>net_out := [(addr_of sample 1, bs)], pl_deliv := v\<rparr>) (urb_part sample_msg))
         (\<lambda>(r, d). ret (if r < 0 then r else 0, d)))"
proof -
  let ?d = "sample\<lparr>pl_deliv := \<lparr>pl_tab = ack_tab acked_table\<rparr>\<rparr>" and ?m = "sample_msg\<lparr>msg_mid := 1\<rparr>"
  have old: "table_ok (pl_tab (pl_deliv ?d))" "table_view (pl_tab (pl_deliv ?d)) (msg_mid ?m) \<noteq> 0"
    and new: "table_ok (pl_tab (pl_deliv sample))" "table_view (pl_tab (pl_deliv sample)) (msg_mid ?m) = 0"
    and m: "mtype ?m \<noteq> ACK_NO" "addr_of ?d 1 = addr_of sample 1" "\<not> MAX_SIZE < msg_mid ?m"
    and book: "book_ok (address_book sample)" "unat (sender ?m) \<in> book_pids (address_book sample)"
    using acked_table sample_book
    by (simp_all add: sample_msg_def acks_ok_def ACK_NO_def addr_of_def MAX_SIZE_def table_ok_def
        sample_uid_table_def table_view_def word_le_nat_alt)
  have "\<exists>bs. deliver_pl good_env ?d ?m = ret (0, ?d\<lparr>net_out := [(addr_of sample 1, bs)]\<rparr>)"
    using deliver_pl_acks_every_message [of ?m ?d good_env] old m book by (auto simp: Let_def sample_msg_def)
  moreover have "\<exists>bs v. table_view (pl_tab v) 1 = 1 \<and> deliver_pl good_env sample ?m
     = bnd (deliver_beb good_env (sample\<lparr>net_out := [(addr_of sample 1, bs)], pl_deliv := v\<rparr>) (urb_part sample_msg))
         (\<lambda>(r, d). ret (if r < 0 then r else 0, d))"
    using deliver_pl_acks_every_message [of ?m sample good_env] new m book by (auto simp: Let_def sample_msg_def)
  ultimately show ?thesis by simp
qed

section \<open>Return codes\<close>

lemma send_pl_loop_code:
  "on_ret (send_pl_loop e others pid data m i) (\<lambda>(r, _). r \<le> 0 \<or> r = BACK_TO_QUEUE)"
proof (induction e others pid data m i rule: send_pl_loop.induct)
  case (1 e others pid data m i)
  have round: "on_ret (send_pl_round e pid data m i) (\<lambda>(x, d). send_pl_round e pid data m i = ret (x, d)
      \<and> (case x of None \<Rightarrow> True | Some r \<Rightarrow> r \<le> 0 \<or> r = BACK_TO_QUEUE))"
  proof -
    have "on_ret (send_pl_round e pid data m i) (\<lambda>(x, d). (case x of None \<Rightarrow> True | Some r \<Rightarrow> r \<le> 0 \<or> r = BACK_TO_QUEUE))"
      unfolding send_pl_round_def Let_def
      by (auto intro!: on_ret_any [where m = "is_ack a i" for a i] on_ret_mono [OF enqueue_code]
          on_ret_any [where m = "send_fl e d p m" for d p m])
    then show ?thesis by (simp add: on_ret_def)
  qed
  show ?case
    by (subst send_pl_loop.simps)
      (auto intro!: on_ret_mono [OF round] dest!: "1.IH" split: option.splits)
qed

lemma send_pl_code: "send_pl e others pid data m = ret (r, d) \<Longrightarrow> r \<le> 0 \<or> r = BACK_TO_QUEUE"
  using on_retD [OF send_pl_loop_code] by (fastforce simp: send_pl_def)

lemma sender_turn_codes:
  assumes "sender_turn e others data = ret (ended, task, data')"
  shows "(ended = None \<or> ended = Some (err ERROR_SEND)) \<and> (ended \<noteq> None \<longrightarrow> task \<noteq> None)
    \<and> (task \<noteq> None \<longrightarrow> (\<exists>r q. dequeue (task_q data) = ret (0, task, q)
        \<and> send_pl e others (pid_dest (the task)) (data\<lparr>task_q := q\<rparr>) (task_msg (the task)) = ret (r, data')
        \<and> (r \<le> 0 \<or> r = BACK_TO_QUEUE) \<and> (ended \<noteq> None \<longleftrightarrow> r < 0)))"
proof -
  from assms obtain r0 t q where dq: "dequeue (task_q data) = ret (r0, t, q)"
    by (auto simp: sender_turn_def bnd_eq_ret)
  show ?thesis
  proof (cases t)
    case None
    with assms dq show ?thesis by (simp add: sender_turn_def)
  next
    case (Some t')
    with dq have "r0 = 0" by (auto simp: dequeue_def bnd_eq_ret Let_def split: if_splits)
    from assms dq Some obtain r where
      pl: "send_pl e others (pid_dest t') (data\<lparr>task_q := q\<rparr>) (task_msg t') = ret (r, data')"
      and fin: "sender_finish t' r = ret ended" and task: "task = Some t'"
      by (auto simp: sender_turn_def bnd_eq_ret)
    have code: "r \<le> 0 \<or> r = BACK_TO_QUEUE"
      using on_retD [OF send_pl_loop_code pl [unfolded send_pl_def]] by simp
    have "ended = (if r < 0 then Some (err ERROR_SEND) else None)"
      using fin by (auto simp: sender_finish_def bnd_eq_ret split: if_splits)
    with pl code task dq \<open>r0 = 0\<close> Some show ?thesis by auto
  qed
qed

text \<open>
  One of the turns of a sender thread took a task for which \<open>send_pl\<close> reported an error, leaving
  the data as given.
\<close>

definition send_failed :: "sender_input list \<Rightarrow> net_data \<Rightarrow> net_data \<Rightarrow> bool" where
  "send_failed turns data data' \<longleftrightarrow> (\<exists>past e others idle rest d q t r.
     turns = past @ (e, others, idle) # rest \<and> sender_loop past data = ret (None, d)
     \<and> dequeue (task_q (idle d)) = ret (0, Some t, q)
     \<and> send_pl e others (pid_dest t) ((idle d)\<lparr>task_q := q\<rparr>) (task_msg t) = ret (r, data') \<and> r < 0)"

lemma send_failed_later:
  assumes "sender_turn e others (idle data) = ret (None, task, d)"
  shows "send_failed turns d data' \<Longrightarrow> send_failed ((e, others, idle) # turns) data data'"
proof -
  assume "send_failed turns d data'"
  then obtain past f o' i' rest d' q t r where f:
    "turns = past @ (f, o', i') # rest" "sender_loop past d = ret (None, d')"
    "dequeue (task_q (i' d')) = ret (0, Some t, q)"
    "send_pl f o' (pid_dest t) ((i' d')\<lparr>task_q := q\<rparr>) (task_msg t) = ret (r, data')" "r < 0"
    unfolding send_failed_def by blast
  have "(e, others, idle) # turns = ((e, others, idle) # past) @ (f, o', i') # rest"
    "sender_loop ((e, others, idle) # past) data = ret (None, d')" using assms f(1,2) by simp_all
  with f(3-5) show ?thesis unfolding send_failed_def by blast
qed

lemma sender_loop_ends:
  "sender_loop turns data = ret (ended, data') \<Longrightarrow>
     ended = None \<or> (ended = Some (Thread_exit (err ERROR_SEND)) \<and> send_failed turns data data')"
proof (induction turns arbitrary: data)
  case (Cons x turns)
  obtain e others idle where x: "x = (e, others, idle)" by (cases x)
  with Cons.prems obtain stop task d where turn: "sender_turn e others (idle data) = ret (stop, task, d)"
    and rest: "(case stop of Some code \<Rightarrow> ret (Some (Thread_exit code), d) | None \<Rightarrow> sender_loop turns d) = ret (ended, data')"
    by (auto simp: bnd_eq_ret)
  note codes = sender_turn_codes [OF turn]
  show ?case
  proof (cases stop)
    case None
    with rest Cons.IH turn show ?thesis by (auto simp: x intro: send_failed_later)
  next
    case (Some c)
    with codes rest obtain t r q where
      "dequeue (task_q (idle data)) = ret (0, Some t, q)" "r < 0"
      "send_pl e others (pid_dest t) ((idle data)\<lparr>task_q := q\<rparr>) (task_msg t) = ret (r, data')"
      and c: "ended = Some (Thread_exit (err ERROR_SEND))" by (cases task) auto
    then have "send_failed (x # turns) data data'"
      unfolding send_failed_def x by (intro exI [of _ "[]"]) auto
    with c show ?thesis by simp
  qed
qed simp

lemma sender_loop_failed:
  assumes "sender_loop turns data = ret (None, d)"
  shows "\<not> send_failed turns data data'"
proof
  assume "send_failed turns data data'"
  then obtain past e others idle rest d' q t r where f:
    "turns = past @ (e, others, idle) # rest" "sender_loop past data = ret (None, d')"
    "dequeue (task_q (idle d')) = ret (0, Some t, q)"
    "send_pl e others (pid_dest t) ((idle d')\<lparr>task_q := q\<rparr>) (task_msg t) = ret (r, data')" "r < 0"
    unfolding send_failed_def by blast
  have split: "sender_loop (xs @ ys) a = bnd (sender_loop xs a) (\<lambda>(x, b). case x of None \<Rightarrow> sender_loop ys b
      | Some c \<Rightarrow> ret (Some c, b))" for xs ys a
    by (induction xs arbitrary: a) (auto simp: bnd_assoc split: option.splits intro!: bnd_cong)
  from f(3-5) have "sender_turn e others (idle d') = ret (Some (err ERROR_SEND), Some t, data')"
    by (simp add: sender_turn_def sender_finish_def)
  with f(1,2) assms show False by (simp add: split)
qed

text \<open>C28: how a sender thread ends. A thread whose request for asynchronous cancellation is refused
  ends at once with \<open>ERROR_THREAD\<close> and has done nothing. Any other ends with \<open>ERROR_SEND\<close> exactly when
  \<open>send_pl\<close> has reported an error for a task it took from the queue, and runs on otherwise;
  in no case does it end the process. \<open>send_pl\<close> itself returns 0, the code that the task is
  back in the queue, or an error.\<close>

theorem sender_thread_codes:
  assumes "sender_f e turns data = ret (ended, data')"
  shows "(if \<not> canceltype_ok e then ended = Some (Thread_exit (err ERROR_THREAD)) \<and> data' = data
      else if send_failed turns data data' then ended = Some (Thread_exit (err ERROR_SEND))
      else ended = None)
    \<and> (send_pl e' others pid d m = ret (r, d') \<longrightarrow> r \<le> 0 \<or> r = BACK_TO_QUEUE)"
proof (cases "canceltype_ok e")
  case True
  with assms have run: "sender_loop turns data = ret (ended, data')" by (simp add: sender_f_def)
  from sender_loop_ends [OF run] sender_loop_failed [of turns data data' data'] run True
  show ?thesis by (auto dest: send_pl_code)
next
  case False
  with assms show ?thesis by (auto simp: sender_f_def dest: send_pl_code)
qed

text \<open>The receiver thread: refused at the start it ends alone; an error in a turn ends the process.\<close>

lemma receiver_loop_ends:
  "receiver_loop turns data m = ret (ended, data') \<Longrightarrow> ended \<noteq> Some (Thread_exit c)"
proof (induction turns arbitrary: data m)
  case (Cons x turns)
  then show ?case by (cases x) (auto simp: bnd_eq_ret split: option.splits)
qed simp

lemma receiver_thread_codes:
  assumes "receiver_f e turns data = ret (ended, data')"
  shows "ended = Some (Thread_exit c) \<longleftrightarrow> \<not> canceltype_ok e \<and> c = err ERROR_THREAD"
  using assms receiver_loop_ends [of turns data "receiver_start e" ended data' c]
  by (auto simp: receiver_f_def split: if_splits)

definition one_task :: net_data where
  "one_task = sample\<lparr>task_q := \<lparr>no_elem = 1, qsize = 1, q_front = 0, q_back = 0,
     elems = Arr [\<lparr>pid_dest = 2, task_msg = zero_msg\<lparr>mtype := 1\<rparr>\<rparr>], queue_mutex = False\<rparr>\<rparr>"

lemma one_task_fails:
  "case sender_turn (good_env\<lparr>sendto_ok := (\<lambda>_. False)\<rparr>) (\<lambda>_ d. d) one_task of
     Some (Ret (ended, task, _)) \<Rightarrow> ended = Some (err ERROR_SEND) \<and> map_option pid_dest task = Some 2
   | _ \<Rightarrow> False"
  by code_simp

theorem sender_thread_codes_witness:
  "(\<exists>d. sender_f good_env [(good_env\<lparr>sendto_ok := (\<lambda>_. False)\<rparr>, \<lambda>_ d. d, \<lambda>d. d)] one_task
      = ret (Some (Thread_exit (err ERROR_SEND)), d)
      \<and> send_failed [(good_env\<lparr>sendto_ok := (\<lambda>_. False)\<rparr>, \<lambda>_ d. d, \<lambda>d. d)] one_task d)
   \<and> sender_f (good_env\<lparr>canceltype_ok := False\<rparr>) [] one_task = ret (Some (Thread_exit (err ERROR_THREAD)), one_task)"
proof
  let ?turns = "[(good_env\<lparr>sendto_ok := (\<lambda>_. False)\<rparr>, \<lambda>_ d. d, \<lambda>d. d)] :: sender_input list"
  obtain task d where run: "sender_turn (good_env\<lparr>sendto_ok := (\<lambda>_. False)\<rparr>) (\<lambda>_ d. d) one_task
      = ret (Some (err ERROR_SEND), task, d)"
    using one_task_fails by (auto split: option.splits res.splits)
  then have "sender_f good_env ?turns one_task = ret (Some (Thread_exit (err ERROR_SEND)), d)"
    by (simp add: sender_f_def)
  moreover from conjunct1 [OF sender_thread_codes [OF this]] have "send_failed ?turns one_task d" by (simp split: if_splits)
  ultimately show "\<exists>d. sender_f good_env ?turns one_task = ret (Some (Thread_exit (err ERROR_SEND)), d)
      \<and> send_failed ?turns one_task d" by blast
  obtain ended d' where r: "sender_f (good_env\<lparr>canceltype_ok := False\<rparr>) [] one_task = ret (ended, d')"
    by (auto simp: sender_f_def)
  from conjunct1 [OF sender_thread_codes [OF r]] r show "sender_f (good_env\<lparr>canceltype_ok := False\<rparr>) [] one_task
      = ret (Some (Thread_exit (err ERROR_THREAD)), one_task)" by simp
qed

section \<open>Identifiers\<close>

text \<open>C24: as long as \<open>n\<close> times the number of messages fits into 32 bits, different broadcasts
  (number and process) get different identifiers \<open>seen_id\<close>, and the copies of all broadcasts
  at all processes get different identifiers \<open>urb_mid\<close>; both are the positions the tables use.\<close>

theorem identifiers_distinct:
  assumes "sizes n T" "i \<in> {1..k}" "i' \<in> {1..k}" "p \<in> {1..n}" "p' \<in> {1..n}" "n * k \<le> unat T"
    and "q \<in> {1..n}" "q' \<in> {1..n}"
  defines "s \<equiv> seen_id_of n \<lparr>sequence_num = of_nat i, original_sender = of_nat p\<rparr>"
    and "s' \<equiv> seen_id_of n \<lparr>sequence_num = of_nat i', original_sender = of_nat p'\<rparr>"
  shows "unat s = n * (i - 1) + (p - 1) \<and> (s = s' \<longleftrightarrow> i = i' \<and> p = p')
    \<and> (mid_of n s q = mid_of n s' q' \<longleftrightarrow> s = s' \<and> q = q')"
proof -
  have id: "unat (seen_id_of n \<lparr>sequence_num = of_nat j, original_sender = of_nat r\<rparr>) = n * (j - 1) + (r - 1)
      \<and> n * (j - 1) + (r - 1) < unat T" if "j \<in> {1..k}" "r \<in> {1..n}" for j r
  proof -
    from that(1) have "n * j \<le> n * k" by (intro mult_le_mono2) simp
    with assms(6) have le: "n * j \<le> unat T" by linarith
    moreover have "unat T < 2 ^ 32" using unat_u32_lt [of T] by simp
    ultimately have "n * j < 2 ^ 32" by linarith
    with le that unat_seen_id [of j r n] show ?thesis by simp
  qed
  from id [OF assms(2,4)] id [OF assms(3,5)] have u: "unat s = n * (i - 1) + (p - 1)" "s < T"
    "unat s' = n * (i' - 1) + (p' - 1)" "s' < T" by (simp_all add: s_def s'_def word_less_nat_alt)
  have m: "p - 1 < n" "p' - 1 < n" using assms(4,5) by auto
  have "s = s' \<longleftrightarrow> i = i' \<and> p = p'"
  proof
    assume "s = s'"
    with u have "n * (i - 1) + (p - 1) = n * (i' - 1) + (p' - 1)" by simp
    from index_inj [OF this m] have "i - 1 = i' - 1" "p - 1 = p' - 1" by auto
    with assms(2-5) show "i = i' \<and> p = p'" by auto
  qed (simp add: s_def s'_def)
  moreover have "mid_of n s q = mid_of n s' q' \<longleftrightarrow> s = s' \<and> q = q'"
    using mid_of_inj [OF assms(1) u(2,4), of q q'] assms(7,8) by auto
  ultimately show ?thesis using u(1) by blast
qed

theorem identifiers_distinct_witness:
  "mid_of 3 (seen_id_of 3 \<lparr>sequence_num = of_nat 2, original_sender = of_nat 1\<rparr>) 2
     \<noteq> mid_of 3 (seen_id_of 3 \<lparr>sequence_num = of_nat 2, original_sender = of_nat 3\<rparr>) 2"
  using identifiers_distinct [of 3 6 2 2 2 1 3 2 2] by (simp add: sizes_def)

section \<open>The first datagram\<close>

text \<open>C27: the message variable of the receiver thread is not initialised before the loop. If the
  first datagram it receives is an acknowledgement (for an id the table has room for),
  \<open>deserialize\<close> leaves the vector clock of the variable alone and the thread then frees the
  indeterminate pointer; after a data message the pointer is null and the same
  acknowledgement is harmless.\<close>

theorem first_ack_frees_wild:
  assumes "acks_ok (pl_acks data)" "ackid m \<in> table_ids (ack_tab (pl_acks data))"
    and "mtype m = ACK_NO" "\<And>k. grant e' k" "num_proc data < 2 ^ 32"
    and "serialize e' m (num_proc data) = ret (0, Arr bs)"
    and "\<And>k. grant e k"
  shows "receiver_turn e data (Some bs) (receiver_start e) = ub
    \<and> (vector (msg_clock m0) = Null \<longrightarrow> (\<exists>d' m'. receiver_turn e data (Some bs) m0 = ret (None, d', m')
      \<and> ack_view (pl_acks d') = (ack_view (pl_acks data))(ackid m := 1)))"
proof -
  let ?n = "num_proc data"
  have len: "length bs = message_size ?n" using serialize_ret [OF assms(6)] by simp
  have s: "sendable ?n m" using assms(3) by (simp add: sendable_def ACK_NO_def)
  have rec: "\<exists>m' buf. receive_msg e data (Arr (replicate (message_size ?n) 0)) (Some bs) mv = ret (0, m', buf)
      \<and> mtype m' = ACK_NO \<and> ackid m' = ackid m \<and> urb_part m' = urb_part mv" for mv
  proof -
    from wire_roundtrip [OF s assms(4,7,5,6), of mv] obtain m' where
      m': "deserialize e mv (Arr bs) ?n = ret (0, m')" "wire_of ?n m' = wire_of ?n m"
        "mtype m = 1 \<longrightarrow> urb_part m' = urb_part mv" by blast
    then have "mtype m' = ACK_NO" "ackid m' = ackid m" "urb_part m' = urb_part mv"
      using assms(3) by (auto simp: wire_of_def ACK_NO_def split: if_splits)
    with m'(1) len show ?thesis by (simp add: receive_msg_def Let_def)
  qed
  from set_ack_in_range [OF assms(1,2), of e] obtain acks where
    acks: "set_ack e (pl_acks data) (ackid m) = ret (0, acks)" "ack_view acks = (ack_view (pl_acks data))(ackid m := 1)"
    by blast
  have turn: "\<exists>m'. urb_part m' = urb_part mv \<and> receiver_turn e data (Some bs) mv
      = (if vector (msg_clock mv) = Null then ret (None, data\<lparr>pl_acks := acks\<rparr>, m')
         else bnd (free (vector (msg_clock mv))) (\<lambda>_.
           ret (None, data\<lparr>pl_acks := acks\<rparr>, with_clock m' ((msg_clock m')\<lparr>vector := Null\<rparr>))))" for mv
  proof -
    from rec [of mv] obtain m' buf where
      "receive_msg e data (Arr (replicate (message_size ?n) 0)) (Some bs) mv = ret (0, m', buf)"
      "mtype m' = ACK_NO" "ackid m' = ackid m" "urb_part m' = urb_part mv" by blast
    with acks(1) show ?thesis
      by (intro exI [of _ m'])
        (simp add: receiver_turn_def process_msg_def deliver_fl_def deliver_pl_def Let_def)
  qed
  from turn [of "receiver_start e"] have "receiver_turn e data (Some bs) (receiver_start e) = ub"
    by (auto simp: receiver_start_def uninit_msg_def uninit_urb_msg_def uninit_clock_def)
  moreover have "\<exists>d' m'. receiver_turn e data (Some bs) m0 = ret (None, d', m')
      \<and> ack_view (pl_acks d') = (ack_view (pl_acks data))(ackid m := 1)" if "vector (msg_clock m0) = Null"
    using that turn [of m0] acks(2) by auto
  ultimately show ?thesis by blast
qed

theorem first_ack_frees_wild_witness:
  "\<exists>bs. serialize good_env (zero_msg\<lparr>mtype := ACK_NO, ackid := 7\<rparr>) 3 = ret (0, Arr bs)
     \<and> receiver_turn good_env sample (Some bs) (receiver_start good_env) = ub"
proof -
  let ?m = "zero_msg\<lparr>mtype := ACK_NO, ackid := 7\<rparr>"
  have "sendable 3 ?m" by (simp add: sendable_def ACK_NO_def)
  from serialize_ok [OF this, of good_env] obtain bs where
    bs: "serialize good_env ?m 3 = ret (0, Arr bs)" by auto
  have "receiver_turn good_env sample (Some bs) (receiver_start good_env) = ub"
    by (rule first_ack_frees_wild [where m = ?m and e' = good_env, THEN conjunct1])
      (use bs in \<open>simp_all add: acks_ok_def table_ok_def sample_uid_table_def table_ids_nat\<close>)
  with bs show ?thesis by blast
qed

text \<open>The calls that only touch the part of the state they are given.\<close>

lemmas leaf_calls [effects] =
  on_ret_any [where m = "set_ack_urb e x i" for e x i] on_ret_any [where m = "is_seen_urb t i" for t i]
  on_ret_any [where m = "add_seen_urb e t i" for e t i] on_ret_any [where m = "alloc_vector e c n v" for e c n v]
  on_ret_any [where m = "can_deliver d i" for d i] on_ret_any [where m = "is_delivered_urb t i" for t i]
  on_ret_any [where m = "add_delivered_urb e t i" for e t i] on_ret_any [where m = "set_ack e a i" for e a i]
  on_ret_any [where m = "is_delivered d i" for d i] on_ret_any [where m = "set_delivered e d i" for e d i]
  on_ret_any [where m = "is_ack a i" for a i] on_ret_any [where m = "enqueue e q t" for e q t]
  on_ret_any [where m = "log_urb_broadcast e x i" for e x i] on_ret_any [where m = "store p i v" for p i v]
  on_ret_any [where m = "receive_msg e d b bs m" for e d b bs m] on_ret_any [where m = "free x" for x]

end
