(* ===== verification/System.thy ===== *)
theory System
  imports Delivery
begin

text \<open>
  The whole system: \<open>n\<close> processes, each with its receiver thread, its sender threads and its
  main thread (src/da\_proc.c, src/receiver.c, src/sender.c), and a network that may lose,
  repeat and reorder datagrams but does not invent them. A step is one turn of a thread; a
  process that exits, crashes or blocks takes no more steps.
\<close>

section \<open>States and steps\<close>

datatype sender_state = Idle | Sending queue_task nat | Ended

record process =
  pdata :: net_data
  rcv_msg :: msg \<comment> \<open>the message variable of the receiver thread\<close>
  bcast_msg :: lcb_msg \<comment> \<open>the message variable of \<open>send_lcb\<close>\<close>
  sent :: nat \<comment> \<open>rounds of \<open>send_lcb\<close> done\<close>
  threads :: "nat \<Rightarrow> sender_state"

type_synonym system = "nat \<Rightarrow> process"

definition NUM_SENDER_THREADS :: nat where "NUM_SENDER_THREADS = 10"

text \<open>
  A datagram can arrive at \<open>p\<close> if some process has sent it to the address of \<open>p\<close>; it stays
  available, so it can arrive any number of times, in any order, or never.
\<close>

definition in_flight :: "nat \<Rightarrow> system \<Rightarrow> nat \<Rightarrow> byte list \<Rightarrow> bool" where
  "in_flight n st p bs \<longleftrightarrow> (\<exists>q \<in> {1..n}. (addr_of (pdata (st p)) (of_nat p), bs) \<in> set (net_out (pdata (st q))))"

text \<open>\<open>E\<close> says what can happen in the environment of a turn (which allocations and system calls
  can fail); the theorems that do not mention it hold whatever fails.\<close>

inductive step :: "(env \<Rightarrow> bool) \<Rightarrow> nat \<Rightarrow> system \<Rightarrow> system \<Rightarrow> bool" for E n where
  broadcast: "p \<in> {1..n} \<Longrightarrow> sent (st p) < num_msg (pdata (st p))
    \<Longrightarrow> send_lcb_round e (pdata (st p)) (bcast_msg (st p)) (sent (st p) + 1) = ret (0, l, d) \<Longrightarrow> E e
    \<Longrightarrow> step E n st (st(p := (st p)\<lparr>pdata := d, bcast_msg := l, sent := sent (st p) + 1\<rparr>))"
| receive: "p \<in> {1..n} \<Longrightarrow> in_flight n st p bs
    \<Longrightarrow> receiver_turn e (pdata (st p)) (Some bs) (rcv_msg (st p)) = ret (None, d, m) \<Longrightarrow> E e
    \<Longrightarrow> step E n st (st(p := (st p)\<lparr>pdata := d, rcv_msg := m\<rparr>))"
| take: "p \<in> {1..n} \<Longrightarrow> i < NUM_SENDER_THREADS \<Longrightarrow> threads (st p) i = Idle
    \<Longrightarrow> dequeue (task_q (pdata (st p))) = ret (r, Some t, q)
    \<Longrightarrow> step E n st (st(p := (st p)\<lparr>pdata := (pdata (st p))\<lparr>task_q := q\<rparr>,
          threads := (threads (st p))(i := Sending t 0)\<rparr>))"
| round: "p \<in> {1..n} \<Longrightarrow> threads (st p) i = Sending t k
    \<Longrightarrow> send_pl_round e (pid_dest t) (pdata (st p)) (task_msg t) k = ret (None, d) \<Longrightarrow> E e
    \<Longrightarrow> step E n st (st(p := (st p)\<lparr>pdata := d, threads := (threads (st p))(i := Sending t (k + 1))\<rparr>))"
| finish: "p \<in> {1..n} \<Longrightarrow> threads (st p) i = Sending t k
    \<Longrightarrow> send_pl_round e (pid_dest t) (pdata (st p)) (task_msg t) k = ret (Some r, d)
    \<Longrightarrow> sender_finish t r = ret ended \<Longrightarrow> E e
    \<Longrightarrow> step E n st (st(p := (st p)\<lparr>pdata := d,
          threads := (threads (st p))(i := (if ended = None then Idle else Ended))\<rparr>))"

inductive reachable :: "(env \<Rightarrow> bool) \<Rightarrow> nat \<Rightarrow> system \<Rightarrow> system \<Rightarrow> bool" for E n and st0 where
  start: "reachable E n st0 st0"
| more: "reachable E n st0 st \<Longrightarrow> step E n st st' \<Longrightarrow> reachable E n st0 st'"

text \<open>No short writes: what \<open>fwrite\<close> is given is written.\<close>

definition full_writes :: "env \<Rightarrow> bool" where
  "full_writes e \<longleftrightarrow> (\<forall>k. fwritten e k = k)"

lemma full_writes_good [simp]: "full_writes good_env"
  by (simp add: full_writes_def)

text \<open>The state in which the processes start (established by \<open>init_data\<close>): fresh tables for \<open>T\<close>
  messages, an empty queue, nothing sent.\<close>

definition fresh :: "nat \<Rightarrow> nat \<Rightarrow> u32 \<Rightarrow> net_data \<Rightarrow> bool" where
  "fresh n p T data \<longleftrightarrow> num_proc data = n \<and> self_pid data = p
     \<and> urb_ok (urb_tab data) \<and> urb_total_entries (urb_tab data) = T
     \<and> (\<forall>s. seen_view (urb_tab data) s = 0 \<and> delivered_view (urb_tab data) s = 0)
     \<and> table_ok (urb_ack_tab (urbacks data)) \<and> no_process (urb_ack_tab (urbacks data)) = of_nat n
     \<and> unat (total_entries (urb_ack_tab (urbacks data))) = n * unat T
     \<and> (\<forall>i. table_view (urb_ack_tab (urbacks data)) i = 0)
     \<and> queue_ok (task_q data) \<and> queue_tasks (task_q data) = [] \<and> net_out data = []"

definition initial :: "nat \<Rightarrow> u32 \<Rightarrow> system \<Rightarrow> bool" where
  "initial n T st \<longleftrightarrow> sizes n T \<and> (\<forall>p \<in> {1..n}. fresh n p T (pdata (st p))
     \<and> sent (st p) = 0 \<and> (\<forall>i. threads (st p) i = Idle))"

section \<open>The invariant of the system\<close>

definition sightings_of :: "nat \<Rightarrow> system \<Rightarrow> sightings" where
  "sightings_of n st = {(q, s). 1 \<le> q \<and> q \<le> n \<and> s \<in> seen_set (pdata (st q))}"

text \<open>The original sender of a message and its number (from 1), from the identifier.\<close>

definition origin :: "nat \<Rightarrow> u32 \<Rightarrow> nat" where "origin n s = unat s mod n + 1"

definition msg_number :: "nat \<Rightarrow> u32 \<Rightarrow> nat" where "msg_number n s = unat s div n + 1"

definition threads_good :: "carried \<Rightarrow> nat \<Rightarrow> sightings \<Rightarrow> (nat \<Rightarrow> sender_state) \<Rightarrow> bool" where
  "threads_good R n S ths \<longleftrightarrow> (\<forall>i t k. ths i = Sending t k \<longrightarrow> good_msg R n S (task_msg t))"

text \<open>\<open>R\<close> says which clock a message may carry; the invariant without it is \<open>sys_inv\<close>.\<close>

definition sys_inv_of :: "carried \<Rightarrow> nat \<Rightarrow> u32 \<Rightarrow> system \<Rightarrow> bool" where
  "sys_inv_of R n T st \<longleftrightarrow> (let S = sightings_of n st in
     sightings_ok n T S
     \<and> (\<forall>p \<in> {1..n}. urb_inv R n p T S (pdata (st p)) \<and> threads_good R n S (threads (st p))
          \<and> n * (sent (st p) - 1) \<le> unat T)
     \<and> (\<forall>(q, s) \<in> S. msg_number n s \<le> sent (st (origin n s))))"

definition any_clock :: carried where "any_clock s xs \<longleftrightarrow> True"

lemma any_clock: "any_clock s xs"
  by (simp add: any_clock_def)

definition sys_inv :: "nat \<Rightarrow> u32 \<Rightarrow> system \<Rightarrow> bool" where
  "sys_inv n T st \<longleftrightarrow> sys_inv_of any_clock n T st"

lemma threads_good_mono: "threads_good R n S ths \<Longrightarrow> R \<le> R' \<Longrightarrow> S \<subseteq> S' \<Longrightarrow> threads_good R' n S' ths"
  unfolding threads_good_def using good_msg_mono by blast

lemma sys_inv_ofD:
  assumes "sys_inv_of R n T st" "p \<in> {1..n}"
  shows "urb_inv R n p T (sightings_of n st) (pdata (st p))" "threads_good R n (sightings_of n st) (threads (st p))"
    "n * (sent (st p) - 1) \<le> unat T" "sightings_ok n T (sightings_of n st)"
    "\<And>q s. (q, s) \<in> sightings_of n st \<Longrightarrow> msg_number n s \<le> sent (st (origin n s))"
  using assms by (auto simp: sys_inv_of_def Let_def)

lemmas sys_invD = sys_inv_ofD [where R = any_clock, folded sys_inv_def]

lemma sys_inv_of_mono: "sys_inv_of R n T st \<Longrightarrow> R \<le> R' \<Longrightarrow> sys_inv_of R' n T st"
  unfolding sys_inv_of_def Let_def
  using urb_inv_mono [OF _ _ order.refl] threads_good_mono [OF _ _ order.refl] by (elim conjE, intro conjI ballI) (blast | simp)+

lemma initial_inv_of:
  assumes "initial n T st"
  shows "sys_inv_of R n T st"
proof -
  have seen: "seen_set (pdata (st p)) = {}" "delivered_set (pdata (st p)) = {}" if "p \<in> {1..n}" for p
    using assms that by (auto simp: initial_def fresh_def seen_set_def delivered_set_def)
  have none: "sightings_of n st = {}" using seen by (auto simp: sightings_of_def)
  have "urb_inv R n p T {} (pdata (st p))" if "p \<in> {1..n}" for p
    using assms that
    by (simp add: initial_def fresh_def urb_inv_def tab_good_def acks_good_def good_queue_def net_good_def)
  with assms show ?thesis
    by (simp add: sys_inv_of_def none sightings_ok_def threads_good_def initial_def)
qed

text \<open>
  A step of process \<open>p\<close> that lets \<open>p\<close> see the messages \<open>N\<close>, keeps its invariant and that of
  its threads, and does not reduce what it has sent, keeps the invariant of the system.
\<close>

lemma sys_inv_update:
  assumes inv: "sys_inv_of R n T st" and p: "p \<in> {1..n}"
    and g: "grows R n p T (sightings_of n st) M (pdata (st p)) d"
    and th: "threads_good R n (sightings_of n st) ths"
    and sent: "sent (st p) \<le> k" "n * (k - 1) \<le> unat T"
    and M: "\<And>s. s \<in> M \<Longrightarrow> s < T \<Longrightarrow> msg_number n s \<le> (if origin n s = p then k else sent (st (origin n s)))"
    and x: "pdata x = d" "threads x = ths" "sent x = k"
  shows "sys_inv_of R n T (st(p := x))"
proof -
  let ?S = "sightings_of n st" let ?st = "st(p := x)"
  from g obtain N where N: "N \<subseteq> M" "\<forall>s \<in> N. s < T" "seen_set d = seen_set (pdata (st p)) \<union> N"
    "urb_inv R n p T (?S \<union> {p} \<times> N) d" by (auto simp: grows_def)
  have S': "sightings_of n ?st = ?S \<union> {p} \<times> N"
    using N(3) x p by (auto simp: sightings_of_def split: if_splits)
  have "sightings_ok n T (?S \<union> {p} \<times> N)"
    using sys_inv_ofD(4) [OF inv p] N(2) p by (auto simp: sightings_ok_def)
  moreover have "urb_inv R n q T (?S \<union> {p} \<times> N) (pdata (?st q)) \<and> threads_good R n (?S \<union> {p} \<times> N) (threads (?st q))
      \<and> n * (sent (?st q) - 1) \<le> unat T" if q: "q \<in> {1..n}" for q
  proof (cases "q = p")
    case True
    with N(4) x sent th show ?thesis by (auto intro: threads_good_mono)
  next
    case False
    with sys_inv_ofD(1-3) [OF inv q] show ?thesis by (auto intro: threads_good_mono urb_inv_mono)
  qed
  moreover have "msg_number n s \<le> sent (?st (origin n s))" if "(q, s) \<in> ?S \<union> {p} \<times> N" for q s
    using that
  proof
    assume "(q, s) \<in> ?S"
    from sys_inv_ofD(5) [OF inv p this] sent x show ?thesis by auto
  next
    assume "(q, s) \<in> {p} \<times> N"
    with M [of s] N(1,2) x show ?thesis by auto
  qed
  ultimately show ?thesis unfolding sys_inv_of_def S' Let_def by blast
qed

lemma msg_number_seen_id:
  assumes sz: "sizes n T" and p: "p \<in> {1..n}" and j: "n * (j - 1) \<le> unat T"
    and s: "s = seen_id_of n \<lparr>sequence_num = of_nat (j + 1), original_sender = of_nat p\<rparr>" "s < T"
  shows "origin n s = p \<and> msg_number n s = j + 1 \<and> n * j \<le> unat T"
proof -
  let ?k = "n * j + (p - 1)"
  have n: "0 < n" "0 < unat T" "n * unat T + n < 2 ^ 32" using sz by (auto simp: sizes_def)
  then obtain n' t' where "n = Suc n'" "unat T = Suc t'" by (metis gr0_conv_Suc)
  then have "unat T + n \<le> n * unat T + 1" by simp
  moreover have "n * j \<le> unat T + n" using j by (cases j) auto
  moreover have "p - 1 < n" using p by auto
  ultimately have k: "?k < 2 ^ 32" using n(3) by linarith
  have "s = of_nat ?k" using s(1) p by (simp add: seen_id_of_def of_nat_diff)
  then have u: "unat s = ?k" using k by (simp only: unat_of_nat_u32)
  have "p - 1 < n" using p by auto
  with u have "unat s mod n = p - 1" "unat s div n = j" by auto
  with u s(2) p show ?thesis by (auto simp: origin_def msg_number_def word_less_nat_alt)
qed

text \<open>What a step of \<open>send_lcb\<close> adds to the clocks that travel.\<close>

definition new_clock :: "nat \<Rightarrow> system \<Rightarrow> nat \<Rightarrow> u32 list" where
  "new_clock n st p = clock_sent n p (pdata (st p)) (sent (st p) + 1)"

lemma step_inv_of:
  assumes sz: "sizes n T" and inv: "sys_inv_of R n T st" and st': "step E n st st'"
    and new: "\<And>p s. p \<in> {1..n} \<Longrightarrow> sent (st' p) = sent (st p) + 1 \<Longrightarrow> origin n s = p
      \<Longrightarrow> msg_number n s = sent (st p) + 1 \<Longrightarrow> R s (new_clock n st p)"
  shows "sys_inv_of R n T st'"
  using st'
proof cases
  case (broadcast p e l d)
  let ?S = "sightings_of n st" let ?f = "\<lparr>sequence_num = of_nat (sent (st p) + 1), original_sender = of_nat p\<rparr>"
  note p = broadcast(2) note I = sys_inv_ofD [OF inv p]
  have num: "origin n s = p \<and> msg_number n s = sent (st p) + 1 \<and> n * sent (st p) \<le> unat T"
    if "s = seen_id_of n ?f" "s < T" for s
    by (rule msg_number_seen_id [OF sz p I(3) that])
  have orig: "unat (seen_id_of n ?f) mod n + 1 = p" if "seen_id_of n ?f < T"
    using num [OF refl that] by (simp add: origin_def)
  have R: "R (seen_id_of n ?f) (clock_sent n p (pdata (st p)) (sent (st p) + 1))" if "seen_id_of n ?f < T"
    using new [OF p, of "seen_id_of n ?f"] num [OF refl that] broadcast(1) by (simp add: new_clock_def)
  from on_retD [OF send_lcb_round_inv [OF sz I(4) _ _ I(1) orig R] broadcast(4)] p
  have sT: "seen_id_of n ?f < T" and g: "grows R n p T ?S {seen_id_of n ?f} (pdata (st p)) d" by auto
  show ?thesis unfolding broadcast(1)
  proof (rule sys_inv_update [OF inv p g I(2)])
    show "n * (sent (st p) + 1 - 1) \<le> unat T" using num [OF refl sT] by simp
  qed (use num in auto)
next
  case (receive p bs e d m)
  let ?S = "sightings_of n st"
  note p = receive(2) note I = sys_inv_ofD [OF inv p]
  from receive(3) obtain q a where q: "q \<in> {1..n}" "(a, bs) \<in> set (net_out (pdata (st q)))"
    by (auto simp: in_flight_def)
  with sys_inv_ofD(1) [OF inv q(1)] have "good_bytes R n ?S bs" by (auto simp: urb_inv_def net_good_def)
  from on_retD [OF receiver_turn_inv [OF sz I(4) _ _ I(1) this] receive(4)] p
  have g: "grows R n p T ?S (snd ` ?S) (pdata (st p)) d" by simp
  have num: "msg_number n s \<le> sent (st (origin n s))" if "s \<in> snd ` ?S" for s
    using that I(5) by force
  show ?thesis unfolding receive(1)
    by (rule sys_inv_update [OF inv p g I(2) order.refl I(3)]) (use num in auto)
next
  case (take p i r t q)
  let ?S = "sightings_of n st"
  note p = take(2) note I = sys_inv_ofD [OF inv p]
  have "good_queue R n ?S (task_q (pdata (st p)))" using I(1) by (simp add: urb_inv_def)
  from on_retD [OF dequeue_good [OF this] take(5)] have q: "good_queue R n ?S q" "good_msg R n ?S (task_msg t)" by auto
  have g: "grows R n p T ?S {} (pdata (st p)) ((pdata (st p))\<lparr>task_q := q\<rparr>)"
    using urb_inv_queue [OF I(1) q(1)] by (rule grows_same) simp
  have th: "threads_good R n ?S ((threads (st p))(i := Sending t 0))"
    using I(2) q(2) by (simp add: threads_good_def)
  show ?thesis unfolding take(1)
    by (rule sys_inv_update [OF inv p g th order.refl I(3)]) auto
next
  case (round p i t k e d)
  let ?S = "sightings_of n st"
  note p = round(2) note I = sys_inv_ofD [OF inv p]
  from I(2) round(3) have m: "good_msg R n ?S (task_msg t)" by (auto simp: threads_good_def)
  from on_retD [OF send_pl_round_inv [OF sz I(1) m] round(4)]
  have g: "grows R n p T ?S {} (pdata (st p)) d" by (auto intro: grows_same)
  have th: "threads_good R n ?S ((threads (st p))(i := Sending t (k + 1)))"
    using I(2) m by (simp add: threads_good_def)
  show ?thesis unfolding round(1)
    by (rule sys_inv_update [OF inv p g th order.refl I(3)]) auto
next
  case (finish p i t k e r d ended)
  let ?S = "sightings_of n st"
  note p = finish(2) note I = sys_inv_ofD [OF inv p]
  from I(2) finish(3) have m: "good_msg R n ?S (task_msg t)" by (auto simp: threads_good_def)
  from on_retD [OF send_pl_round_inv [OF sz I(1) m] finish(4)]
  have g: "grows R n p T ?S {} (pdata (st p)) d" by (auto intro: grows_same)
  have th: "threads_good R n ?S ((threads (st p))(i := (if ended = None then Idle else Ended)))"
    using I(2) by (simp add: threads_good_def)
  show ?thesis unfolding finish(1)
    by (rule sys_inv_update [OF inv p g th order.refl I(3)]) auto
qed

lemma initial_inv: "initial n T st \<Longrightarrow> sys_inv n T st"
  unfolding sys_inv_def by (rule initial_inv_of)

lemma step_inv: "sizes n T \<Longrightarrow> sys_inv n T st \<Longrightarrow> step E n st st' \<Longrightarrow> sys_inv n T st'"
  unfolding sys_inv_def by (rule step_inv_of) (simp_all add: any_clock)

lemma reachable_inv:
  assumes "initial n T st0" "reachable E n st0 st"
  shows "sys_inv n T st"
  using assms(2)
proof induction
  case start
  from assms(1) show ?case by (rule initial_inv)
next
  case (more st st')
  from assms(1) have "sizes n T" by (simp add: initial_def)
  from step_inv [OF this more.IH more.hyps(2)] show ?case .
qed

section \<open>Safety\<close>

lemma delivered_seen_quorum:
  assumes "sys_inv n T st" "p \<in> {1..n}" "s \<in> delivered_set (pdata (st p))"
  shows "n div 2 < card {q \<in> {1..n}. s \<in> seen_set (pdata (st q))}"
proof -
  have "{q. 1 \<le> q \<and> q \<le> n \<and> (q, s) \<in> sightings_of n st} = {q \<in> {1..n}. s \<in> seen_set (pdata (st q))}"
    by (auto simp: sightings_of_def)
  with sys_invD(1) [OF assms(1,2)] assms(3) show ?thesis
    by (auto simp: urb_inv_def tab_good_def quorum_def delivered_set_def)
qed

text \<open>C1: a quorum for every delivery. In every reachable state, whatever the network loses,
  repeats or reorders and whichever processes stop, a message that some process has delivered
  (to localized causal broadcast) has been seen by more than half of the processes.\<close>

theorem delivery_needs_quorum:
  assumes "initial n T st0" "reachable E n st0 st" "p \<in> {1..n}"
    and "delivered_view (urb_tab (pdata (st p))) s \<noteq> 0"
  shows "n div 2 < card {q \<in> {1..n}. seen_view (urb_tab (pdata (st q))) s \<noteq> 0}"
  using delivered_seen_quorum [OF reachable_inv [OF assms(1,2)] assms(3)] assms(4)
  by (simp add: delivered_set_def seen_set_def)

text \<open>C2: no creation. In every reachable state a message that some process has seen was
  broadcast: the identifier names a process and a message number, and that process has
  completed the round of \<open>send_lcb\<close> with that number.\<close>

theorem seen_was_broadcast:
  assumes "initial n T st0" "reachable E n st0 st" "p \<in> {1..n}"
    and "seen_view (urb_tab (pdata (st p))) s \<noteq> 0"
  shows "unat s div n + 1 \<le> sent (st (unat s mod n + 1))"
proof -
  have "(p, s) \<in> sightings_of n st" using assms(3,4) by (simp add: sightings_of_def seen_set_def)
  with sys_invD(5) [OF reachable_inv [OF assms(1,2)] assms(3)] show ?thesis
    by (simp add: origin_def msg_number_def)
qed

lemma once_other: "once (pdata (st p)) (pdata x) \<Longrightarrow> once (pdata (st q)) (pdata ((st(p := x)) q))"
  by auto

lemma step_once:
  assumes sz: "sizes n T" and inv: "sys_inv n T st" and st': "step E n st st'"
  shows "once (pdata (st q)) (pdata (st' q))"
  using st'
proof cases
  case (broadcast p e l d)
  from on_retD [OF send_lcb_round_once [OF fit_inv [OF sz sys_invD(1) [OF inv broadcast(2)]]] broadcast(4)]
  show ?thesis unfolding broadcast(1) by (intro once_other) simp
next
  case (receive p bs e d m)
  note I = sys_invD [OF inv receive(2)]
  from receive(3) obtain r a where r: "r \<in> {1..n}" "(a, bs) \<in> set (net_out (pdata (st r)))"
    by (auto simp: in_flight_def)
  with sys_invD(1) [OF inv r(1)] have bs: "good_bytes any_clock n (sightings_of n st) bs"
    by (auto simp: urb_inv_def net_good_def)
  from receive(2) have p: "1 \<le> p" "p \<le> n" by auto
  from on_retD [OF receiver_turn_once [OF sz I(4) p I(1) bs] receive(4)]
  show ?thesis unfolding receive(1) by (intro once_other) simp
next
  case (take p i r t q)
  then show ?thesis by (auto intro!: once_other)
next
  case (round p i t k e d)
  from on_retD [OF send_pl_round_once round(4)] show ?thesis
    unfolding round(1) by (intro once_other) simp
next
  case (finish p i t k e r d ended)
  from on_retD [OF send_pl_round_once finish(4)] show ?thesis
    unfolding finish(1) by (intro once_other) simp
qed

text \<open>C4: no duplication. In every step of a reachable system a process hands at most one message
  to localized causal broadcast, one that it has never handed over before, and it never
  forgets what it has handed over; a step that hands over nothing leaves the vector clock and
  the pending messages alone.\<close>

theorem delivered_at_most_once:
  assumes "initial n T st0" "reachable E n st0 st" "step E n st st'"
  shows "(delivered_set (pdata (st' q)) = delivered_set (pdata (st q))
      \<and> vector_clock (pdata (st' q)) = vector_clock (pdata (st q))
      \<and> pending_lcb (pdata (st' q)) = pending_lcb (pdata (st q)))
    \<or> (\<exists>s. s \<notin> delivered_set (pdata (st q))
        \<and> delivered_set (pdata (st' q)) = insert s (delivered_set (pdata (st q))))"
proof -
  from assms(1) have "sizes n T" by (simp add: initial_def)
  from step_once [OF this reachable_inv [OF assms(1,2)] assms(3), of q] show ?thesis
    by (auto simp: once_def lcb_same_def)
qed

text \<open>C5: the invariant of the system is inductive: every step, from any state that satisfies it,
  reachable or not, leads to a state that satisfies it.\<close>

theorem system_invariant_inductive:
  assumes "sizes n T" "sys_inv n T st" "step E n st st'"
  shows "sys_inv n T st'"
  by (rule step_inv [OF assms])

end
