(* ===== verification/UrbAbstract.thy ===== *)
theory UrbAbstract
  imports System
begin

text \<open>
  What uniform reliable broadcast promises, as an abstract transition system without tables,
  queues, threads, datagrams or identifiers of copies, and the proof that the system of
  processes of src/ refines it: every step of the system is matched by steps of the
  abstract one.
\<close>

section \<open>The abstract system\<close>

text \<open>How many messages each process has broadcast, who has seen and who has delivered what.\<close>

record urb_state =
  a_sent :: "nat \<Rightarrow> nat"
  a_seen :: sightings
  a_delivered :: sightings

definition message_id :: "nat \<Rightarrow> nat \<Rightarrow> nat \<Rightarrow> u32" where
  "message_id n p j = of_nat (n * (j - 1) + (p - 1))"

inductive urb_step :: "nat \<Rightarrow> urb_state \<Rightarrow> urb_state \<Rightarrow> bool" for n where
  a_broadcast: "p \<in> {1..n} \<Longrightarrow> s = message_id n p (a_sent a p + 1)
    \<Longrightarrow> urb_step n a (a\<lparr>a_sent := (a_sent a)(p := a_sent a p + 1), a_seen := insert (p, s) (a_seen a)\<rparr>)"
| a_relay: "p \<in> {1..n} \<Longrightarrow> (q, s) \<in> a_seen a
    \<Longrightarrow> urb_step n a (a\<lparr>a_seen := insert (p, s) (a_seen a)\<rparr>)"
| a_deliver: "p \<in> {1..n} \<Longrightarrow> (p, s) \<notin> a_delivered a \<Longrightarrow> quorum n (a_seen a) s
    \<Longrightarrow> urb_step n a (a\<lparr>a_delivered := insert (p, s) (a_delivered a)\<rparr>)"

inductive_cases urb_stepE: "urb_step n a a'"

abbreviation urb_steps :: "nat \<Rightarrow> urb_state \<Rightarrow> urb_state \<Rightarrow> bool" where
  "urb_steps n \<equiv> (urb_step n)\<^sup>*\<^sup>*"

definition urb_start :: urb_state where
  "urb_start = \<lparr>a_sent = \<lambda>_. 0, a_seen = {}, a_delivered = {}\<rparr>"

text \<open>What the abstract system guarantees: nothing is seen that was not broadcast, nothing is
  delivered that a majority has not seen.\<close>

definition was_broadcast :: "nat \<Rightarrow> urb_state \<Rightarrow> u32 \<Rightarrow> bool" where
  "was_broadcast n a s \<longleftrightarrow> (\<exists>q \<in> {1..n}. \<exists>j \<in> {1..a_sent a q}. s = message_id n q j)"

definition urb_safe :: "nat \<Rightarrow> urb_state \<Rightarrow> bool" where
  "urb_safe n a \<longleftrightarrow> (\<forall>(p, s) \<in> a_seen a. was_broadcast n a s)
     \<and> (\<forall>(p, s) \<in> a_delivered a. quorum n (a_seen a) s)"

lemma urb_step_grows:
  assumes "urb_step n a a'"
  shows "a_seen a \<subseteq> a_seen a'" "a_sent a q \<le> a_sent a' q"
  using assms by (auto elim!: urb_stepE)

lemma urb_step_safe:
  assumes step: "urb_step n a a'" and safe: "urb_safe n a"
  shows "urb_safe n a'"
proof -
  have old: "was_broadcast n a' s" if "(p, s) \<in> a_seen a" for p s
  proof -
    from safe that obtain q j where "q \<in> {1..n}" "j \<in> {1..a_sent a q}" "s = message_id n q j"
      unfolding urb_safe_def was_broadcast_def by blast
    with urb_step_grows(2) [OF step, of q] show ?thesis
      unfolding was_broadcast_def by (intro bexI [of _ q] bexI [of _ j]) auto
  qed
  have quo: "quorum n (a_seen a') s" if "(p, s) \<in> a_delivered a" for p s
    using safe that quorum_mono [OF _ urb_step_grows(1) [OF step]] unfolding urb_safe_def by blast
  show ?thesis
    using step
  proof cases
    case (a_broadcast p s)
    have "was_broadcast n a' s" unfolding was_broadcast_def
      using a_broadcast by (intro bexI [of _ p] bexI [of _ "a_sent a p + 1"]) auto
    moreover have "a_seen a' = insert (p, s) (a_seen a)" "a_delivered a' = a_delivered a"
      by (simp_all add: a_broadcast(1))
    ultimately show ?thesis using old quo by (auto simp: urb_safe_def)
  next
    case (a_relay p q s)
    with old [of q s] old quo show ?thesis by (auto simp: urb_safe_def)
  next
    case (a_deliver p s)
    with old quo show ?thesis by (auto simp: urb_safe_def)
  qed
qed

lemma urb_steps_safe: "urb_steps n a a' \<Longrightarrow> urb_safe n a \<Longrightarrow> urb_safe n a'"
  by (induction rule: rtranclp_induct) (auto intro: urb_step_safe)

section \<open>The abstraction\<close>

definition deliveries_of :: "nat \<Rightarrow> system \<Rightarrow> sightings" where
  "deliveries_of n st = {(q, s). 1 \<le> q \<and> q \<le> n \<and> s \<in> delivered_set (pdata (st q))}"

definition abs_urb :: "nat \<Rightarrow> system \<Rightarrow> urb_state" where
  "abs_urb n st = \<lparr>a_sent = \<lambda>p. if p \<in> {1..n} then sent (st p) else 0,
     a_seen = sightings_of n st, a_delivered = deliveries_of n st\<rparr>"

lemma abs_initial: "initial n T st \<Longrightarrow> abs_urb n st = urb_start"
  by (auto simp: abs_urb_def urb_start_def initial_def fresh_def sightings_of_def deliveries_of_def
      seen_set_def delivered_set_def fun_eq_iff)

text \<open>Relays, one at a time.\<close>

lemma relay_steps:
  assumes "finite N" "N \<subseteq> snd ` a_seen a" "p \<in> {1..n}"
  shows "urb_steps n a (a\<lparr>a_seen := a_seen a \<union> {p} \<times> N\<rparr>)"
  using assms(1,2)
proof (induction N)
  case empty
  then show ?case by simp
next
  case (insert s N)
  let ?b = "a\<lparr>a_seen := a_seen a \<union> {p} \<times> N\<rparr>"
  from insert.prems have "s \<in> snd ` a_seen a" by simp
  then obtain q where "(q, s) \<in> a_seen a" by force
  then have "(q, s) \<in> a_seen ?b" by simp
  from a_relay [OF assms(3) this] have "urb_step n ?b (a\<lparr>a_seen := a_seen a \<union> {p} \<times> insert s N\<rparr>)"
    by (simp add: Sigma_def insert_commute)
  moreover have "urb_steps n a ?b" using insert by simp
  ultimately show ?case by (rule rtranclp.rtrancl_into_rtrancl [rotated])
qed

lemma message_id_seen_id:
  assumes "p \<in> {1..n}"
  shows "seen_id_of n \<lparr>sequence_num = of_nat (j + 1), original_sender = of_nat p\<rparr> = message_id n p (j + 1)"
  using assms by (simp add: seen_id_of_def message_id_def of_nat_diff)

section \<open>The simulation\<close>

text \<open>A turn of process \<open>p\<close> that sees the messages \<open>N\<close> and delivers at most one.\<close>

lemma abs_update:
  assumes "p \<in> {1..n}" "seen_set (pdata x) = seen_set (pdata (st p)) \<union> N"
  shows "sightings_of n (st(p := x)) = sightings_of n st \<union> {p} \<times> N"
    "deliveries_of n (st(p := x)) = (deliveries_of n st - {p} \<times> UNIV) \<union> {p} \<times> delivered_set (pdata x)"
  using assms by (auto simp: sightings_of_def deliveries_of_def split: if_splits)

lemma quorum_sightings:
  "quorum n (sightings_of n st) s \<longleftrightarrow> n div 2 < card {q \<in> {1..n}. s \<in> seen_set (pdata (st q))}"
proof -
  have "{q. 1 \<le> q \<and> q \<le> n \<and> (q, s) \<in> sightings_of n st} = {q \<in> {1..n}. s \<in> seen_set (pdata (st q))}"
    by (auto simp: sightings_of_def)
  then show ?thesis by (simp add: quorum_def)
qed

lemma simulate_turn:
  assumes p: "p \<in> {1..n}" and inv: "sys_inv n T (st(p := x))"
    and N: "seen_set (pdata x) = seen_set (pdata (st p)) \<union> N" and once: "once (pdata (st p)) (pdata x)"
    and a: "urb_steps n (abs_urb n st) (abs_urb n (st(p := x))\<lparr>a_delivered := deliveries_of n st\<rparr>)"
  shows "urb_steps n (abs_urb n st) (abs_urb n (st(p := x)))"
proof -
  note upd = abs_update [where st = st, OF p N]
  have old: "deliveries_of n st = (deliveries_of n st - {p} \<times> UNIV) \<union> {p} \<times> delivered_set (pdata (st p))"
    using p by (auto simp: deliveries_of_def)
  from once consider "delivered_set (pdata x) = delivered_set (pdata (st p))"
    | s where "s \<notin> delivered_set (pdata (st p))" "delivered_set (pdata x) = insert s (delivered_set (pdata (st p)))"
    by (auto simp: once_def)
  then show ?thesis
  proof cases
    case 1
    then have "deliveries_of n (st(p := x)) = deliveries_of n st" using upd(2) old by simp
    then have "abs_urb n (st(p := x))\<lparr>a_delivered := deliveries_of n st\<rparr> = abs_urb n (st(p := x))"
      by (simp add: abs_urb_def)
    with a show ?thesis by simp
  next
    case 2
    let ?b = "abs_urb n (st(p := x))\<lparr>a_delivered := deliveries_of n st\<rparr>"
    have d: "deliveries_of n (st(p := x)) = insert (p, s) (deliveries_of n st)"
      using upd(2) old 2(2) by auto
    have "s \<in> delivered_set (pdata ((st(p := x)) p))" using 2(2) by simp
    moreover have seen_b: "a_seen ?b = sightings_of n (st(p := x))" by (simp add: abs_urb_def)
    ultimately have "quorum n (a_seen ?b) s"
      using delivered_seen_quorum [OF inv p] unfolding seen_b quorum_sightings by blast
    moreover have "(p, s) \<notin> a_delivered ?b" using 2(1) by (simp add: deliveries_of_def)
    ultimately have "urb_step n ?b (?b\<lparr>a_delivered := insert (p, s) (a_delivered ?b)\<rparr>)"
      by (intro a_deliver p)
    then have "urb_step n ?b (abs_urb n (st(p := x)))" using d by (simp add: abs_urb_def)
    with a show ?thesis by (rule rtranclp.rtrancl_into_rtrancl)
  qed
qed

text \<open>A turn that broadcasts nothing is matched by relays and at most one delivery.\<close>

lemma simulate_silent:
  assumes p: "p \<in> {1..n}" and inv: "sys_inv n T (st(p := x))" and sent: "sent x = sent (st p)"
    and g: "grows R n p T S M (pdata (st p)) (pdata x)" and M: "M \<subseteq> snd ` sightings_of n st"
    and once: "once (pdata (st p)) (pdata x)"
  shows "urb_steps n (abs_urb n st) (abs_urb n (st(p := x)))"
proof -
  from g obtain N where N: "N \<subseteq> M" "seen_set (pdata x) = seen_set (pdata (st p)) \<union> N"
    by (auto simp: grows_def)
  have "N \<subseteq> snd ` a_seen (abs_urb n st)" using N(1) M by (auto simp: abs_urb_def)
  from relay_steps [OF finite this p]
  have "urb_steps n (abs_urb n st) (abs_urb n st\<lparr>a_seen := a_seen (abs_urb n st) \<union> {p} \<times> N\<rparr>)" .
  moreover have "abs_urb n st\<lparr>a_seen := a_seen (abs_urb n st) \<union> {p} \<times> N\<rparr>
      = abs_urb n (st(p := x))\<lparr>a_delivered := deliveries_of n st\<rparr>"
    using abs_update(1) [where st = st, OF p N(2)] sent by (simp add: abs_urb_def fun_eq_iff)
  ultimately show ?thesis by (intro simulate_turn [OF p inv N(2) once]) simp
qed

lemma step_simulated:
  assumes sz: "sizes n T" and inv: "sys_inv n T st" and st': "step E n st st'"
  shows "urb_steps n (abs_urb n st) (abs_urb n st')"
  using st'
proof cases
  note inv' = step_inv [OF sz inv st'] and once = step_once [OF sz inv st']
  case (broadcast p e l d)
  let ?j = "sent (st p) + 1" let ?x = "(st p)\<lparr>pdata := d, bcast_msg := l, sent := ?j\<rparr>"
  let ?s = "message_id n p ?j"
  note p = broadcast(2) note I = sys_invD [OF inv p]
  have "unat s mod n + 1 = p" if "s = seen_id_of n \<lparr>sequence_num = of_nat ?j, original_sender = of_nat p\<rparr>" "s < T" for s
    using msg_number_seen_id [OF sz p I(3) that] by (simp add: origin_def)
  from on_retD [OF send_lcb_round_inv [where R = any_clock, OF sz I(4) _ _ I(1) this [OF refl] any_clock] broadcast(4)] p
  have g: "grows any_clock n p T (sightings_of n st) {?s} (pdata (st p)) d" "?s \<in> seen_set d"
    unfolding message_id_seen_id [OF p] by auto
  then have seen: "seen_set (pdata ?x) = seen_set (pdata (st p)) \<union> {?s}" by (auto simp: grows_def)
  have "urb_step n (abs_urb n st) (abs_urb n st\<lparr>a_sent := (a_sent (abs_urb n st))(p := a_sent (abs_urb n st) p + 1),
      a_seen := insert (p, ?s) (a_seen (abs_urb n st))\<rparr>)"
    using p by (intro a_broadcast) (simp_all add: abs_urb_def)
  moreover have "abs_urb n st\<lparr>a_sent := (a_sent (abs_urb n st))(p := a_sent (abs_urb n st) p + 1),
      a_seen := insert (p, ?s) (a_seen (abs_urb n st))\<rparr>
    = abs_urb n (st(p := ?x))\<lparr>a_delivered := deliveries_of n st\<rparr>"
    using abs_update(1) [where st = st, OF p seen] p by (simp add: abs_urb_def fun_eq_iff)
  ultimately show ?thesis unfolding broadcast(1)
    using simulate_turn [where st = st and T = T, OF p _ seen] inv' once [of p] by (simp add: broadcast(1) r_into_rtranclp)
next
  note inv' = step_inv [OF sz inv st'] and once = step_once [OF sz inv st']
  case (receive p bs e d m)
  note p = receive(2) note I = sys_invD [OF inv p]
  from receive(3) obtain q a where q: "q \<in> {1..n}" "(a, bs) \<in> set (net_out (pdata (st q)))"
    by (auto simp: in_flight_def)
  with sys_invD(1) [OF inv q(1)] have "good_bytes any_clock n (sightings_of n st) bs" by (auto simp: urb_inv_def net_good_def)
  from on_retD [OF receiver_turn_inv [OF sz I(4) _ _ I(1) this] receive(4)] p
  have "grows any_clock n p T (sightings_of n st) (snd ` sightings_of n st) (pdata (st p)) d" by simp
  then show ?thesis
    using inv' once [of p] unfolding receive(1) by (intro simulate_silent [OF p _ _ _ order.refl]) simp_all
next
  note inv' = step_inv [OF sz inv st'] and once = step_once [OF sz inv st']
  case (take p i r t q)
  have "grows any_clock n p T (sightings_of n st) {} (pdata (st p)) ((pdata (st p))\<lparr>task_q := q\<rparr>)"
    if "urb_inv any_clock n p T (sightings_of n st) ((pdata (st p))\<lparr>task_q := q\<rparr>)"
    using that by (rule grows_same) simp
  moreover have "urb_inv any_clock n p T (sightings_of n st) ((pdata (st p))\<lparr>task_q := q\<rparr>)"
    using on_retD [OF dequeue_good take(5)] sys_invD(1) [OF inv take(2)]
    by (intro urb_inv_queue) (auto simp: urb_inv_def)
  ultimately show ?thesis
    using inv' once [of p] unfolding take(1) by (intro simulate_silent [OF take(2)]) auto
next
  note inv' = step_inv [OF sz inv st'] and once = step_once [OF sz inv st']
  case (round p i t k e d)
  note I = sys_invD [OF inv round(2)]
  from I(2) round(3) have m: "good_msg any_clock n (sightings_of n st) (task_msg t)" by (auto simp: threads_good_def)
  from on_retD [OF send_pl_round_inv [OF sz I(1) m] round(4)]
  have "grows any_clock n p T (sightings_of n st) {} (pdata (st p)) d" by (auto intro: grows_same)
  then show ?thesis
    using inv' once [of p] unfolding round(1) by (intro simulate_silent [OF round(2)]) auto
next
  note inv' = step_inv [OF sz inv st'] and once = step_once [OF sz inv st']
  case (finish p i t k e r d ended)
  note I = sys_invD [OF inv finish(2)]
  from I(2) finish(3) have m: "good_msg any_clock n (sightings_of n st) (task_msg t)" by (auto simp: threads_good_def)
  from on_retD [OF send_pl_round_inv [OF sz I(1) m] finish(4)]
  have "grows any_clock n p T (sightings_of n st) {} (pdata (st p)) d" by (auto intro: grows_same)
  then show ?thesis
    using inv' once [of p] unfolding finish(1) by (intro simulate_silent [OF finish(2)]) auto
qed

lemma reachable_simulated:
  assumes "initial n T st0" "reachable E n st0 st"
  shows "urb_steps n urb_start (abs_urb n st)"
  using assms(2)
proof induction
  case start
  from abs_initial [OF assms(1)] show ?case by simp
next
  case (more st st')
  from assms(1) have "sizes n T" by (simp add: initial_def)
  from step_simulated [OF this reachable_inv [OF assms(1) more.hyps(1)] more.hyps(2)] more.IH
  show ?case by (rule rtranclp_trans [rotated])
qed

text \<open>C6: the system refines uniform reliable broadcast. Every state it reaches is reached by the
  abstract system, and every turn of a thread is matched by steps of the abstract system:
  broadcasts of the next message, sightings of messages others have seen, and deliveries, each
  at most once and backed by a majority.\<close>

theorem system_refines_urb:
  assumes "initial n T st0" "reachable E n st0 st" "step E n st st'"
  shows "urb_steps n urb_start (abs_urb n st) \<and> urb_steps n (abs_urb n st) (abs_urb n st')"
proof -
  from assms(1) have "sizes n T" by (simp add: initial_def)
  from step_simulated [OF this reachable_inv [OF assms(1,2)] assms(3)] reachable_simulated [OF assms(1,2)]
  show ?thesis by simp
qed

end
