(* ===== verification/LogInv.thy ===== *)
theory LogInv
  imports System
begin

text \<open>
  What the output files of the processes say. The log is the only output of the program:
  these lemmas follow it through every layer, from the buffer (src/log.c) to the turns of the
  threads, as long as \<open>fwrite\<close> writes what it is given.
\<close>

section \<open>The numbers in a log\<close>

fun own_numbers :: "log_event list \<Rightarrow> u32 list" where
  "own_numbers [] = []"
| "own_numbers (Broadcast s # evs) = s # own_numbers evs"
| "own_numbers (Deliver q s # evs) = own_numbers evs"

fun delivered_numbers :: "u32 \<Rightarrow> log_event list \<Rightarrow> u32 list" where
  "delivered_numbers p [] = []"
| "delivered_numbers p (Broadcast s # evs) = delivered_numbers p evs"
| "delivered_numbers p (Deliver q s # evs) = (if q = p then [s] else []) @ delivered_numbers p evs"

lemma numbers_append:
  "own_numbers (xs @ ys) = own_numbers xs @ own_numbers ys"
  "delivered_numbers p (xs @ ys) = delivered_numbers p xs @ delivered_numbers p ys"
proof -
  show "own_numbers (xs @ ys) = own_numbers xs @ own_numbers ys"
    by (induction xs rule: own_numbers.induct) simp_all
  show "delivered_numbers p (xs @ ys) = delivered_numbers p xs @ delivered_numbers p ys"
    by (induction p xs rule: delivered_numbers.induct) simp_all
qed

lemma delivered_numbers_mem: "s \<in> set (delivered_numbers p evs) \<Longrightarrow> Deliver p s \<in> set evs"
  by (induction p evs rule: delivered_numbers.induct) (auto split: if_splits)

text \<open>The numbers from 1 to \<open>k\<close>.\<close>

definition upto_number :: "nat \<Rightarrow> u32 list" where
  "upto_number k = map of_nat [1..<k + 1]"

lemma upto_number_simps [simp]:
  "upto_number 0 = []" "upto_number (Suc k) = upto_number k @ [of_nat (Suc k)]"
  by (simp_all add: upto_number_def)

text \<open>
  The log \<open>l\<close> is in order, and lists the own broadcasts 1, ..., \<open>b\<close> and for every process
  the deliveries 1, ..., up to the process' entry of the clock \<open>c\<close>.
\<close>

definition log_lists :: "nat \<Rightarrow> (nat \<Rightarrow> u32) \<Rightarrow> log_event list \<Rightarrow> bool" where
  "log_lists b c evs \<longleftrightarrow> list_all event_fits evs \<and> own_numbers evs = upto_number b
     \<and> (\<forall>p. delivered_numbers p evs = upto_number (unat (c (unat (p - 1)))))"

definition log_says :: "nat \<Rightarrow> (nat \<Rightarrow> u32) \<Rightarrow> log_data \<Rightarrow> bool" where
  "log_says b c l \<longleftrightarrow> log_ok l \<and> LINE_MAX_LENGTH \<le> buf_max_size l
     \<and> (\<exists>evs. log_text l = concat (map event_line evs) \<and> log_lists b c evs)"

definition log_inv :: "nat \<Rightarrow> net_data \<Rightarrow> bool" where
  "log_inv b data \<longleftrightarrow> log_says b (clock_val (vector_clock data)) (logdata data)"

text \<open>A line that is on the stack without overflow has a number below 1000, so the counter
  cannot wrap around.\<close>

lemma fitting_number: "event_fits (Deliver p s) \<Longrightarrow> unat s < 1000"
  using length_dec_le [of "unat s" 2] length_dec_pos [of "unat p"] by (simp add: event_fits_Deliver)

lemma log_lists_small:
  assumes "log_lists b c evs"
  shows "unat (c (unat (p - 1 :: u32))) < 1000"
proof (cases "unat (c (unat (p - 1)))")
  case (Suc j)
  then have "of_nat (unat (c (unat (p - 1)))) \<in> set (delivered_numbers p evs)"
    using assms by (simp add: log_lists_def)
  then have "event_fits (Deliver p (of_nat (unat (c (unat (p - 1))))))"
    using assms delivered_numbers_mem by (auto simp: log_lists_def list_all_iff)
  from fitting_number [OF this] show ?thesis by simp
qed simp

lemma log_lists_deliver:
  assumes "log_lists b c evs" "event_fits (Deliver p (c (unat (p - 1)) + 1))"
  shows "log_lists b (c(unat (p - 1) := c (unat (p - 1)) + 1)) (evs @ [Deliver p (c (unat (p - 1)) + 1)])"
proof -
  let ?k = "unat (c (unat (p - 1)))"
  have suc: "unat (c (unat (p - 1)) + 1) = Suc ?k"
    using log_lists_small [OF assms(1), of p] by (simp add: unat_word_ariths)
  have same: "unat (q - 1) = unat (p - 1) \<longleftrightarrow> q = p" for q by (simp add: word_unat_eq_iff [symmetric])
  have "(of_nat (Suc ?k) :: u32) = c (unat (p - 1)) + 1" by (simp add: add.commute)
  then show ?thesis
    using assms suc by (auto simp: log_lists_def numbers_append same)
qed

lemma log_lists_broadcast:
  "log_lists b c evs \<Longrightarrow> event_fits (Broadcast s) \<Longrightarrow> s = of_nat (b + 1)
    \<Longrightarrow> log_lists (b + 1) c (evs @ [Broadcast s])"
  by (simp add: log_lists_def numbers_append)

section \<open>The two calls that log\<close>

lemma record_event_text:
  assumes "full_writes e" "log_ok l" "LINE_MAX_LENGTH \<le> buf_max_size l" "record_event e l ev = ret (0, l')"
  shows "event_fits ev" "log_ok l'" "buf_max_size l' = buf_max_size l" "log_text l' = log_text l @ event_line ev"
proof -
  show fits: "event_fits ev" using assms(4) by (simp add: record_event_write split: if_splits)
  from record_event_ok [OF assms(2) fits assms(3), of e] assms(1,4)
  show "log_ok l'" "buf_max_size l' = buf_max_size l" "log_text l' = log_text l @ event_line ev"
    by (auto simp: full_writes_def)
qed

lemma log_says_event:
  assumes "full_writes e" "log_says b c l" "record_event e l ev = ret (0, l')"
    and "\<And>evs. event_fits ev \<Longrightarrow> log_lists b c evs \<Longrightarrow> log_lists b' c' (evs @ [ev])"
  shows "log_says b' c' l'"
proof -
  from assms(2) obtain evs where l: "log_ok l" "LINE_MAX_LENGTH \<le> buf_max_size l"
    "log_text l = concat (map event_line evs)" "log_lists b c evs" by (auto simp: log_says_def)
  note r = record_event_text [OF assms(1) l(1,2) assms(3)]
  from assms(4) [OF r(1) l(4)] r l show ?thesis
    unfolding log_says_def by (intro conjI exI [of _ "evs @ [ev]"]) simp_all
qed

lemma log_deliver_says:
  assumes "full_writes e" "log_says b c l"
  shows "on_ret (log_deliver e l \<lparr>sequence_num = c (unat (p - 1)) + 1, original_sender = p\<rparr>)
    (\<lambda>(r, l'). r = 0 \<longrightarrow> log_says b (c(unat (p - 1) := c (unat (p - 1)) + 1)) l')"
  using log_says_event [OF assms, of "Deliver p (c (unat (p - 1)) + 1)"] log_lists_deliver
  by (auto simp: on_ret_def)

lemma log_urb_broadcast_says:
  assumes "full_writes e" "log_says b c l" "sequence_num m = of_nat (b + 1)"
  shows "on_ret (log_urb_broadcast e l m) (\<lambda>(r, l'). r = 0 \<longrightarrow> log_says (b + 1) c l')"
proof -
  have "log_urb_broadcast e l m = record_event e l (Broadcast (of_nat (b + 1)))"
    using assms(3) by (simp add: log_urb_broadcast_def)
  with log_says_event [OF assms(1,2), of "Broadcast (of_nat (b + 1))"] log_lists_broadcast
  show ?thesis by (fastforce simp: on_ret_def)
qed

section \<open>The layers\<close>

lemma clock_val_mutex [simp]: "clock_val (c\<lparr>vc_mutex := m\<rparr>) = clock_val c"
  by (simp add: clock_val_def fun_eq_iff)

lemma clock_val_update:
  "vector c = Arr xs \<Longrightarrow> i < length xs \<Longrightarrow>
    clock_val (c\<lparr>vector := Arr (xs[i := v]), vc_mutex := m\<rparr>) = (clock_val c)(i := v)"
  by (auto simp: clock_val_def fun_eq_iff nth_list_update)

lemma log_inv_update [simp]:
  "log_inv b (data\<lparr>task_q := q\<rparr>) = log_inv b data" "log_inv b (data\<lparr>urb_tab := t\<rparr>) = log_inv b data"
  "log_inv b (data\<lparr>urbacks := a\<rparr>) = log_inv b data" "log_inv b (data\<lparr>net_out := out\<rparr>) = log_inv b data"
  "log_inv b (data\<lparr>pl_deliv := d\<rparr>) = log_inv b data" "log_inv b (data\<lparr>pl_acks := k\<rparr>) = log_inv b data"
  "log_inv b (data\<lparr>pending_lcb := p\<rparr>) = log_inv b data"
  "log_inv b (data\<lparr>vector_clock := (vector_clock data)\<lparr>vc_mutex := m\<rparr>\<rparr>) = log_inv b data"
  by (simp_all add: log_inv_def)

lemma test_vec_clock_log: "log_inv b data \<Longrightarrow> on_ret (test_vec_clock data v pid) (\<lambda>(_, d). log_inv b d)"
  unfolding test_vec_clock_def
  by (cases "get_dependencies (deps data) (unat pid)") simp_all

lemma get_vec_clock_copy_log: "log_inv b data \<Longrightarrow> on_ret (get_vec_clock_copy e data c) (\<lambda>(_, _, d). log_inv b d)"
  by (simp add: get_vec_clock_copy_def Let_def split_beta)

text \<open>The entry of the clock goes up by one, and the new value is what is logged.\<close>

lemma update_vec_clock_effect:
  "on_ret (update_vec_clock data pid) (\<lambda>(r, seq, d). r \<le> 0 \<and> (r = 0 \<longrightarrow> (\<exists>c.
     seq = Some (clock_val (vector_clock data) (unat (pid - 1)) + 1) \<and> d = data\<lparr>vector_clock := c\<rparr>
     \<and> clock_val c = (clock_val (vector_clock data))
         (unat (pid - 1) := clock_val (vector_clock data) (unat (pid - 1)) + 1))))"
proof -
  let ?i = "unat (pid - 1)" let ?c = "vector_clock data"
  have "\<exists>c. seq = Some (clock_val ?c ?i + 1) \<and> d = data\<lparr>vector_clock := c\<rparr>
     \<and> clock_val c = (clock_val ?c)(?i := clock_val ?c ?i + 1)"
    if run: "update_vec_clock data pid = ret (0, seq, d)" for seq d
  proof -
    from run obtain xs where xs: "vector ?c = Arr xs" "?i < length xs"
      by (cases "vector ?c") (auto simp: update_vec_clock_def bnd_eq_ret load_eq_ret split: if_splits)
    then have v: "clock_val ?c ?i = xs ! ?i" by (simp add: clock_val_def)
    from run xs have "seq = Some (xs ! ?i + 1)"
      "d = data\<lparr>vector_clock := ?c\<lparr>vector := Arr (xs[?i := xs ! ?i + 1]), vc_mutex := False\<rparr>\<rparr>"
      by (auto simp: update_vec_clock_def bnd_eq_ret split: if_splits)
    with clock_val_update [OF xs] v show ?thesis by (simp only: v) blast
  qed
  with update_vec_clock_code [of data pid] show ?thesis by (auto simp: on_ret_def)
qed

text \<open>The two calls that deliver: the clock is updated and its new value logged.\<close>

lemma count_and_log:
  assumes "full_writes e" "log_inv b data"
  shows "on_ret (update_vec_clock data pid) (\<lambda>(r, seq, d). r \<le> 0 \<and> (r = 0 \<longrightarrow>
    on_ret (log_deliver_lcb e d pid (case seq of Some s \<Rightarrow> s | None \<Rightarrow> 0))
      (\<lambda>(r, d). r \<le> 0 \<and> (r = 0 \<longrightarrow> log_inv b d))))"
proof -
  have log: "on_ret (log_deliver_lcb e (data\<lparr>vector_clock := c\<rparr>) pid (clock_val (vector_clock data) (unat (pid - 1)) + 1))
      (\<lambda>(r, d). r \<le> 0 \<and> (r = 0 \<longrightarrow> log_inv b d))"
    if "clock_val c = (clock_val (vector_clock data))
         (unat (pid - 1) := clock_val (vector_clock data) (unat (pid - 1)) + 1)" for c
  proof -
    have "log_says b (clock_val (vector_clock data)) (logdata data)" using assms(2) by (simp add: log_inv_def)
    from log_deliver_says [OF assms(1) this, of pid]
    have "on_ret (log_deliver_lcb e (data\<lparr>vector_clock := c\<rparr>) pid (clock_val (vector_clock data) (unat (pid - 1)) + 1))
        (\<lambda>(r, d). r = 0 \<longrightarrow> log_inv b d)"
      unfolding log_deliver_lcb_def
      by (auto simp: Let_def log_inv_def that intro: on_ret_mono)
    from on_ret_conj [OF this log_deliver_lcb_code'] show ?thesis by (rule on_ret_mono) auto
  qed
  show ?thesis by (rule on_ret_mono [OF update_vec_clock_effect]) (use log in auto)
qed

lemma remove_pending_log: "log_inv b data \<Longrightarrow> on_ret (remove_pending data i p) (\<lambda>(_, d). log_inv b d)"
  by (simp add: remove_pending_def Let_def split_beta)

lemma unlink_codes: "on_ret (remove_veclist p l h) (\<lambda>(r, _, _). r \<le> 0)"
  unfolding remove_veclist_def destroy_vector_def
  by (auto simp: Let_def split: option.splits intro!: on_ret_any [where m = "node_get h p" for h p]
      on_ret_any [where m = "unlink_next a b c d" for a b c d] on_ret_any [where m = "free x" for x]
      on_ret_any [where m = "unlink_previous a b c d" for a b c d])

lemma remove_pending_code: "on_ret (remove_pending data i p) (\<lambda>(r, _). r \<le> 0)"
  unfolding remove_pending_def
  by (auto simp: Let_def intro!: on_ret_any [where m = "load p i" for p i] on_ret_mono [OF unlink_codes]
      on_ret_any [where m = "store p i v" for p i v])

lemma find_in_list_log:
  assumes "full_writes e" "log_inv b data"
  shows "on_ret (find_in_list e i p f data) (\<lambda>(r, _, d). r \<le> 0 \<and> (r = 0 \<longrightarrow> log_inv b d))"
proof -
  have "(\<lambda>e i p f data y. full_writes e \<longrightarrow> log_inv b data \<longrightarrow>
      (\<forall>r f' d. y = Ret (r, f', d) \<longrightarrow> r \<le> 0 \<and> (r = 0 \<longrightarrow> log_inv b d))) e i p f data y"
    if "find_in_list e i p f data = Some y" for y
  proof (rule find_in_list.raw_induct [OF _ that], intro impI)
    fix g :: "env \<Rightarrow> nat \<Rightarrow> ref \<Rightarrow> int \<Rightarrow> net_data \<Rightarrow> (int \<times> int \<times> net_data) run"
      and e i p f data y
    assume hyp: "\<And>e i p f data y. g e i p f data = Some y \<Longrightarrow> full_writes e \<longrightarrow> log_inv b data \<longrightarrow>
        (\<forall>r f' d. y = Ret (r, f', d) \<longrightarrow> r \<le> 0 \<and> (r = 0 \<longrightarrow> log_inv b d))"
      and e: "full_writes e" and inv: "log_inv b data"
    have IH: "on_ret (g e i p f d) (\<lambda>(r, _, d). r \<le> 0 \<and> (r = 0 \<longrightarrow> log_inv b d))"
      if "log_inv b d" for i p f d
      using hyp e that by (auto simp: on_ret_def)
    let ?body = "if p = None then ret (0, f, data)
      else bnd (node_get (node_mem (pending_lcb data)) p) (\<lambda>nd.
           bnd (test_vec_clock data (node_clock nd) (of_nat (i + 1))) (\<lambda>(t, data).
           if t \<noteq> 0 then
             bnd (update_vec_clock data (of_nat (i + 1))) (\<lambda>(r, seq, data).
             if r \<noteq> 0 then ret (r, 1, data)
             else bnd (log_deliver_lcb e data (of_nat (i + 1)) (case seq of None \<Rightarrow> 0 | Some s \<Rightarrow> s)) (\<lambda>(r, data).
             if r \<noteq> 0 then ret (r, 1, data)
             else bnd (node_get (node_mem (pending_lcb data)) p) (\<lambda>nd.
             bnd (remove_pending data i (node_next nd)) (\<lambda>(r, data).
             if r \<noteq> 0 then ret (r, 1, data)
             else g e i (node_next nd) 1 data))))
           else g e i p f data))"
    assume body: "?body = Some y"
    have "on_ret ?body (\<lambda>(r, _, d). r \<le> 0 \<and> (r = 0 \<longrightarrow> log_inv b d))"
      using inv
      by (auto intro!: on_ret_mono [OF test_vec_clock_log [OF inv]] on_ret_mono [OF count_and_log [OF e]]
          on_ret_mono [OF IH] on_ret_mono [OF on_ret_conj [OF remove_pending_log remove_pending_code]]
          on_ret_any [where m = "node_get h q" for h q] elim!: on_ret_mono)
    then show "\<forall>r f' d. y = Ret (r, f', d) \<longrightarrow> r \<le> 0 \<and> (r = 0 \<longrightarrow> log_inv b d)"
      using body by (auto simp: on_ret_def)
  qed
  then show ?thesis using assms by (auto simp: on_ret_def)
qed

lemma find_in_lists_log:
  assumes "full_writes e"
  shows "log_inv b data \<Longrightarrow> on_ret (find_in_lists e i k f data) (\<lambda>(r, d). 0 \<le> r \<longrightarrow> log_inv b d)"
proof (induction k arbitrary: i f data)
  case (Suc k)
  show ?case
    by (auto intro!: on_ret_mono [OF Suc.IH] on_ret_mono [OF find_in_list_log [OF assms Suc.prems]]
        on_ret_any [where m = "load p j" for p j])
qed simp

lemma find_pending_all_log:
  assumes "full_writes e" "log_inv b data"
  shows "on_ret (find_pending_all e data) (\<lambda>(r, d). 0 \<le> r \<longrightarrow> log_inv b d)"
proof -
  have "(\<lambda>e data y. full_writes e \<longrightarrow> log_inv b data \<longrightarrow> (\<forall>r d. y = Ret (r, d) \<longrightarrow> 0 \<le> r \<longrightarrow> log_inv b d)) e data y"
    if "find_pending_all e data = Some y" for y
  proof (rule find_pending_all.raw_induct [OF _ that], intro impI)
    fix g :: "env \<Rightarrow> net_data \<Rightarrow> (int \<times> net_data) run" and e data y
    assume hyp: "\<And>e data y. g e data = Some y \<Longrightarrow> full_writes e \<longrightarrow> log_inv b data \<longrightarrow>
        (\<forall>r d. y = Ret (r, d) \<longrightarrow> 0 \<le> r \<longrightarrow> log_inv b d)"
      and e: "full_writes e" and inv: "log_inv b data"
    have IH: "on_ret (g e d) (\<lambda>(r, d). 0 \<le> r \<longrightarrow> log_inv b d)" if "log_inv b d" for d
      using hyp e that by (auto simp: on_ret_def)
    let ?body = "bnd (find_pending e data) (\<lambda>(r, data). if 0 < r then g e data else ret (r, data))"
    assume body: "?body = Some y"
    have "on_ret ?body (\<lambda>(r, d). 0 \<le> r \<longrightarrow> log_inv b d)"
      by (auto simp: find_pending_def intro!: on_ret_mono [OF find_in_lists_log [OF e inv]] on_ret_mono [OF IH])
    then show "\<forall>r d. y = Ret (r, d) \<longrightarrow> 0 \<le> r \<longrightarrow> log_inv b d"
      using body by (auto simp: on_ret_def)
  qed
  then show ?thesis using assms by (auto simp: on_ret_def)
qed

lemma deliver_lcb_log:
  assumes "full_writes e" "log_inv b data"
  shows "on_ret (deliver_lcb e data m) (\<lambda>(r, d). r = 0 \<longrightarrow> log_inv b d)"
  unfolding deliver_lcb_def Let_def
  by (auto intro!: on_ret_mono [OF test_vec_clock_log [OF assms(2)]] on_ret_mono [OF count_and_log [OF assms(1)]]
      on_ret_mono [OF find_pending_all_log [OF assms(1)]] on_ret_any [where m = "add_pending_lcb e p i c" for p i c]
      elim!: on_ret_mono)

lemma send_beb_log: "log_inv b data \<Longrightarrow> on_ret (send_beb e data m) (\<lambda>(_, d). log_inv b d)"
  by (rule on_ret_mono [OF send_beb_only_queue]) auto

lemma send_fl_log: "log_inv b data \<Longrightarrow> on_ret (send_fl e data pid m) (\<lambda>(_, d). log_inv b d)"
  by (rule on_ret_mono [OF send_fl_only_out]) auto

lemma urb_relay_log: "log_inv b data \<Longrightarrow> on_ret (urb_relay e data m) (\<lambda>(_, d). log_inv b d)"
  unfolding urb_relay_def
  by (auto simp: Let_def intro!: effects on_ret_mono [OF send_beb_log])

lemma deliver_urb_log:
  assumes "full_writes e" "log_inv b data"
  shows "on_ret (deliver_urb e data m) (\<lambda>(r, d). r = 0 \<longrightarrow> log_inv b d)"
  unfolding deliver_urb_def urb_try_deliver_def
  using assms(2)
  by (auto simp: Let_def intro!: effects on_ret_mono [OF urb_relay_log] on_ret_mono [OF deliver_lcb_log [OF assms(1)]])

text \<open>Its return code is never positive.\<close>

lemma table_grow_code: "on_ret (table_grow e i t) (\<lambda>(r, _). r \<le> 0)"
proof -
  have "(\<lambda>e i t y. \<forall>r t'. y = Ret (r, t') \<longrightarrow> r \<le> 0) e i t y" if "table_grow e i t = Some y" for y
  proof (rule table_grow.raw_induct [OF _ that])
    fix g :: "env \<Rightarrow> mid_t \<Rightarrow> uid_table \<Rightarrow> (int \<times> uid_table) run" and e i t y
    assume hyp: "\<And>e i t y. g e i t = Some y \<Longrightarrow> \<forall>r t'. y = Ret (r, t') \<longrightarrow> r \<le> 0"
    have IH: "on_ret (g e i t) (\<lambda>(r, _). r \<le> 0)" for t using hyp by (auto simp: on_ret_def)
    let ?body = "if total_entries t \<le> i then
        bnd (realloc_u32 e (entries t) (unat (total_entries t * 2))) (\<lambda>p.
          if p = Null then ret (err ERROR_MEMORY, t\<lparr>entries := Null\<rparr>)
          else bnd (memset_zero p (unat (total_entries t))
                      (unat (total_entries t * 2 - total_entries t))) (\<lambda>q.
            g e i (t\<lparr>entries := q, total_entries := total_entries t * 2, no_msgs := no_msgs t * 2\<rparr>)))
      else ret (0, t)"
    assume body: "?body = Some y"
    have "on_ret ?body (\<lambda>(r, _). r \<le> 0)"
      by (auto intro!: IH on_ret_any [where m = "realloc_u32 e p k" for p k]
          on_ret_any [where m = "memset_zero p k j" for p k j])
    with body show "\<forall>r t'. y = Ret (r, t') \<longrightarrow> r \<le> 0" by (auto simp: on_ret_def)
  qed
  then show ?thesis by (auto simp: on_ret_def)
qed

lemma realloc_table_code: "on_ret (realloc_table e t) (\<lambda>(r, _). r \<le> 0)"
  unfolding realloc_table_def
  by (auto simp: Let_def intro!: on_ret_any [where m = "urb_realloc_bytes e p k" for p k])

lemma urb_grow_code: "on_ret (urb_grow e i t) (\<lambda>(r, _). r \<le> 0)"
proof -
  have "(\<lambda>e i t y. \<forall>r t'. y = Ret (r, t') \<longrightarrow> r \<le> 0) e i t y" if "urb_grow e i t = Some y" for y
  proof (rule urb_grow.raw_induct [OF _ that])
    fix g :: "env \<Rightarrow> u32 \<Rightarrow> urb_table \<Rightarrow> (int \<times> urb_table) run" and e i t y
    assume hyp: "\<And>e i t y. g e i t = Some y \<Longrightarrow> \<forall>r t'. y = Ret (r, t') \<longrightarrow> r \<le> 0"
    have IH: "on_ret (g e i t) (\<lambda>(r, _). r \<le> 0)" for t using hyp by (auto simp: on_ret_def)
    let ?body = "if urb_total_entries t \<le> i then
        bnd (realloc_table e t) (\<lambda>(r, t'). if r \<noteq> 0 then ret (r, t') else g e i t')
      else ret (0, t)"
    assume body: "?body = Some y"
    have "on_ret ?body (\<lambda>(r, _). r \<le> 0)"
      by (auto intro!: IH on_ret_mono [OF realloc_table_code])
    with body show "\<forall>r t'. y = Ret (r, t') \<longrightarrow> r \<le> 0" by (auto simp: on_ret_def)
  qed
  then show ?thesis by (auto simp: on_ret_def)
qed

lemma set_ack_urb_code: "on_ret (set_ack_urb e d i) (\<lambda>(r, _). r \<le> 0)"
  unfolding set_ack_urb_def table_write_entry_def
  by (auto intro!: on_ret_mono [OF table_grow_code] on_ret_any [where m = "store p i v" for p i v])

lemma add_seen_code: "on_ret (add_seen_urb e t i) (\<lambda>(r, _). r \<le> 0)"
  unfolding add_seen_urb_def
  by (auto simp: Let_def intro!: on_ret_mono [OF urb_grow_code] on_ret_any [where m = "load p i" for p i]
      on_ret_any [where m = "store p i v" for p i v])

lemma add_delivered_code: "on_ret (add_delivered_urb e t i) (\<lambda>(r, _). r \<le> 0)"
  unfolding add_delivered_urb_def
  by (auto simp: Let_def intro!: on_ret_mono [OF urb_grow_code] on_ret_any [where m = "load p i" for p i]
      on_ret_any [where m = "store p i v" for p i v])

lemma beb_loop_code: "on_ret (beb_loop e data m i k) (\<lambda>(r, _). r \<le> 0)"
  by (induction k arbitrary: data i)
    (auto simp: Let_def intro!: on_ret_any [where m = "alloc_vector e c v x" for c v x] on_ret_mono [OF enqueue_code])

lemma send_beb_code: "on_ret (send_beb e data m) (\<lambda>(r, _). r \<le> 0)"
  unfolding send_beb_def
  by (auto intro!: on_ret_mono [OF beb_loop_code] on_ret_any [where m = "free x" for x])

lemma deliver_lcb_code: "on_ret (deliver_lcb e data m) (\<lambda>(r, _). r \<le> 0)"
  by (rule on_ret_mono [OF deliver_lcb_core]) auto

lemma deliver_urb_code: "on_ret (deliver_urb e data m) (\<lambda>(r, d). r \<le> 0)"
  unfolding deliver_urb_def urb_relay_def urb_try_deliver_def
  by (auto simp: Let_def intro!: on_ret_mono [OF set_ack_urb_code] on_ret_mono [OF add_seen_code]
      on_ret_mono [OF add_delivered_code] on_ret_mono [OF send_beb_code] on_ret_mono [OF deliver_lcb_code]
      on_ret_mono [OF alloc_vector_code] on_ret_any [where m = "is_seen_urb t i" for t i]
      on_ret_any [where m = "can_deliver d i" for d i] on_ret_any [where m = "is_delivered_urb t i" for t i])

lemma deliver_pl_log:
  assumes "full_writes e" "log_inv b data"
  shows "on_ret (deliver_pl e data m) (\<lambda>(r, d). 0 \<le> r \<longrightarrow> log_inv b d)"
  unfolding deliver_pl_def deliver_beb_def
  using assms(2)
  by (auto simp: Let_def intro!: effects on_ret_mono [OF send_fl_log]
      on_ret_mono [OF on_ret_conj [OF deliver_urb_log [OF assms(1)] deliver_urb_code]])

lemma receiver_turn_log:
  assumes "full_writes e" "log_inv b data"
  shows "on_ret (receiver_turn e data bs m0) (\<lambda>(x, d, _). x = None \<longrightarrow> log_inv b d)"
  unfolding receiver_turn_def process_msg_def deliver_fl_def
  by (auto simp: Let_def intro!: effects on_ret_mono [OF deliver_pl_log [OF assms]])

lemma send_pl_round_log: "log_inv b data \<Longrightarrow> on_ret (send_pl_round e pid data m i) (\<lambda>(_, d). log_inv b d)"
  unfolding send_pl_round_def
  by (auto simp: Let_def intro!: effects on_ret_mono [OF send_fl_log])

lemma send_lcb_round_log:
  assumes "full_writes e" "log_inv b data"
  shows "on_ret (send_lcb_round e data l (b + 1)) (\<lambda>(r, _, d). r = 0 \<longrightarrow> log_inv (b + 1) d)"
proof -
  have send: "on_ret (send_urb e d f m) (\<lambda>(r, d). r = 0 \<longrightarrow> log_inv (b + 1) d)"
    if d: "log_inv b d" "sequence_num f = of_nat (b + 1)" for d f m
  proof -
    have br: "on_ret (log_urb_broadcast e (logdata d) f)
        (\<lambda>(r, l). r = 0 \<longrightarrow> log_says (b + 1) (clock_val (vector_clock d)) l)"
      using log_urb_broadcast_says [OF assms(1) _ d(2)] d(1) by (simp add: log_inv_def)
    show ?thesis
      unfolding send_urb_def
      by (auto simp: Let_def log_inv_def intro!: on_ret_any [where m = "add_seen_urb e t i" for t i]
          on_ret_any [where m = "set_ack_urb e x i" for x i] on_ret_mono [OF br]
          on_ret_mono [OF send_beb_log [of "b + 1", unfolded log_inv_def]])
  qed
  show ?thesis
    unfolding send_lcb_round_def
    by (auto simp: Let_def intro!: on_ret_mono [OF get_vec_clock_copy_log [OF assms(2)]]
        on_ret_any [where m = "store p i v" for p i v] on_ret_mono [OF send])
qed

section \<open>The system\<close>

lemma step_log:
  assumes "step full_writes n st st'" "log_inv (sent (st q)) (pdata (st q))"
  shows "log_inv (sent (st' q)) (pdata (st' q))"
  using assms(1)
proof cases
  case (broadcast p e l d)
  show ?thesis
  proof (cases "q = p")
    case True
    with on_retD [OF send_lcb_round_log [OF broadcast(5)] broadcast(4)] assms(2) broadcast(1) show ?thesis by simp
  qed (use assms(2) broadcast(1) in simp)
next
  case (receive p bs e d m)
  show ?thesis
  proof (cases "q = p")
    case True
    with on_retD [OF receiver_turn_log [OF receive(5)] receive(4)] assms(2) receive(1) show ?thesis by simp
  qed (use assms(2) receive(1) in simp)
next
  case (take p i r t queue)
  with assms(2) show ?thesis by auto
next
  case (round p i t k e d)
  show ?thesis
  proof (cases "q = p")
    case True
    with on_retD [OF send_pl_round_log round(4)] assms(2) round(1) show ?thesis by simp
  qed (use assms(2) round(1) in simp)
next
  case (finish p i t k e r d ended)
  show ?thesis
  proof (cases "q = p")
    case True
    with on_retD [OF send_pl_round_log finish(4)] assms(2) finish(1) show ?thesis by simp
  qed (use assms(2) finish(1) in simp)
qed

lemma reachable_log:
  "reachable full_writes n st0 st \<Longrightarrow> log_inv (sent (st0 q)) (pdata (st0 q)) \<Longrightarrow> log_inv (sent (st q)) (pdata (st q))"
  by (induction rule: reachable.induct) (auto intro: step_log)

text \<open>A process that starts: an empty log and a clock of zeros.\<close>

definition log_fresh :: "net_data \<Rightarrow> bool" where
  "log_fresh data \<longleftrightarrow> log_ok (logdata data) \<and> LINE_MAX_LENGTH \<le> buf_max_size (logdata data)
     \<and> log_text (logdata data) = [] \<and> (\<forall>i. clock_val (vector_clock data) i = 0)"

lemma log_fresh_inv: "log_fresh data \<Longrightarrow> log_inv 0 data"
  unfolding log_inv_def log_says_def log_fresh_def
  by (auto simp: log_lists_def intro!: exI [of _ "[]"])

text \<open>C7: what the output says. If no write is cut short, then in every reachable state the log of
  every process (the file followed by the buffer) is a sequence of whole lines: its own
  broadcasts are numbered 1, 2, ... up to the rounds of \<open>send_lcb\<close> it has completed, and the
  deliveries of each process are numbered 1, 2, ... up to the entry of the vector clock, with
  no gap, no repetition and no inversion.\<close>

theorem logs_are_sequences:
  assumes "sent (st0 p) = 0" "log_fresh (pdata (st0 p))" "reachable full_writes n st0 st"
  shows "\<exists>evs. log_text (logdata (pdata (st p))) = concat (map event_line evs)
    \<and> own_numbers evs = map of_nat [1..<sent (st p) + 1]
    \<and> (\<forall>q. delivered_numbers q evs
          = map of_nat [1..<unat (clock_val (vector_clock (pdata (st p))) (unat (q - 1))) + 1])"
  using reachable_log [OF assms(3)] log_fresh_inv [OF assms(2)] assms(1)
  unfolding log_inv_def log_says_def log_lists_def upto_number_def by metis

end
