(* ===== verification/Accounting.thy ===== *)
theory Accounting
  imports LogInv
begin

text \<open>
  The books of localized causal broadcast: every message that uniform reliable broadcast has
  handed over is either counted in the vector clock (and logged) or waits in a pending list,
  and nothing else is counted. The invariant connects the table of src/urb.c with the clock
  and the lists of src/pending.c.
\<close>

section \<open>The invariant\<close>

definition of_origin :: "nat \<Rightarrow> nat \<Rightarrow> u32 set \<Rightarrow> u32 set" where
  "of_origin n q A = {s \<in> A. unat s mod n + 1 = q}"

definition accounted :: "net_data \<Rightarrow> nat list list \<Rightarrow> bool" where
  "accounted data ass \<longleftrightarrow> lcb_ok data ass \<and> (\<forall>q \<in> {1..num_proc data}.
     card (of_origin (num_proc data) q (delivered_set data))
       = unat (clock_val (vector_clock data) (q - 1)) + length (ass ! (q - 1)))"

definition books_ok :: "net_data \<Rightarrow> bool" where
  "books_ok data \<longleftrightarrow> (\<exists>ass. accounted data ass)"

text \<open>The part of the state it depends on, besides the delivered messages.\<close>

definition lcb_view :: "net_data \<Rightarrow> nat \<times> vec_clock \<times> dependencies option \<times> lcb_pending \<times> log_data" where
  "lcb_view d = (num_proc d, vector_clock d, deps d, pending_lcb d, logdata d)"

lemma lcb_view_update [simp]:
  "lcb_view (d\<lparr>task_q := q\<rparr>) = lcb_view d" "lcb_view (d\<lparr>urb_tab := t\<rparr>) = lcb_view d"
  "lcb_view (d\<lparr>urbacks := a\<rparr>) = lcb_view d" "lcb_view (d\<lparr>net_out := out\<rparr>) = lcb_view d"
  "lcb_view (d\<lparr>pl_deliv := v\<rparr>) = lcb_view d" "lcb_view (d\<lparr>pl_acks := k\<rparr>) = lcb_view d"
  by (simp_all add: lcb_view_def)

lemma lcb_ok_view: "lcb_view d = lcb_view data \<Longrightarrow> lcb_ok d ass = lcb_ok data ass"
  by (simp add: lcb_view_def lcb_ok_def clocks_ok_def dep_list_def)

lemma books_view:
  "lcb_view d = lcb_view data \<Longrightarrow> delivered_set d = delivered_set data \<Longrightarrow> books_ok d = books_ok data"
  using lcb_ok_view [of d data] by (simp add: books_ok_def accounted_def lcb_view_def)

lemma delivered_set_update [simp]:
  "delivered_set (d\<lparr>task_q := q\<rparr>) = delivered_set d" "delivered_set (d\<lparr>urbacks := a\<rparr>) = delivered_set d"
  "delivered_set (d\<lparr>net_out := out\<rparr>) = delivered_set d" "delivered_set (d\<lparr>pl_deliv := v\<rparr>) = delivered_set d"
  "delivered_set (d\<lparr>pl_acks := k\<rparr>) = delivered_set d" "delivered_set (d\<lparr>logdata := l\<rparr>) = delivered_set d"
  by (simp_all add: delivered_set_def)

lemma books_update [simp]:
  "books_ok (d\<lparr>task_q := q\<rparr>) = books_ok d" "books_ok (d\<lparr>urbacks := a\<rparr>) = books_ok d"
  "books_ok (d\<lparr>net_out := out\<rparr>) = books_ok d" "books_ok (d\<lparr>pl_deliv := v\<rparr>) = books_ok d"
  "books_ok (d\<lparr>pl_acks := k\<rparr>) = books_ok d"
  by (rule books_view; simp)+

text \<open>
  The books after a turn: the clock counts what it counted before, or one message more, which
  was not delivered before and carried a clock whose dependencies the process meets.
\<close>

definition counted :: "carried \<Rightarrow> nat \<Rightarrow> net_data \<Rightarrow> net_data \<Rightarrow> bool" where
  "counted R n data d \<longleftrightarrow> clock_val (vector_clock d) = clock_val (vector_clock data)
     \<or> (\<exists>s xs. s \<notin> delivered_set data \<and> s \<in> delivered_set d \<and> R s xs
          \<and> (\<forall>i. i \<noteq> unat s mod n \<longrightarrow> clock_val (vector_clock d) i = clock_val (vector_clock data) i)
          \<and> (\<forall>k \<in> set (dep_list data (unat s mod n + 1)). xs ! (k - 1) \<le> clock_val (vector_clock data) (k - 1)))"

definition booked :: "carried \<Rightarrow> nat \<Rightarrow> net_data \<Rightarrow> net_data \<Rightarrow> bool" where
  "booked R n data d \<longleftrightarrow> books_ok d \<and> counted R n data d"

lemma booked_refl: "books_ok data \<Longrightarrow> booked R n data data"
  by (simp add: booked_def counted_def)

lemma booked_from:
  "lcb_view d = lcb_view data \<Longrightarrow> delivered_set d = delivered_set data \<Longrightarrow> booked R n d d' = booked R n data d'"
  by (simp add: booked_def counted_def lcb_view_def dep_list_def)

lemma booked_to:
  "lcb_view d' = lcb_view d \<Longrightarrow> delivered_set d' = delivered_set d \<Longrightarrow> booked R n data d' = booked R n data d"
  using books_view [of d' d] by (simp add: booked_def counted_def lcb_view_def)

lemma booked_update [simp]:
  "booked R n data (d\<lparr>task_q := q\<rparr>) = booked R n data d" "booked R n data (d\<lparr>urbacks := a\<rparr>) = booked R n data d"
  "booked R n data (d\<lparr>net_out := out\<rparr>) = booked R n data d" "booked R n data (d\<lparr>pl_deliv := v\<rparr>) = booked R n data d"
  "booked R n data (d\<lparr>pl_acks := k\<rparr>) = booked R n data d"
  by (rule booked_to; simp)+

section \<open>One delivery\<close>

lemma deliver_lcb_books:
  assumes e: "full_writes e" and ok: "lcb_ok data ass" and m: "lcb_msg_ok data m"
    and run: "deliver_lcb e data m = ret (0, d)"
  shows "\<exists>ass'. lcb_ok d ass' \<and> num_proc d = num_proc data \<and> urb_tab d = urb_tab data
    \<and> ((clock_val (vector_clock d) = (clock_val (vector_clock data))
          (unat (lcb_original_sender m) - 1 := delivered_count data (lcb_original_sender m) + 1)
        \<and> deliverable data (lcb_clock m) (unat (lcb_original_sender m)) \<and> ass' = ass)
      \<or> (clock_val (vector_clock d) = clock_val (vector_clock data) \<and>
         (\<exists>a. ass' = ass[unat (lcb_original_sender m) - 1 := ass ! (unat (lcb_original_sender m) - 1) @ [a]])))"
proof -
  let ?pid = "lcb_original_sender m"
  have core: "num_proc d = num_proc data" "urb_tab d = urb_tab data"
    using on_retD [OF deliver_lcb_core run] by (auto dest: lcb_core_sel)
  from ok have clocks: "clocks_ok data" and log: "log_ok (logdata data)" "LINE_MAX_LENGTH \<le> buf_max_size (logdata data)"
    by (simp_all add: lcb_ok_def)
  note out = deliver_lcb_outcome [OF ok m run]
  show ?thesis
  proof (cases "deliverable data (lcb_clock m) (unat ?pid)")
    case True
    from deliver_lcb_step [OF clocks m True, of e] obtain c where
      "deliver_lcb e data m
        = bnd (log_deliver_lcb e (data\<lparr>vector_clock := c\<rparr>) ?pid (delivered_count data ?pid + 1)) (\<lambda>(r, data).
          if r \<noteq> 0 then ret (r, data)
          else bnd (find_pending_all e data) (\<lambda>(r, data). if r < 0 then ret (r, data) else ret (0, data)))" by blast
    with run obtain r l where "log_deliver e (logdata data) \<lparr>sequence_num = delivered_count data ?pid + 1,
        original_sender = ?pid\<rparr> = ret (r, l)"
      by (auto simp: bnd_eq_ret log_deliver_lcb_def)
    then have "record_event e (logdata data) (Deliver ?pid (delivered_count data ?pid + 1)) = ret (r, l)" by simp
    then have fits: "event_fits (Deliver ?pid (delivered_count data ?pid + 1))"
      by (simp add: record_event_write split: if_splits)
    have "concat ass = []" using out True by simp
    have io: "\<And>n. fwritten e n = n" using e by (simp add: full_writes_def)
    from deliver_lcb_delivers [OF ok \<open>concat ass = []\<close> m True fits io] obtain c l where
      "deliver_lcb e data m = ret (0, data\<lparr>vector_clock := c, logdata := l\<rparr>)"
      "lcb_ok (data\<lparr>vector_clock := c, logdata := l\<rparr>) ass"
      "clock_val c = (clock_val (vector_clock data)) (unat ?pid - 1 := delivered_count data ?pid + 1)"
      by blast
    with run core True show ?thesis by auto
  next
    case False
    from trans [OF deliver_lcb_pending_step [OF clocks m False, symmetric] run] obtain p where
      d: "d = data\<lparr>pending_lcb := p\<rparr>"
      by (auto simp: bnd_eq_ret Let_def split: if_splits prod.splits)
    let ?ass = "ass[unat ?pid - 1 := ass ! (unat ?pid - 1) @ [next_addr (node_mem (pending_lcb data))]]"
    from out False have "pending_ok (num_proc data) (pending_lcb d) ?ass" by simp
    then have "lcb_ok d ?ass" using clocks log d by (simp add: lcb_ok_def clocks_ok_def dep_list_def)
    with d core show ?thesis by auto
  qed
qed

lemma of_origin_insert:
  assumes "s \<notin> A"
  shows "card (of_origin n q (insert s A)) = card (of_origin n q A) + (if unat s mod n + 1 = q then 1 else 0)"
proof -
  have "of_origin n q (insert s A) = (if unat s mod n + 1 = q then insert s (of_origin n q A) else of_origin n q A)"
    by (auto simp: of_origin_def)
  moreover have "s \<notin> of_origin n q A" using assms by (simp add: of_origin_def)
  ultimately show ?thesis by simp
qed

text \<open>A message of process \<open>k\<close> is recorded as delivered and handed to \<open>deliver_lcb\<close>.\<close>

lemma books_deliver:
  assumes e: "full_writes e" and inv: "log_inv b data" and acc: "accounted data ass"
    and m: "clock_full (num_proc data) (lcb_clock (lcb_part m))" "from_origin (num_proc data) m"
    and n: "0 < num_proc data" and new: "seen_id m \<notin> delivered_set data"
    and t: "delivered_view t = (delivered_view (urb_tab data))(seen_id m := 1)"
    and R: "carries R (num_proc data) m"
    and run: "deliver_lcb e (data\<lparr>urb_tab := t\<rparr>) (lcb_part m) = ret (0, d)"
  shows "booked R (num_proc data) data d"
proof -
  let ?d = "data\<lparr>urb_tab := t\<rparr>" and ?pid = "lcb_original_sender (lcb_part m)" and ?n = "num_proc data"
  let ?k = "unat ?pid"
  have pid: "?k = unat (seen_id m) mod ?n + 1" using m(2) by (simp add: from_origin_def)
  have k: "1 \<le> ?k" "?k \<le> ?n" using pid n mod_less_divisor [OF n, of "unat (seen_id m)"] by linarith+
  have ok: "lcb_ok ?d ass" "lcb_msg_ok ?d (lcb_part m)"
    using acc lcb_ok_view [of ?d data ass] m(1) k by (simp_all add: accounted_def lcb_msg_ok_def)
  from deliver_lcb_books [OF e ok run] obtain ass' where
    d: "lcb_ok d ass'" "num_proc d = ?n" "urb_tab d = t"
    and cases: "(clock_val (vector_clock d) = (clock_val (vector_clock data))(?k - 1 := delivered_count data ?pid + 1)
          \<and> deliverable ?d (lcb_clock (lcb_part m)) ?k \<and> ass' = ass)
      \<or> (clock_val (vector_clock d) = clock_val (vector_clock data)
          \<and> (\<exists>a. ass' = ass[?k - 1 := ass ! (?k - 1) @ [a]]))" by auto
  have del: "delivered_set d = insert (seen_id m) (delivered_set data)"
    using d(3) t by (auto simp: delivered_set_def)
  have "unat (?pid - 1) = ?k - 1" using k(1) by (simp add: unat_sub_u32)
  moreover from inv obtain evs where "log_lists b (clock_val (vector_clock data)) evs"
    by (auto simp: log_inv_def log_says_def)
  ultimately have "unat (delivered_count data ?pid) < 1000"
    using log_lists_small [of b "clock_val (vector_clock data)" evs ?pid] by simp
  then have suc: "unat (delivered_count data ?pid + 1) = unat (delivered_count data ?pid) + 1"
    by (simp add: unat_word_ariths)
  have len: "length ass = ?n" using acc by (auto simp: accounted_def lcb_ok_def pending_ok_def)
  have "card (of_origin ?n q (delivered_set d)) = unat (clock_val (vector_clock d) (q - 1)) + length (ass' ! (q - 1))"
    if q: "q \<in> {1..?n}" for q
  proof -
    have old: "card (of_origin ?n q (delivered_set data))
        = unat (clock_val (vector_clock data) (q - 1)) + length (ass ! (q - 1))"
      using acc q by (simp add: accounted_def)
    have new': "card (of_origin ?n q (delivered_set d))
        = card (of_origin ?n q (delivered_set data)) + (if ?k = q then 1 else 0)"
      using of_origin_insert [OF new, of ?n q] del pid by simp
    have same: "q - 1 = ?k - 1 \<longleftrightarrow> ?k = q" using q k by auto
    have "?k - 1 < length ass" using len k by simp
    with cases old new' same suc show ?thesis by (auto simp: nth_list_update)
  qed
  with d(1,2) have books: "books_ok d" unfolding books_ok_def accounted_def by auto
  have "counted R ?n data d"
  proof (cases "clock_val (vector_clock d) = clock_val (vector_clock data)")
    case False
    with cases have c: "clock_val (vector_clock d) = (clock_val (vector_clock data))(?k - 1 := delivered_count data ?pid + 1)"
      and dl: "deliverable ?d (lcb_clock (lcb_part m)) ?k" by auto
    from m(1) obtain xs where xs: "vector (lcb_clock (lcb_part m)) = Arr xs" "length xs = ?n"
      by (auto simp: clock_full_def elim: clock_okE)
    have "R (seen_id m) xs" using R xs by (simp add: carries_def)
    moreover have "xs ! (j - 1) \<le> clock_val (vector_clock data) (j - 1)" if "j \<in> set (dep_list data ?k)" for j
    proof -
      have eq: "dep_list ?d = dep_list data" by (simp add: fun_eq_iff dep_list_def)
      then have "j \<in> set (dep_list ?d ?k)" using that by simp
      from dep_list_range [OF ok(1) _ this] k have "j - Suc 0 < ?n" by auto
      moreover have "clock_val (lcb_clock (lcb_part m)) (j - 1) \<le> clock_val (vector_clock data) (j - 1)"
        using dl that by (simp add: deliverable_def eq)
      ultimately show ?thesis using xs by (simp add: clock_val_def [of "lcb_clock (lcb_part m)"])
    qed
    ultimately show ?thesis unfolding counted_def using new del c pid
      by (intro disjI2 exI [of _ "seen_id m"] exI [of _ xs]) auto
  qed (simp add: counted_def)
  with books show ?thesis by (simp add: booked_def)
qed

lemma try_deliver_books:
  assumes e: "full_writes e" and inv: "log_inv b data" and acc: "books_ok data" and fit: "tab_fit n T data"
    and n: "num_proc data = n"
    and m: "clock_full n (lcb_clock (lcb_part m))" "from_origin n m" "carries R n m"
  shows "on_ret (urb_try_deliver e data m) (\<lambda>(r, d). r = 0 \<longrightarrow> booked R n data d)"
proof -
  have t: "sizes n T" "urb_ok (urb_tab data)" "urb_total_entries (urb_tab data) = T" "0 < n"
    using fit by (simp_all add: tab_fit_def sizes_def)
  from acc obtain ass where ass: "accounted data ass" by (auto simp: books_ok_def)
  note same = booked_refl [OF acc]
  have fresh: "on_ret (is_delivered_urb (urb_tab data) s) (\<lambda>v. v = 0 \<longrightarrow> s \<notin> delivered_set data)" for s
    by (simp add: is_delivered_view [OF t(2)] delivered_set_def)
  have del: "on_ret (deliver_lcb e (data\<lparr>urb_tab := tb\<rparr>) (lcb_part m)) (\<lambda>(r, d). r = 0 \<longrightarrow> booked R n data d)"
    if "seen_id m \<notin> delivered_set data" "delivered_view tb = (delivered_view (urb_tab data))(seen_id m := 1)" for tb
    using books_deliver [OF e inv ass _ _ _ that] m n t(4) by (auto simp: on_ret_def)
  show ?thesis
    unfolding urb_try_deliver_def
    by (auto simp: Let_def same simp del: fun_upd_apply
        intro!: on_ret_any [where m = "can_deliver a i" for a i] on_ret_mono [OF fresh]
        on_ret_mono [OF add_delivered_effect [OF t(1-3)]] on_ret_mono [OF del])
qed

section \<open>The turns of the threads\<close>

lemma send_beb_view: "on_ret (send_beb e data m) (\<lambda>(_, d). lcb_view d = lcb_view data \<and> delivered_set d = delivered_set data)"
  by (rule on_ret_mono [OF send_beb_only_queue]) auto

lemma urb_relay_view: "on_ret (urb_relay e data m) (\<lambda>(_, d). lcb_view d = lcb_view data)"
  unfolding urb_relay_def
  by (auto simp: Let_def intro!: effects on_ret_mono [OF send_beb_view])

lemma view_proc: "lcb_view d = lcb_view data \<Longrightarrow> num_proc d = num_proc data"
  by (simp add: lcb_view_def)

lemma view_log: "lcb_view d = lcb_view data \<Longrightarrow> log_inv b d = log_inv b data"
  by (simp add: lcb_view_def log_inv_def)

lemma deliver_urb_books:
  assumes e: "full_writes e" and inv: "log_inv b data" and acc: "books_ok data" and fit: "tab_fit n T data"
    and n: "num_proc data = n"
    and m: "clock_full n (lcb_clock (lcb_part m))" "from_origin n m" "carries R n m"
  shows "on_ret (deliver_urb e data m) (\<lambda>(r, d). r = 0 \<longrightarrow> booked R n data d)"
proof -
  have try_it: "on_ret (urb_try_deliver e d m) (\<lambda>(r, d). r = 0 \<longrightarrow> booked R n data d)"
    if "quiet T data d" "lcb_view d = lcb_view data" for d
  proof -
    have "delivered_set d = delivered_set data" using that(1) by (simp add: quiet_def)
    from books_view [OF that(2) this] acc have "books_ok d" by simp
    moreover have "log_inv b d" "num_proc d = n" using view_log [OF that(2)] view_proc [OF that(2)] inv n by simp_all
    ultimately show ?thesis
      using try_deliver_books [OF e _ _ quiet_fit [OF fit that(1)] _ m] booked_from [OF that(2) \<open>delivered_set d = _\<close>]
      by simp
  qed
  have fit': "tab_fit n T (data\<lparr>urbacks := a\<rparr>)" and q: "quiet T data (data\<lparr>urbacks := a\<rparr>)" for a
    using fit quiet_refl [OF fit] by (simp_all add: tab_fit_def)
  have relay: "on_ret (urb_relay e (data\<lparr>urbacks := a\<rparr>) m)
      (\<lambda>(r, d). lcb_view d = lcb_view data \<and> (r = 0 \<longrightarrow> quiet T data d))" for a
    by (rule on_ret_mono [OF on_ret_conj [OF urb_relay_view urb_relay_quiet [OF fit']]])
      (auto intro: quiet_trans [OF q])
  show ?thesis
    unfolding deliver_urb_def
    by (auto simp: Let_def intro!: on_ret_any [where m = "set_ack_urb e x i" for x i]
        on_ret_any [where m = "is_seen_urb t i" for t i] on_ret_mono [OF relay] try_it q)
qed

lemma tab_fit_update [simp]:
  "tab_fit n T (d\<lparr>net_out := out\<rparr>) = tab_fit n T d" "tab_fit n T (d\<lparr>pl_deliv := v\<rparr>) = tab_fit n T d"
  by (simp_all add: tab_fit_def)

lemma deliver_pl_books:
  assumes e: "full_writes e" and inv: "log_inv b data" and acc: "books_ok data" and fit: "tab_fit n T data"
    and n: "num_proc data = n"
    and m: "mtype m \<noteq> ACK_NO \<Longrightarrow>
      clock_full n (msg_clock m) \<and> from_origin n (urb_part m) \<and> carries R n (urb_part m)"
  shows "on_ret (deliver_pl e data m) (\<lambda>(r, d). 0 \<le> r \<longrightarrow> booked R n data d)"
proof (cases "mtype m = ACK_NO")
  case True
  then show ?thesis unfolding deliver_pl_def Let_def
    using booked_refl [OF acc] by (auto intro!: effects)
next
  case False
  have same: "booked R (num_proc data) (data\<lparr>net_out := out, pl_deliv := t\<rparr>) d = booked R (num_proc data) data d"
    for out t d by (rule booked_from) simp_all
  have up: "on_ret (deliver_urb e (data\<lparr>net_out := out, pl_deliv := t\<rparr>) (urb_part m))
      (\<lambda>(r, d). 0 \<le> r \<longrightarrow> booked R n data d)" for out t
    by (rule on_ret_mono [OF on_ret_conj [OF deliver_urb_code deliver_urb_books [OF e, of b _ n T]]])
      (use inv acc fit n m [OF False] in \<open>auto simp: same\<close>)
  from False show ?thesis unfolding deliver_pl_def deliver_beb_def Let_def
    using booked_refl [OF acc]
    by (auto intro!: on_ret_mono [OF send_fl_only_out] on_ret_any [where m = "is_delivered d i" for d i]
        on_ret_any [where m = "set_delivered e d i" for d i] on_ret_mono [OF up])
qed

text \<open>A data message that has been received has a clock of full length.\<close>

lemma deserialize_clock:
  assumes "n < 2 ^ 32"
  shows "on_ret (deserialize e m0 buf n) (\<lambda>(r, m). r = 0 \<longrightarrow> mtype m \<noteq> ACK_NO \<longrightarrow> clock_full n (msg_clock m))"
proof -
  have un: "unat (of_nat n :: u32) = n" using assms by (rule unat_of_nat_u32)
  have alloc: "on_ret (alloc_vector e c (of_nat n) p) (\<lambda>(r, c). r = 0 \<longrightarrow> clock_full n c)" for c p
    by (auto simp: alloc_vector_def Let_def clock_full_def clock_ok_def un on_ret_def bnd_eq_ret read_block_eq_ret
        split: if_splits)
  show ?thesis
    unfolding deserialize_def
    by (auto simp: Let_def ACK_NO_def intro!: on_ret_any [where m = "load p i" for p i] on_ret_mono [OF alloc])
qed

lemma receive_msg_clock:
  assumes "num_proc data = n" "n < 2 ^ 32"
  shows "on_ret (receive_msg e data buf bs m0) (\<lambda>(r, m, _). r = 0 \<longrightarrow> mtype m \<noteq> ACK_NO \<longrightarrow> clock_full n (msg_clock m))"
  unfolding receive_msg_def assms(1)
  by (auto simp: Let_def split: option.splits intro!: on_ret_any [where m = "read_block p k" for p k]
      on_ret_mono [OF deserialize_clock [OF assms(2)]])

lemma receiver_turn_books:
  assumes e: "full_writes e" and inv: "log_inv b data" and acc: "books_ok data"
    and sz: "sizes n T" and urb: "urb_inv R n p T S data" and bs: "good_bytes R n S bs"
  shows "on_ret (receiver_turn e data (Some bs) m0) (\<lambda>(x, d, _). x = None \<longrightarrow> booked R n data d)"
proof -
  have np: "num_proc data = n" using urb by (simp add: urb_inv_def)
  have msg: "on_ret (receive_msg e data (Arr (replicate (message_size n) 0)) (Some bs) m0)
      (\<lambda>(r, m, _). r = 0 \<longrightarrow> mtype m \<noteq> ACK_NO \<longrightarrow> clock_full n (msg_clock m)
        \<and> from_origin n (urb_part m) \<and> carries R n (urb_part m))"
    by (rule on_ret_mono [OF on_ret_conj [OF receive_good [OF np bs] receive_msg_clock [OF np sizes_small [OF sz]]]])
      (auto simp: good_msg_def good_urb_def)
  show ?thesis
    unfolding receiver_turn_def Let_def np process_msg_def deliver_fl_def
    by (auto intro!: on_ret_mono [OF msg] on_ret_mono [OF deliver_pl_books [OF e inv acc fit_inv [OF sz urb] np]]
        on_ret_any [where m = "free x" for x])
qed

lemma send_pl_round_books:
  "books_ok data \<Longrightarrow> on_ret (send_pl_round e pid data m i) (\<lambda>(_, d). booked R n data d)"
  using booked_refl [of data R n] unfolding send_pl_round_def
  by (auto simp: Let_def intro!: on_ret_any [where m = "is_ack a i" for a i]
      on_ret_any [where m = "enqueue e q t" for q t] on_ret_mono [OF send_fl_only_out])

lemma log_urb_broadcast_ok:
  assumes "full_writes e" "log_ok l" "LINE_MAX_LENGTH \<le> buf_max_size l"
  shows "on_ret (log_urb_broadcast e l m) (\<lambda>(r, l'). r = 0 \<longrightarrow> log_ok l' \<and> buf_max_size l' = buf_max_size l)"
proof -
  have eq: "log_urb_broadcast e l m = record_event e l (Broadcast (sequence_num m))"
    by (simp add: log_urb_broadcast_def)
  have "r = 0 \<longrightarrow> log_ok l' \<and> buf_max_size l' = buf_max_size l" if "log_urb_broadcast e l m = ret (r, l')" for r l'
    using record_event_text(2,3) [OF assms, of "Broadcast (sequence_num m)" l'] that unfolding eq by blast
  then show ?thesis unfolding on_ret_def by (simp only: split_paired_All prod.case) blast
qed

lemma send_lcb_round_books:
  assumes e: "full_writes e" and acc: "books_ok data" and fit: "tab_fit n T data"
  shows "on_ret (send_lcb_round e data l i) (\<lambda>(r, _, d). r = 0 \<longrightarrow> booked R n data d)"
proof -
  have t: "sizes n T" "urb_ok (urb_tab data)" "urb_total_entries (urb_tab data) = T"
    using fit by (simp_all add: tab_fit_def)
  from acc obtain ass where ass: "accounted data ass" by (auto simp: books_ok_def)
  then have log: "log_ok (logdata data)" "LINE_MAX_LENGTH \<le> buf_max_size (logdata data)"
    by (simp_all add: accounted_def lcb_ok_def)
  have upd: "booked R n data (data\<lparr>urb_tab := tb, urbacks := a, logdata := lg\<rparr>)"
    if "delivered_view tb = delivered_view (urb_tab data)" "log_ok lg" "buf_max_size lg = buf_max_size (logdata data)"
    for tb a lg
    using ass that
    by (auto simp: booked_def counted_def books_ok_def accounted_def lcb_ok_def clocks_ok_def dep_list_def
        delivered_set_def)
  have beb: "on_ret (send_beb e d m) (\<lambda>(_, d'). booked R n data d')" if "booked R n data d" for d m
    by (rule on_ret_mono [OF send_beb_view]) (use that booked_to in blast)
  have send: "on_ret (send_urb e data f lm) (\<lambda>(r, d'). r = 0 \<longrightarrow> booked R n data d')" for f lm
    unfolding send_urb_def Let_def
    by (auto simp: upd intro!: on_ret_mono [OF add_seen_effect [OF t]]
        on_ret_any [where m = "set_ack_urb e x i" for x i] on_ret_mono [OF log_urb_broadcast_ok [OF e log]]
        on_ret_mono [OF beb])
  show ?thesis
    unfolding send_lcb_round_def Let_def
    by (auto intro!: on_ret_mono [OF get_copy_same] on_ret_any [where m = "store q j v" for q j v]
        on_ret_mono [OF send])
qed

section \<open>The system\<close>

lemma step_books:
  assumes sz: "sizes n T" and inv: "sys_inv_of R n T st" and st': "step full_writes n st st'"
    and log: "log_inv (sent (st q)) (pdata (st q))" and acc: "books_ok (pdata (st q))"
  shows "booked R n (pdata (st q)) (pdata (st' q))"
  using st'
proof cases
  case (broadcast p e l d)
  show ?thesis
  proof (cases "q = p")
    case True
    with on_retD [OF send_lcb_round_books [OF broadcast(5) _ fit_inv [OF sz sys_inv_ofD(1) [OF inv broadcast(2)]]]
        broadcast(4)] acc broadcast(1) show ?thesis by simp
  qed (use booked_refl [OF acc] broadcast(1) in simp)
next
  case (receive p bs e d m)
  show ?thesis
  proof (cases "q = p")
    case True
    from receive(3) obtain r a where r: "r \<in> {1..n}" "(a, bs) \<in> set (net_out (pdata (st r)))"
      by (auto simp: in_flight_def)
    with sys_inv_ofD(1) [OF inv r(1)] have bs: "good_bytes R n (sightings_of n st) bs"
      by (auto simp: urb_inv_def net_good_def)
    from on_retD [OF receiver_turn_books [OF receive(5) _ _ sz sys_inv_ofD(1) [OF inv receive(2)] bs] receive(4)]
      True log acc receive(1) show ?thesis by simp
  qed (use booked_refl [OF acc] receive(1) in simp)
next
  case (take p i r t queue)
  with booked_refl [OF acc] show ?thesis by auto
next
  case (round p i t k e d)
  show ?thesis
  proof (cases "q = p")
    case True
    with on_retD [OF send_pl_round_books [where R = R and n = n] round(4)] acc round(1) show ?thesis by simp
  qed (use booked_refl [OF acc] round(1) in simp)
next
  case (finish p i t k e r d ended)
  show ?thesis
  proof (cases "q = p")
    case True
    with on_retD [OF send_pl_round_books [where R = R and n = n] finish(4)] acc finish(1) show ?thesis by simp
  qed (use booked_refl [OF acc] finish(1) in simp)
qed

lemma reachable_books:
  assumes "initial n T st0" "log_inv (sent (st0 q)) (pdata (st0 q))" "books_ok (pdata (st0 q))"
    and "reachable full_writes n st0 st"
  shows "books_ok (pdata (st q))"
  using assms(4)
proof induction
  case start
  from assms(3) show ?case .
next
  case (more st st')
  from assms(1) have "sizes n T" by (simp add: initial_def)
  from step_books [OF this reachable_inv [OF assms(1) more.hyps(1), unfolded sys_inv_def] more.hyps(2) _ more.IH]
    reachable_log [OF more.hyps(1) assms(2)] show ?case by (simp add: booked_def)
qed

text \<open>Empty books are in order.\<close>

lemma books_fresh:
  assumes "fresh n p T data" "log_fresh data" "lcb_ok data (replicate n [])"
  shows "books_ok data"
  using assms unfolding books_ok_def accounted_def
  by (intro exI [of _ "replicate n []"]) (auto simp: fresh_def log_fresh_def of_origin_def delivered_set_def)

text \<open>C9: nothing is lost and nothing is invented between uniform reliable broadcast and the log.
  In every reachable state, for every process and every original sender: the number of
  messages of that sender that were handed to localized causal broadcast is the number of
  deliveries counted in the vector clock plus the number of clocks in the sender's pending
  list; clock, lists, dependencies and log are well formed. (No write to the log file is cut
  short, and the process starts with an empty, well-formed log, clock and pending lists.)\<close>

theorem deliveries_accounted:
  assumes "initial n T st0" "p \<in> {1..n}" "log_fresh (pdata (st0 p))" "lcb_ok (pdata (st0 p)) (replicate n [])"
    and "reachable full_writes n st0 st"
  shows "\<exists>ass. lcb_ok (pdata (st p)) ass \<and> (\<forall>q \<in> {1..n}.
    card {s \<in> delivered_set (pdata (st p)). unat s mod n + 1 = q}
      = unat (clock_val (vector_clock (pdata (st p))) (q - 1)) + length (ass ! (q - 1)))"
proof -
  from assms(1,2) have st0: "fresh n p T (pdata (st0 p))" "sent (st0 p) = 0" by (auto simp: initial_def)
  have "log_inv (sent (st0 p)) (pdata (st0 p))" using log_fresh_inv [OF assms(3)] st0(2) by simp
  from reachable_books [OF assms(1) this books_fresh [OF st0(1) assms(3,4)] assms(5)]
  obtain ass where ass: "accounted (pdata (st p)) ass" by (auto simp: books_ok_def)
  have "num_proc (pdata (st p)) = n"
    using sys_invD(1) [OF reachable_inv [OF assms(1,5)] assms(2)] by (simp add: urb_inv_def)
  with ass show ?thesis by (auto simp: accounted_def of_origin_def)
qed

end
