(* ===== verification/Causal.thy ===== *)
theory Causal
  imports Accounting
begin

text \<open>
  Causal delivery, the purpose of localized causal broadcast: what a process had delivered of
  its dependencies when it broadcast a message, every process has delivered before it delivers
  the message. The clock of a message is followed from the vector clock of its sender (src/lcb.c)
  through the relays of every process (src/urb.c, src/beb.c), the task queues, the datagrams
  and the decoding, to the test in src/pending.c.
\<close>

section \<open>The clocks of the messages that were broadcast\<close>

text \<open>
  Message \<open>s\<close> was broadcast in the step from \<open>st1\<close> to \<open>st2\<close> of a run that starts in \<open>st0\<close> and
  goes on to \<open>st\<close>.
\<close>

definition broadcast_in :: "(env \<Rightarrow> bool) \<Rightarrow> nat \<Rightarrow> system \<Rightarrow> system \<Rightarrow> u32 \<Rightarrow> system \<Rightarrow> system \<Rightarrow> bool" where
  "broadcast_in E n st0 st s st1 st2 \<longleftrightarrow> reachable E n st0 st1 \<and> step E n st1 st2 \<and> reachable E n st2 st
     \<and> sent (st1 (unat s mod n + 1)) = unat s div n \<and> sent (st2 (unat s mod n + 1)) = unat s div n + 1"

definition sent_clock :: "(env \<Rightarrow> bool) \<Rightarrow> nat \<Rightarrow> system \<Rightarrow> system \<Rightarrow> carried" where
  "sent_clock E n st0 st s xs \<longleftrightarrow>
     (\<exists>st1 st2. broadcast_in E n st0 st s st1 st2 \<and> xs = new_clock n st1 (unat s mod n + 1))"

lemma sent_clock_mono:
  assumes "step E n st st'"
  shows "sent_clock E n st0 st \<le> sent_clock E n st0 st'"
proof -
  have "broadcast_in E n st0 st' s st1 st2" if "broadcast_in E n st0 st s st1 st2" for s st1 st2
    using that assms by (auto simp: broadcast_in_def intro: reachable.more)
  then show ?thesis unfolding sent_clock_def by blast
qed

text \<open>Every clock on its way is one that its sender had when it broadcast the message.\<close>

lemma reachable_clocks:
  assumes "initial n T st0" "reachable E n st0 st"
  shows "sys_inv_of (sent_clock E n st0 st) n T st"
  using assms(2)
proof induction
  case start
  from assms(1) show ?case by (rule initial_inv_of)
next
  case (more st st')
  from assms(1) have sz: "sizes n T" by (simp add: initial_def)
  note inv = sys_inv_of_mono [OF more.IH sent_clock_mono [OF more.hyps(2)]]
  show ?case
  proof (rule step_inv_of [OF sz inv more.hyps(2)])
    fix p s assume "sent (st' p) = sent (st p) + 1" "origin n s = p" "msg_number n s = sent (st p) + 1"
    with more.hyps have "broadcast_in E n st0 st' s st st'"
      by (auto simp: broadcast_in_def origin_def msg_number_def intro: reachable.start)
    with \<open>origin n s = p\<close> show "sent_clock E n st0 st' s (new_clock n st p)"
      by (auto simp: sent_clock_def origin_def)
  qed
qed

text \<open>An entry of the clock of a message: the own entry is the number of earlier broadcasts.\<close>

lemma new_clock_entry:
  assumes "q \<in> {1..n}" "k \<in> {1..n}" "sent (st q) < 2 ^ 32"
  shows "unat (new_clock n st q ! (k - 1)) =
    (if k = q then sent (st q) else unat (clock_val (vector_clock (pdata (st q))) (k - 1)))"
proof -
  have k: "k - 1 < n" "q - 1 < n" "q - 1 = k - 1 \<longleftrightarrow> k = q" using assms(1,2) by auto
  then have "new_clock n st q ! (k - 1) = (if k = q then of_nat (sent (st q)) else clock_val (vector_clock (pdata (st q))) (k - 1))"
    by (simp add: new_clock_def clock_sent_def nth_list_update)
  then show ?thesis using unat_of_nat_u32 [OF assms(3)] by simp
qed

section \<open>Causal delivery\<close>

lemma counted_causally:
  assumes init: "initial n T st0" and p: "p \<in> {1..n}" "q \<in> {1..n}"
    and fresh: "log_fresh (pdata (st0 p))" "lcb_ok (pdata (st0 p)) (replicate n [])"
    and run: "reachable full_writes n st0 st" "step full_writes n st st'"
    and new: "clock_val (vector_clock (pdata (st' p))) (q - 1) \<noteq> clock_val (vector_clock (pdata (st p))) (q - 1)"
  shows "\<exists>s xs. unat s mod n + 1 = q \<and> s \<notin> delivered_set (pdata (st p)) \<and> s \<in> delivered_set (pdata (st' p))
    \<and> sent_clock full_writes n st0 st s xs
    \<and> (\<forall>k \<in> set (dep_list (pdata (st p)) q). k \<in> {1..n} \<and> xs ! (k - 1) \<le> clock_val (vector_clock (pdata (st p))) (k - 1))"
proof -
  from init p(1) have st0: "fresh n p T (pdata (st0 p))" "sent (st0 p) = 0" "sizes n T" by (auto simp: initial_def)
  have log: "log_inv (sent (st0 p)) (pdata (st0 p))" using log_fresh_inv [OF fresh(1)] st0(2) by simp
  have books: "books_ok (pdata (st p))"
    by (rule reachable_books [OF init log books_fresh [OF st0(1) fresh] run(1)])
  have "num_proc (pdata (st p)) = n"
    using sys_invD(1) [OF reachable_inv [OF init run(1)] p(1)] by (simp add: urb_inv_def)
  with books p(2) have deps: "set (dep_list (pdata (st p)) q) \<subseteq> {1..n}"
    using dep_list_range [of "pdata (st p)"] by (auto simp only: books_ok_def accounted_def)
  have "counted (sent_clock full_writes n st0 st) n (pdata (st p)) (pdata (st' p))"
    using step_books [OF st0(3) reachable_clocks [OF init run(1)] run(2) _ books] reachable_log [OF run(1) log]
    by (auto simp: booked_def)
  then obtain s xs where s: "s \<notin> delivered_set (pdata (st p))" "s \<in> delivered_set (pdata (st' p))"
    "sent_clock full_writes n st0 st s xs"
    "\<forall>i. i \<noteq> unat s mod n \<longrightarrow> clock_val (vector_clock (pdata (st' p))) i = clock_val (vector_clock (pdata (st p))) i"
    "\<forall>k \<in> set (dep_list (pdata (st p)) (unat s mod n + 1)). xs ! (k - 1) \<le> clock_val (vector_clock (pdata (st p))) (k - 1)"
    using new by (auto simp: counted_def)
  from s(4) new have "q - 1 = unat s mod n" by blast
  with p(2) have q: "unat s mod n + 1 = q" by auto
  with s deps show ?thesis by blast
qed

text \<open>C3: causal delivery. If no write is cut short: when a step of a reachable system counts (and
  logs) one more delivery from \<open>q\<close> at process \<open>p\<close>, then a message \<open>s\<close> of \<open>q\<close> was delivered in
  this step for the first time, \<open>q\<close> broadcast it in some earlier step of the run, and for every
  process \<open>k\<close> that \<open>q\<close> depends on, \<open>p\<close> had already counted at least as many deliveries from \<open>k\<close>
  as \<open>q\<close> had when it broadcast \<open>s\<close>; if \<open>q\<close> depends on itself, \<open>p\<close> had counted at least as many
  deliveries from \<open>q\<close> as \<open>q\<close> had broadcast messages before.\<close>

theorem causal_delivery:
  assumes "initial n T st0" "p \<in> {1..n}" "q \<in> {1..n}"
    and "log_fresh (pdata (st0 p))" "lcb_ok (pdata (st0 p)) (replicate n [])"
    and "reachable full_writes n st0 st" "step full_writes n st st'"
    and "clock_val (vector_clock (pdata (st' p))) (q - 1) \<noteq> clock_val (vector_clock (pdata (st p))) (q - 1)"
  shows "\<exists>s st1 st2. unat s mod n + 1 = q
    \<and> s \<notin> delivered_set (pdata (st p)) \<and> s \<in> delivered_set (pdata (st' p))
    \<and> broadcast_in full_writes n st0 st s st1 st2
    \<and> (\<forall>k \<in> set (dep_list (pdata (st p)) q).
        (if k = q then unat s div n else unat (clock_val (vector_clock (pdata (st1 q))) (k - 1)))
          \<le> unat (clock_val (vector_clock (pdata (st p))) (k - 1)))"
proof -
  from counted_causally [OF assms] obtain s xs where
    s: "unat s mod n + 1 = q" "s \<notin> delivered_set (pdata (st p))" "s \<in> delivered_set (pdata (st' p))"
    and xs: "sent_clock full_writes n st0 st s xs"
      "\<And>k. k \<in> set (dep_list (pdata (st p)) q) \<Longrightarrow>
        k \<in> {1..n} \<and> xs ! (k - 1) \<le> clock_val (vector_clock (pdata (st p))) (k - 1)" by blast
  from xs(1) s(1) obtain st1 st2 where b: "broadcast_in full_writes n st0 st s st1 st2" "xs = new_clock n st1 q"
    by (auto simp: sent_clock_def)
  with s(1) have num: "sent (st1 q) = unat s div n" by (auto simp: broadcast_in_def)
  have "unat s div n < 4294967296" by (rule le_less_trans [OF div_le_dividend unat_u32_lt])
  with num have small: "sent (st1 q) < 2 ^ 32" by simp
  have "(if k = q then unat s div n else unat (clock_val (vector_clock (pdata (st1 q))) (k - 1)))
      \<le> unat (clock_val (vector_clock (pdata (st p))) (k - 1))" if k: "k \<in> set (dep_list (pdata (st p)) q)" for k
    using xs(2) [OF k] new_clock_entry [where st = st1, OF assms(3) _ small, of k] by (auto simp: b(2) num word_le_nat_alt split: if_splits)
  with s b(1) show ?thesis by blast
qed

end
