(* ===== verification/SystemRun.thy ===== *)
theory SystemRun
  imports UrbAbstract Causal
begin

text \<open>
  A concrete run of three processes: process 1 broadcasts its message, one of its sender
  threads takes the task for process 2 and sends the datagram, and process 2 receives it.
  The states are computed from the definitions; the run shows that the hypotheses of the
  theorems on reachable states can hold with a message delivered.
\<close>

definition small_table :: uid_table where
  "small_table = \<lparr>no_msgs = 1, no_process = 3, total_entries = 9, entries = Arr (replicate 9 0)\<rparr>"

definition small_data :: "nat \<Rightarrow> net_data" where
  "small_data p = sample\<lparr>self_pid := p, num_msg := 1,
     address_book := Some \<lparr>ab_num_proc = 3, addresses = Arr (map (\<lambda>k. zero_addr\<lparr>sin_port := k\<rparr>) [1, 2, 3])\<rparr>,
     pl_acks := \<lparr>table_mutex = False, ack_tab = small_table\<rparr>,
     pl_deliv := \<lparr>pl_tab = small_table\<rparr>, urbacks := \<lparr>urb_ack_tab = small_table\<rparr>,
     urb_tab := \<lparr>urb_values = Arr (replicate 3 zero_urb_entry), urb_no_msgs = 1,
        urb_no_process = 3, urb_total_entries = 3\<rparr>\<rparr>"

definition small_system :: system where
  "small_system p = \<lparr>pdata = small_data p, rcv_msg = receiver_start good_env,
     bcast_msg = \<lparr>lcb_clock = uninit_clock good_env, lcb_original_sender = 0\<rparr>,
     sent = 0, threads = \<lambda>_. Idle\<rparr>"

declare urb_grow.simps [code] table_grow.simps [code] find_in_list.simps [code]
  find_pending_all.simps [code]

fun the_ret :: "'a run \<Rightarrow> 'a" where
  "the_ret (Some (Ret x)) = x"

definition run1 :: "int \<times> lcb_msg \<times> net_data" where
  "run1 = the_ret (send_lcb_round good_env (small_data 1) (bcast_msg (small_system 1)) 1)"

definition run2 :: "int \<times> queue_task option \<times> msg_queue" where
  "run2 = the_ret (dequeue (task_q (snd (snd run1))))"

definition run2_data :: net_data where
  "run2_data = (snd (snd run1))\<lparr>task_q := snd (snd run2)\<rparr>"

text \<open>The task for process 2, and its datagram.\<close>

definition task2 :: queue_task where
  "task2 = \<lparr>pid_dest = 2, task_msg =
     \<lparr>urb_part = \<lparr>lcb_part = \<lparr>lcb_clock = \<lparr>vc_num_proc = 3, vector = Arr [0, 0, 0], vc_mutex = False\<rparr>,
          lcb_original_sender = 1\<rparr>, fifo_part = \<lparr>sequence_num = 1, original_sender = 1\<rparr>,
        seen_id = 0, urb_mid = 0\<rparr>,
      msg_mid = 0, ackid = 1, sender = 1, mtype = 0\<rparr>\<rparr>"

definition bytes2 :: "byte list" where
  "bytes2 = [0,0,0,0, 1,0,0,0, 1,0,0,0, 0,0,0,0, 0,0,0,0, 0,0,0,0, 1,0,0,0, 0,0,0,0, 0,0,0,0, 0,0,0,0]"

definition run4 :: "int option \<times> net_data \<times> msg" where
  "run4 = the_ret (receiver_turn good_env (small_data 2) (Some bytes2) (receiver_start good_env))"

text \<open>A call returns a result that meets a test; each call is evaluated once.\<close>

definition gives :: "'a run \<Rightarrow> ('a \<Rightarrow> bool) \<Rightarrow> bool" where
  "gives r P = (case r of Some (Ret x) \<Rightarrow> P x | _ \<Rightarrow> False)"

lemma givesD: "gives r P \<Longrightarrow> r = ret (the_ret r) \<and> P (the_ret r)"
  by (auto simp: gives_def split: option.splits res.splits)

lemma run1_ret: "gives (send_lcb_round good_env (small_data 1) (bcast_msg (small_system 1)) 1)
    (\<lambda>(r, _, d). r = 0 \<and> pl_acks d = pl_acks (small_data 1)
      \<and> address_book d = address_book (small_data 1) \<and> num_proc d = 3 \<and> net_out d = []
      \<and> gives (dequeue (task_q d)) (\<lambda>(_, t, _). t = Some task2))"
  by code_simp

lemma bytes2: "msg_bytes good_env 3 (task_msg task2) = bytes2"
  by code_simp

lemma run4_ret: "gives (receiver_turn good_env (small_data 2) (Some bytes2) (receiver_start good_env))
    (\<lambda>(x, d, _). x = None \<and> delivered_view (urb_tab d) 0 = 1 \<and> seen_view (urb_tab d) 0 = 1
      \<and> clock_val (vector_clock d) 0 = 1)"
  by code_simp

lemma run1_fields: "pl_acks (snd (snd run1)) = pl_acks (small_data 1)"
  "address_book (snd (snd run1)) = address_book (small_data 1)"
  "num_proc (snd (snd run1)) = 3" "net_out (snd (snd run1)) = []"
  using givesD [OF run1_ret] by (auto simp: run1_def)

lemma run1_eq: "send_lcb_round good_env (small_data 1) (bcast_msg (small_system 1)) 1
    = ret (0, fst (snd run1), snd (snd run1))"
  using givesD [OF run1_ret] by (cases run1) (auto simp: run1_def)

lemma run2_eq: "dequeue (task_q (snd (snd run1))) = ret (fst run2, Some task2, snd (snd run2))"
proof -
  have "gives (dequeue (task_q (snd (snd run1)))) (\<lambda>(_, t, _). t = Some task2)"
    using givesD [OF run1_ret] by (auto simp: run1_def)
  from givesD [OF this] show ?thesis by (cases run2) (auto simp: run2_def)
qed

lemma run4_eq: "receiver_turn good_env (small_data 2) (Some bytes2) (receiver_start good_env)
    = ret (None, fst (snd run4), snd (snd run4))"
  and run4_views: "delivered_view (urb_tab (fst (snd run4))) 0 = 1" "seen_view (urb_tab (fst (snd run4))) 0 = 1"
    "clock_val (vector_clock (fst (snd run4))) 0 = 1"
  using givesD [OF run4_ret] by (cases run4, auto simp: run4_def)

definition run3_data :: net_data where
  "run3_data = run2_data\<lparr>net_out := [(addr_of (small_data 2) 2, bytes2)]\<rparr>"

lemma run3_ret: "send_pl_round good_env (pid_dest task2) run2_data (task_msg task2) 0 = ret (None, run3_data)"
proof -
  have acks: "acks_ok (pl_acks run2_data)" "ack_view (pl_acks run2_data) (ackid (task_msg task2)) = 0"
    using run1_fields
    by (simp_all add: run2_data_def small_data_def acks_ok_def table_ok_def small_table_def task2_def
        table_view_def word_le_nat_alt)
  have link: "link_ok run2_data (pid_dest task2) (task_msg task2)"
    using run1_fields
    by (simp add: link_ok_def run2_data_def small_data_def book_ok_def book_pids_def sendable_def task2_def)
  have n: "num_proc run2_data = 3" "net_out run2_data = []" "addr_of run2_data 2 = addr_of (small_data 2) 2"
    using run1_fields by (simp_all add: run2_data_def addr_of_def small_data_def)
  from send_pl_round_sends [OF acks _ link, of 0 good_env] show ?thesis
    by (simp add: THRESHOLD_def n run3_data_def bytes2) (simp add: task2_def n)
qed

definition st1 :: system where
  "st1 = small_system(1 := (small_system 1)\<lparr>pdata := snd (snd run1), bcast_msg := fst (snd run1),
     sent := sent (small_system 1) + 1\<rparr>)"

definition st2 :: system where
  "st2 = st1(1 := (st1 1)\<lparr>pdata := (pdata (st1 1))\<lparr>task_q := snd (snd run2)\<rparr>,
     threads := (threads (st1 1))(0 := Sending task2 0)\<rparr>)"

definition st3 :: system where
  "st3 = st2(1 := (st2 1)\<lparr>pdata := run3_data, threads := (threads (st2 1))(0 := Sending task2 (0 + 1))\<rparr>)"

definition st4 :: system where
  "st4 = st3(2 := (st3 2)\<lparr>pdata := fst (snd run4), rcv_msg := snd (snd run4)\<rparr>)"

lemma step1: "step full_writes 3 small_system st1"
proof -
  have "sent (small_system 1) < num_msg (pdata (small_system 1))"
    by (simp add: small_system_def small_data_def)
  moreover have "send_lcb_round good_env (pdata (small_system 1)) (bcast_msg (small_system 1))
      (sent (small_system 1) + 1) = ret (0, fst (snd run1), snd (snd run1))"
    using run1_eq by (simp add: small_system_def)
  ultimately show ?thesis unfolding st1_def by (intro step.broadcast) auto
qed

lemma step2: "step full_writes 3 st1 st2"
proof -
  have "dequeue (task_q (pdata (st1 1))) = ret (fst run2, Some task2, snd (snd run2))"
    using run2_eq by (simp add: st1_def)
  then show ?thesis unfolding st2_def
    by (intro step.take) (auto simp: st1_def small_system_def NUM_SENDER_THREADS_def)
qed

lemma step3: "step full_writes 3 st2 st3"
  unfolding st3_def
  by (rule step.round [where e = good_env])
    (use run3_ret in \<open>auto simp: st2_def st1_def run2_data_def\<close>)

lemma step4: "step full_writes 3 st3 st4"
proof -
  have "in_flight 3 st3 2 bytes2"
    by (auto simp: in_flight_def st3_def st2_def st1_def run3_data_def small_system_def intro!: bexI [of _ 1])
  moreover have "receiver_turn good_env (pdata (st3 2)) (Some bytes2) (rcv_msg (st3 2))
      = ret (None, fst (snd run4), snd (snd run4))"
    using run4_eq by (simp add: st3_def st2_def st1_def small_system_def)
  ultimately show ?thesis unfolding st4_def by (intro step.receive) auto
qed

lemma reachable_st3: "reachable full_writes 3 small_system st3"
  by (rule reachable.more [OF reachable.more [OF reachable.more [OF reachable.start step1] step2] step3])

lemma small_reachable: "reachable full_writes 3 small_system st4"
  by (rule reachable.more [OF reachable_st3 step4])

lemma small_fresh: "fresh 3 p 3 (small_data p)"
proof -
  have "seen_view (urb_tab (small_data p)) s = 0 \<and> delivered_view (urb_tab (small_data p)) s = 0" for s
    by (auto simp: small_data_def seen_view_def delivered_view_def zero_urb_entry_def word_le_nat_alt)
  then show ?thesis
    by (simp add: fresh_def small_data_def urb_ok_def table_ok_def small_table_def table_view_def
        word_le_nat_alt)
qed

lemma small_initial: "initial 3 3 small_system"
  using small_fresh by (simp add: initial_def sizes_def small_system_def)

lemma small_delivered: "delivered_view (urb_tab (pdata (st4 2))) 0 \<noteq> 0"
  using run4_views by (simp add: st4_def)

theorem delivery_needs_quorum_witness:
  "1 < card {q \<in> {1..3}. seen_view (urb_tab (pdata (st4 q))) 0 \<noteq> 0}"
  using delivery_needs_quorum [OF small_initial small_reachable _ small_delivered] by simp

lemma small_seen: "seen_view (urb_tab (pdata (st4 2))) 0 \<noteq> 0"
  using run4_views by (simp add: st4_def)

theorem seen_was_broadcast_witness: "1 \<le> sent (st4 1)"
  using seen_was_broadcast [OF small_initial small_reachable _ small_seen] by simp

theorem delivered_at_most_once_witness:
  "\<exists>s. delivered_set (pdata (st4 2)) = insert s (delivered_set (pdata (st3 2)))
     \<and> s \<notin> delivered_set (pdata (st3 2))"
proof -
  note reach = reachable_st3
  have "0 \<in> delivered_set (pdata (st4 2))" using small_delivered by (simp add: delivered_set_def)
  moreover have "0 \<notin> delivered_set (pdata (st3 2))"
    using small_fresh [of 2]
    by (simp add: fresh_def delivered_set_def st3_def st2_def st1_def small_system_def)
  ultimately show ?thesis
    using delivered_at_most_once [OF small_initial reach step4, of 2] by auto
qed

theorem system_invariant_inductive_witness: "sys_inv 3 3 small_system \<and> sys_inv 3 3 st1"
proof -
  have "sys_inv 3 3 small_system" by (rule initial_inv [OF small_initial])
  moreover have "sizes 3 3" using small_initial by (simp add: initial_def)
  ultimately show ?thesis using system_invariant_inductive [OF _ _ step1] by blast
qed

theorem system_refines_urb_witness:
  "urb_steps 3 (abs_urb 3 st3) (abs_urb 3 st4) \<and> (2, 0) \<in> a_delivered (abs_urb 3 st4)"
proof -
  note reach = reachable_st3
  have "(2, 0) \<in> a_delivered (abs_urb 3 st4)"
    using small_delivered by (simp add: abs_urb_def deliveries_of_def delivered_set_def)
  with system_refines_urb [OF small_initial reach step4] show ?thesis by blast
qed

lemma small_log_fresh: "log_fresh (pdata (small_system p))"
  by (simp add: log_fresh_def small_system_def small_data_def empty_log_ok clock_val_def sample_clock_def
      nth_Cons split: nat.splits)

theorem logs_are_sequences_witness:
  "\<exists>evs. log_text (logdata (pdata (st4 2))) = concat (map event_line evs)
    \<and> own_numbers evs = [] \<and> delivered_numbers 1 evs = [1]"
proof -
  have sent: "sent (small_system 2) = 0" "sent (st4 2) = 0"
    by (simp_all add: small_system_def st4_def st3_def st2_def st1_def)
  from logs_are_sequences [OF sent(1) small_log_fresh small_reachable] obtain evs where
    evs: "log_text (logdata (pdata (st4 2))) = concat (map event_line evs)"
      "own_numbers evs = map of_nat [1..<sent (st4 2) + 1]"
      "delivered_numbers 1 evs = map of_nat [1..<unat (clock_val (vector_clock (pdata (st4 2))) (unat (1 - 1 :: u32))) + 1]"
    by blast
  have "clock_val (vector_clock (pdata (st4 2))) (unat (1 - 1 :: u32)) = 1"
    using run4_views(3) by (simp add: st4_def)
  with evs sent(2) show ?thesis by (intro exI [of _ evs]) simp
qed

lemma small_lcb_ok: "lcb_ok (small_data p) [[], [], []]"
  using sample_lcb_ok by (simp add: small_data_def lcb_ok_def clocks_ok_def dep_list_def sample_def)

lemma small_lcb: "lcb_ok (pdata (small_system p)) (replicate 3 [])"
  using small_lcb_ok [of p] by (simp add: small_system_def numeral_3_eq_3)

theorem deliveries_accounted_witness:
  "\<exists>ass. lcb_ok (pdata (st4 2)) ass \<and> card {s \<in> delivered_set (pdata (st4 2)). unat s mod 3 + 1 = 1}
    = 1 + length (ass ! 0)"
proof -
  have p: "2 \<in> {1..3 :: nat}" by simp
  from deliveries_accounted [OF small_initial p small_log_fresh small_lcb small_reachable] obtain ass where
    ass: "lcb_ok (pdata (st4 2)) ass" "\<forall>q \<in> {1..3}. card {s \<in> delivered_set (pdata (st4 2)). unat s mod 3 + 1 = q}
      = unat (clock_val (vector_clock (pdata (st4 2))) (q - 1)) + length (ass ! (q - 1))" by blast
  have one: "1 \<in> {1..3 :: nat}" by simp
  have "clock_val (vector_clock (pdata (st4 2))) 0 = 1" using run4_views(3) by (simp add: st4_def)
  with bspec [OF ass(2) one] ass(1) show ?thesis by (intro exI [of _ ass]) simp
qed

theorem causal_delivery_witness:
  "\<exists>s st1 st2. unat s mod 3 + 1 = 1 \<and> s \<in> delivered_set (pdata (st4 2))
     \<and> broadcast_in full_writes 3 small_system st3 s st1 st2 \<and> dep_list (pdata (st3 2)) 1 = [2]
     \<and> clock_val (vector_clock (pdata (st1 1))) 1 \<le> clock_val (vector_clock (pdata (st3 2))) 1"
proof -
  have p: "2 \<in> {1..3 :: nat}" "1 \<in> {1..3 :: nat}" by simp_all
  have d: "pdata (st3 2) = small_data 2" by (simp add: st3_def st2_def st1_def small_system_def)
  have "clock_val (vector_clock (pdata (st4 2))) (1 - 1) \<noteq> clock_val (vector_clock (pdata (st3 2))) (1 - 1)"
    using run4_views(3) by (simp add: st4_def d) (simp add: small_data_def clock_val_def sample_clock_def)
  from causal_delivery [OF small_initial p small_log_fresh small_lcb reachable_st3 step4 this]
  obtain s st1 st2 where s: "unat s mod 3 + 1 = 1" "s \<in> delivered_set (pdata (st4 2))"
    "broadcast_in full_writes 3 small_system st3 s st1 st2"
    and deps: "\<forall>k \<in> set (dep_list (pdata (st3 2)) 1).
      (if k = 1 then unat s div 3 else unat (clock_val (vector_clock (pdata (st1 1))) (k - 1)))
        \<le> unat (clock_val (vector_clock (pdata (st3 2))) (k - 1))" by blast
  have "dep_list (pdata (st3 2)) 1 = [2]"
    using sample_dep_list(1) by (simp add: d small_data_def dep_list_def)
  with deps s show ?thesis by (intro exI conjI) (auto simp: word_le_nat_alt)
qed

end
