(* ===== verification/Progress.thy ===== *)
theory Progress
  imports Accounting
begin

text \<open>
  What the handlers of the receiving side do when nothing fails: a copy of a message is
  counted, a new message is relayed, and the copy that completes a majority makes the process
  deliver and log the message in the same turn (src/urb.c, src/lcb.c).
\<close>

section \<open>The counted copies of one message\<close>

text \<open>Message \<open>s\<close> is small enough for the tables: nothing grows, its row is not the last one.\<close>

definition roomy :: "nat \<Rightarrow> u32 \<Rightarrow> u32 \<Rightarrow> bool" where
  "roomy n T s \<longleftrightarrow> sizes n T \<and> unat s + 1 < unat T \<and> n * (unat s + 1) \<le> 8192"

text \<open>The copies of the processes \<open>K\<close> are counted, no other copy is.\<close>

definition acked_by :: "nat \<Rightarrow> u32 \<Rightarrow> u32 \<Rightarrow> nat set \<Rightarrow> urb_ack_table \<Rightarrow> bool" where
  "acked_by n T s K u \<longleftrightarrow> K \<subseteq> {1..n} \<and> table_ok (urb_ack_tab u) \<and> no_process (urb_ack_tab u) = of_nat n
     \<and> unat (total_entries (urb_ack_tab u)) = n * unat T
     \<and> (\<forall>a \<in> {1..n}. table_view (urb_ack_tab u) (mid_of n s a) = (if a \<in> K then 1 else 0))"

lemma roomyD:
  assumes "roomy n T s"
  shows "sizes n T" "s < T" "0 < n" "n < 2 ^ 32" "unat s \<le> 8192" "n \<le> 8192"
    "n * unat s + n \<le> 8192" "n * unat s + n + n \<le> n * unat T"
proof -
  from assms show s: "sizes n T" "s < T" "0 < n" "n < 2 ^ 32"
    by (auto simp: roomy_def sizes_def word_less_nat_alt)
  have le: "n * (unat s + 1) \<le> 8192" using assms by (simp add: roomy_def)
  then show "n * unat s + n \<le> 8192" by simp
  then show "n \<le> 8192" by simp
  have "unat s \<le> n * unat s" using s(3) by (cases n) simp_all
  with \<open>n * unat s + n \<le> 8192\<close> show "unat s \<le> 8192" by linarith
  have "n * (unat s + 2) \<le> n * unat T" using assms by (intro mult_le_mono2) (simp add: roomy_def)
  then show "n * unat s + n + n \<le> n * unat T" by (simp add: algebra_simps)
qed

lemma roomy_mid:
  assumes "roomy n T s" "a \<in> {1..n}"
  shows "unat (mid_of n s a) = n * unat s + (a - 1)" "unat (mid_of n s a) < n * unat s + n"
  using unat_mid_of [OF roomyD(1,2) [OF assms(1)], of a] assms(2) by auto

lemma mid_of_eq:
  assumes "roomy n T s" "a \<in> {1..n}" "b \<in> {1..n}"
  shows "mid_of n s a = mid_of n s b \<longleftrightarrow> a = b"
  using mid_of_inj [OF roomyD(1,2,2) [OF assms(1)], of a b] assms(2,3) by auto

lemma set_ack_at:
  assumes "roomy n T s" "acked_by n T s K u" "a \<in> {1..n}"
  shows "\<exists>u'. set_ack_urb e u (mid_of n s a) = ret (0, u') \<and> acked_by n T s (insert a K) u'"
proof -
  have "unat (mid_of n s a) < unat (total_entries (urb_ack_tab u))" "unat (mid_of n s a) \<le> 8192"
    using roomy_mid [OF assms(1,3)] roomyD(7,8) [OF assms(1)] assms(2) by (simp_all add: acked_by_def)
  then have "mid_of n s a \<in> table_ids (urb_ack_tab u)" by (simp add: table_ids_nat)
  with set_ack_urb_in_range [of u "mid_of n s a" e] assms(2) obtain u' where
    u': "set_ack_urb e u (mid_of n s a) = ret (0, u')" "table_ok (urb_ack_tab u')"
    "total_entries (urb_ack_tab u') = total_entries (urb_ack_tab u)"
    "no_process (urb_ack_tab u') = no_process (urb_ack_tab u)"
    "table_view (urb_ack_tab u') = (table_view (urb_ack_tab u))(mid_of n s a := 1)"
    unfolding acked_by_def by blast
  with assms(2,3) mid_of_eq [OF assms(1) _ assms(3)] show ?thesis
    by (intro exI [of _ u']) (auto simp: acked_by_def)
qed

lemma can_deliver_at:
  assumes "roomy n T s" "acked_by n T s K u"
  shows "can_deliver u s = ret (if n div 2 < card K then 1 else 0)"
proof -
  let ?t = "urb_ack_tab u"
  have n: "unat (of_nat n :: u32) = n" by (rule unat_of_nat_u32 [OF roomyD(4) [OF assms(1)]])
  have t: "table_ok ?t" "unat (no_process ?t) = n" "unat (total_entries ?t) = n * unat T"
    using assms(2) n by (simp_all add: acked_by_def)
  have K: "K \<subseteq> {1..n}" using assms(2) by (simp add: acked_by_def)
  have "table_view ?t (s * no_process ?t + of_nat k) = (if Suc k \<in> K then 1 else 0)" if "k < n" for k
  proof -
    have "s * no_process ?t + of_nat k = mid_of n s (Suc k)"
      using assms(2) by (simp add: mid_of_def acked_by_def algebra_simps)
    then show ?thesis using assms(2) that by (simp add: acked_by_def)
  qed
  then have "ackers u s = {k. k < n \<and> Suc k \<in> K}" using t(2) by (auto simp: ackers_def split: if_splits)
  also have "Suc ` \<dots> = K"
  proof
    show "K \<subseteq> Suc ` {k. k < n \<and> Suc k \<in> K}"
    proof
      fix a assume "a \<in> K"
      with K have "a \<in> {1..n}" by blast
      then have "a = Suc (a - 1)" "a - 1 < n" by auto
      with \<open>a \<in> K\<close> show "a \<in> Suc ` {k. k < n \<and> Suc k \<in> K}" by (metis (mono_tags, lifting) image_eqI mem_Collect_eq)
    qed
  qed auto
  then have "card K = card {k. k < n \<and> Suc k \<in> K}" by (metis card_image inj_Suc)
  finally have card: "card (ackers u s) = card K" by simp
  have row: "unat s * n + n < n * unat T" "unat s * n + n < 2 ^ 32"
    using roomyD(3,7,8) [OF assms(1)] by (simp_all add: mult.commute)
  show ?thesis using can_deliver_spec [OF t(1), of s] row by (simp add: t(2,3) card)
qed

section \<open>A copy arrives\<close>

text \<open>
  The state of uniform reliable broadcast for message \<open>s\<close> at a process that has counted the
  copies of \<open>K\<close>, its own among them unless it has seen nothing, and has not delivered \<open>s\<close>.
\<close>

definition collecting :: "nat \<Rightarrow> u32 \<Rightarrow> u32 \<Rightarrow> nat set \<Rightarrow> net_data \<Rightarrow> bool" where
  "collecting n T s K data \<longleftrightarrow> num_proc data = n \<and> self_pid data \<in> {1..n}
     \<and> urb_ok (urb_tab data) \<and> urb_total_entries (urb_tab data) = T
     \<and> (seen_view (urb_tab data) s \<noteq> 0 \<longleftrightarrow> K \<noteq> {}) \<and> (K \<noteq> {} \<longrightarrow> self_pid data \<in> K)
     \<and> delivered_view (urb_tab data) s = 0 \<and> acked_by n T s K (urbacks data)
     \<and> queue_ok (task_q data) \<and> (K = {} \<longrightarrow> length (queue_tasks (task_q data)) + n \<le> 2 ^ 31)"

text \<open>The copy that the process passes on.\<close>

definition relayed :: "nat \<Rightarrow> nat \<Rightarrow> urb_msg \<Rightarrow> urb_msg" where
  "relayed n q m = m\<lparr>urb_mid := mid_of n (seen_id m) q, lcb_part := (lcb_part m)\<lparr>lcb_clock :=
     (lcb_clock (lcb_part m))\<lparr>vc_num_proc := of_nat n, vector := Arr (clock_entries (lcb_clock (lcb_part m)) n)\<rparr>\<rparr>\<rparr>"

lemma send_beb_ok:
  assumes "vector (lcb_clock (lcb_part m)) = Arr xs" "\<And>j. grant e j" "num_proc data \<le> length xs"
    and "num_proc data < 2 ^ 31" "self_pid data < 2 ^ 32"
    and "queue_ok (task_q data)" "length (queue_tasks (task_q data)) + num_proc data \<le> 2 ^ 31"
  shows "\<exists>q. send_beb e data m = ret (0, data\<lparr>task_q := q\<rparr>) \<and> queue_ok q
    \<and> queue_tasks q = queue_tasks (task_q data)
        @ map (beb_task data m) (filter (\<lambda>i. i \<noteq> self_pid data) [1..<num_proc data + 1])"
  using beb_loop_spec [of m xs e data 1 "num_proc data"] assms
  by (auto simp: send_beb_def simp del: upt_Suc)

lemma urb_relay_ok:
  assumes room: "roomy n T s" and e: "\<And>k. grant e k"
    and np: "num_proc data = n" "self_pid data = q" "q \<in> {1..n}"
    and t: "urb_ok (urb_tab data)" "urb_total_entries (urb_tab data) = T"
    and u0: "acked_by n T s K (urbacks data)"
    and tq: "queue_ok (task_q data)" "length (queue_tasks (task_q data)) + n \<le> 2 ^ 31"
    and m: "seen_id m = s" "vector (lcb_clock (lcb_part m)) = Arr xs" "n \<le> length xs"
  shows "\<exists>t u tq. urb_relay e data m = ret (0, data\<lparr>urb_tab := t, urbacks := u, task_q := tq\<rparr>)
    \<and> urb_ok t \<and> urb_total_entries t = T \<and> seen_view t = (seen_view (urb_tab data))(s := 1)
    \<and> delivered_view t = delivered_view (urb_tab data) \<and> acked_by n T s (insert q K) u \<and> queue_ok tq
    \<and> queue_tasks tq = queue_tasks (task_q data) @ map (beb_task data (relayed n q m)) (filter (\<lambda>i. i \<noteq> q) [1..<n + 1])"
proof -
  have n31: "n < 2 ^ 31" using roomyD(6) [OF room] by simp
  have sid: "s \<in> urb_ids (urb_tab data)" using roomyD(2,5) [OF room] t(2) by (simp add: urb_ids_nat word_less_nat_alt)
  from add_seen_in_range [OF t(1) sid, of e] obtain t1 where
    t1: "add_seen_urb e (urb_tab data) s = ret (0, t1)" "urb_ok t1" "urb_total_entries t1 = T"
      "seen_view t1 = (seen_view (urb_tab data))(s := 1)" "delivered_view t1 = delivered_view (urb_tab data)"
    using t(2) by metis
  from set_ack_at [OF room u0 np(3), of e] obtain u1 where
    u1: "set_ack_urb e (urbacks data) (mid_of n s q) = ret (0, u1)" "acked_by n T s (insert q K) u1" by blast
  let ?d = "data\<lparr>urb_tab := t1, urbacks := u1\<rparr>" and ?m = "relayed n q m"
  have clock: "alloc_vector e c (of_nat n) (Arr xs) = ret (0, c\<lparr>vc_num_proc := of_nat n, vector := Arr (take n xs)\<rparr>)" for c
    using e m(3) n31 by (simp add: alloc_vector_Arr unat_of_nat_u32)
  have small: "self_pid ?d < 2 ^ 32" using np(2,3) n31 by simp
  have "vector (lcb_clock (lcb_part ?m)) = Arr (take n xs)" by (simp add: relayed_def clock_entries_def m(2))
  from send_beb_ok [OF this e _ _ small] np(1) m(3) n31 tq obtain tq1 where
    tq1: "send_beb e ?d ?m = ret (0, ?d\<lparr>task_q := tq1\<rparr>)" "queue_ok tq1"
      "queue_tasks tq1 = queue_tasks (task_q data) @ map (beb_task ?d ?m) (filter (\<lambda>i. i \<noteq> q) [1..<n + 1])"
    using np(2) by auto
  have bt: "beb_task ?d ?m = beb_task data ?m" by (simp add: fun_eq_iff beb_task_def)
  have run: "urb_relay e data m = ret (0, ?d\<lparr>task_q := tq1\<rparr>)"
    using t1(1) u1(1) tq1(1) m(1,2) np(1,2)
    by (simp add: urb_relay_def Let_def clock relayed_def clock_entries_def)
  with t1 u1(2) tq1(2,3) bt show ?thesis
    by (intro exI [of _ t1] exI [of _ u1] exI [of _ tq1]) simp
qed

lemma try_deliver_at:
  assumes room: "roomy n T s" and e: "full_writes e"
    and t: "urb_ok (urb_tab data)" "urb_total_entries (urb_tab data) = T" "delivered_view (urb_tab data) s = 0"
    and u: "acked_by n T s K (urbacks data)"
    and lcb: "lcb_ok data ass" "concat ass = []"
    and m: "seen_id m = s" "lcb_msg_ok data (lcb_part m)"
      "deliverable data (lcb_clock (lcb_part m)) (unat (lcb_original_sender (lcb_part m)))"
    and pid: "pid = lcb_original_sender (lcb_part m)" "snr = delivered_count data pid + 1" "event_fits (Deliver pid snr)"
  shows "\<exists>t c l. urb_try_deliver e data m = ret (0, data\<lparr>urb_tab := t, vector_clock := c, logdata := l\<rparr>)
    \<and> urb_ok t \<and> urb_total_entries t = T \<and> seen_view t = seen_view (urb_tab data)
    \<and> (if n div 2 < card K
       then delivered_view t s = 1 \<and> clock_val c = (clock_val (vector_clock data))(unat pid - 1 := snr)
         \<and> log_text l = log_text (logdata data) @ deliver_line pid snr
       else t = urb_tab data \<and> c = vector_clock data \<and> l = logdata data)"
proof (cases "n div 2 < card K")
  case False
  have "data = data\<lparr>urb_tab := urb_tab data, vector_clock := vector_clock data, logdata := logdata data\<rparr>"
    by (cases data) simp
  moreover have "urb_try_deliver e data m = ret (0, data)"
    using can_deliver_at [OF room u] False m(1) by (simp add: urb_try_deliver_def)
  ultimately show ?thesis using False t by metis
next
  case True
  have sid: "s \<in> urb_ids (urb_tab data)" using roomyD(2,5) [OF room] t(2) by (simp add: urb_ids_nat word_less_nat_alt)
  from add_delivered_in_range [OF t(1) sid, of e] obtain t1 where
    t1: "add_delivered_urb e (urb_tab data) s = ret (0, t1)" "urb_ok t1" "urb_total_entries t1 = T"
      "delivered_view t1 = (delivered_view (urb_tab data))(s := 1)" "seen_view t1 = seen_view (urb_tab data)"
    using t(2) by metis
  let ?d = "data\<lparr>urb_tab := t1\<rparr>"
  have d: "lcb_ok ?d ass" "lcb_msg_ok ?d (lcb_part m)"
    "deliverable ?d (lcb_clock (lcb_part m)) (unat (lcb_original_sender (lcb_part m)))"
    using lcb(1) m(2,3) lcb_ok_view [of ?d data ass] by (simp_all add: lcb_msg_ok_def deliverable_def dep_list_def)
  have io: "\<And>k. fwritten e k = k" using e by (simp add: full_writes_def)
  from deliver_lcb_delivers [OF d(1) lcb(2) d(2,3) _ io] pid obtain c l where
    "deliver_lcb e ?d (lcb_part m) = ret (0, ?d\<lparr>vector_clock := c, logdata := l\<rparr>)"
    "clock_val c = (clock_val (vector_clock data))(unat pid - 1 := snr)"
    "log_text l = log_text (logdata data) @ deliver_line pid snr" by auto
  moreover from this(1) have "urb_try_deliver e data m = ret (0, ?d\<lparr>vector_clock := c, logdata := l\<rparr>)"
    using can_deliver_at [OF room u] True m(1) t1(1) is_delivered_view [OF t(1)] t(3)
    by (simp add: urb_try_deliver_def)
  ultimately show ?thesis using True t1 by (intro exI [of _ t1] exI [of _ c] exI [of _ l]) simp
qed

lemma deliver_urb_copy:
  assumes room: "roomy n T s" and e: "\<And>k. grant e k" "full_writes e"
    and at: "collecting n T s K data" and q: "self_pid data = q" and a: "a \<in> {1..n}"
    and lcb: "lcb_ok data ass" "concat ass = []"
    and m: "seen_id m = s" "urb_mid m = mid_of n s a" "lcb_msg_ok data (lcb_part m)"
      "deliverable data (lcb_clock (lcb_part m)) (unat (lcb_original_sender (lcb_part m)))"
    and pid: "pid = lcb_original_sender (lcb_part m)" "snr = delivered_count data pid + 1" "event_fits (Deliver pid snr)"
  shows "\<exists>t u tq c l. deliver_urb e data m
      = ret (0, data\<lparr>urb_tab := t, urbacks := u, task_q := tq, vector_clock := c, logdata := l\<rparr>)
    \<and> queue_ok tq \<and> queue_tasks tq = queue_tasks (task_q data)
        @ (if K = {} then map (beb_task data (relayed n q m)) (filter (\<lambda>i. i \<noteq> q) [1..<n + 1]) else [])
    \<and> (if n div 2 < card (insert q (insert a K))
       then delivered_view t s = 1 \<and> clock_val c = (clock_val (vector_clock data))(unat pid - 1 := snr)
         \<and> log_text l = log_text (logdata data) @ deliver_line pid snr
       else collecting n T s (insert q (insert a K)) (data\<lparr>urb_tab := t, urbacks := u, task_q := tq\<rparr>)
         \<and> c = vector_clock data \<and> l = logdata data)"
proof -
  let ?K = "insert q (insert a K)"
  from at q have np: "num_proc data = n" "self_pid data = q" "q \<in> {1..n}"
    and t: "urb_ok (urb_tab data)" "urb_total_entries (urb_tab data) = T" "delivered_view (urb_tab data) s = 0"
    and sv: "seen_view (urb_tab data) s \<noteq> 0 \<longleftrightarrow> K \<noteq> {}" "K \<noteq> {} \<longrightarrow> q \<in> K"
    and u: "acked_by n T s K (urbacks data)"
    and tq: "queue_ok (task_q data)" "K = {} \<longrightarrow> length (queue_tasks (task_q data)) + n \<le> 2 ^ 31"
    by (simp_all add: collecting_def)
  from set_ack_at [OF room u a, of e] obtain u1 where
    u1: "set_ack_urb e (urbacks data) (mid_of n s a) = ret (0, u1)" "acked_by n T s (insert a K) u1" by blast
  let ?d1 = "data\<lparr>urbacks := u1\<rparr>"
  from m(3) np(1) obtain xs where xs: "vector (lcb_clock (lcb_part m)) = Arr xs" "n \<le> length xs"
    by (auto simp: lcb_msg_ok_def clock_full_def elim!: clock_okE)
  have "\<exists>t2 u2 tq2. (if seen_view (urb_tab data) s = 0 then urb_relay e ?d1 m else ret (0, ?d1))
        = ret (0, data\<lparr>urb_tab := t2, urbacks := u2, task_q := tq2\<rparr>)
      \<and> urb_ok t2 \<and> urb_total_entries t2 = T \<and> seen_view t2 s \<noteq> 0 \<and> delivered_view t2 s = 0
      \<and> acked_by n T s ?K u2 \<and> queue_ok tq2 \<and> queue_tasks tq2 = queue_tasks (task_q data)
        @ (if K = {} then map (beb_task data (relayed n q m)) (filter (\<lambda>i. i \<noteq> q) [1..<n + 1]) else [])"
  proof (cases "K = {}")
    case True
    have bt: "beb_task ?d1 x = beb_task data x" for x by (simp add: fun_eq_iff beb_task_def)
    have "urb_ok (urb_tab ?d1)" "urb_total_entries (urb_tab ?d1) = T" "acked_by n T s (insert a K) (urbacks ?d1)"
      "num_proc ?d1 = n" "self_pid ?d1 = q" "queue_ok (task_q ?d1)"
      "length (queue_tasks (task_q ?d1)) + n \<le> 2 ^ 31" using t u1(2) np tq True by simp_all
    from urb_relay_ok [OF room e(1) this(4,5) np(3) this(1,2,3,6,7) m(1) xs] obtain t2 u2 tq2 where
      "urb_relay e ?d1 m = ret (0, ?d1\<lparr>urb_tab := t2, urbacks := u2, task_q := tq2\<rparr>)"
      "urb_ok t2" "urb_total_entries t2 = T" "seen_view t2 = (seen_view (urb_tab ?d1))(s := 1)"
      "delivered_view t2 = delivered_view (urb_tab ?d1)" "acked_by n T s ?K u2" "queue_ok tq2"
      "queue_tasks tq2 = queue_tasks (task_q ?d1) @ map (beb_task ?d1 (relayed n q m)) (filter (\<lambda>i. i \<noteq> q) [1..<n + 1])"
      by blast
    with sv True t(3) bt show ?thesis
      by (intro exI [of _ t2] exI [of _ u2] exI [of _ tq2]) (simp del: upt_Suc)
  next
    case False
    then have "?K = insert a K" using sv(2) by auto
    moreover have "?d1 = data\<lparr>urb_tab := urb_tab data, urbacks := u1, task_q := task_q data\<rparr>" by (cases data) simp
    ultimately show ?thesis using False t u1(2) tq(1) sv(1)
      by (intro exI [of _ "urb_tab data"] exI [of _ u1] exI [of _ "task_q data"]) simp
  qed
  then obtain t2 u2 tq2 where two: "(if seen_view (urb_tab data) s = 0 then urb_relay e ?d1 m else ret (0, ?d1))
        = ret (0, data\<lparr>urb_tab := t2, urbacks := u2, task_q := tq2\<rparr>)"
      and t2: "urb_ok t2" "urb_total_entries t2 = T" "seen_view t2 s \<noteq> 0" "delivered_view t2 s = 0"
      and u2: "acked_by n T s ?K u2" and tq2: "queue_ok tq2" "queue_tasks tq2 = queue_tasks (task_q data)
        @ (if K = {} then map (beb_task data (relayed n q m)) (filter (\<lambda>i. i \<noteq> q) [1..<n + 1]) else [])" by blast
  let ?d2 = "data\<lparr>urb_tab := t2, urbacks := u2, task_q := tq2\<rparr>"
  have d2: "lcb_ok ?d2 ass" "lcb_msg_ok ?d2 (lcb_part m)"
    "deliverable ?d2 (lcb_clock (lcb_part m)) (unat (lcb_original_sender (lcb_part m)))"
    using lcb(1) m(3,4) lcb_ok_view [of ?d2 data ass] by (simp_all add: lcb_msg_ok_def deliverable_def dep_list_def)
  have u2': "acked_by n T s ?K (urbacks ?d2)" using u2 by simp
  from try_deliver_at [where data = ?d2, OF room e(2) _ _ _ u2' d2(1) lcb(2) m(1) d2(2,3) pid(1) _ pid(3)] t2 pid(2)
  obtain t3 c l where three: "urb_try_deliver e ?d2 m = ret (0, ?d2\<lparr>urb_tab := t3, vector_clock := c, logdata := l\<rparr>)"
    "if n div 2 < card ?K
       then delivered_view t3 s = 1 \<and> clock_val c = (clock_val (vector_clock data))(unat pid - 1 := snr)
         \<and> log_text l = log_text (logdata data) @ deliver_line pid snr
       else t3 = t2 \<and> c = vector_clock data \<and> l = logdata data" by auto
  have "deliver_urb e data m = urb_try_deliver e ?d2 m"
    using two by (simp add: deliver_urb_def m(1,2) np(1) u1(1) is_seen_view [OF t(1)])
  moreover have "collecting n T s ?K ?d2"
    using np t2 u2 tq2(1) by (simp add: collecting_def)
  ultimately show ?thesis using three tq2
    by (intro exI [of _ t3] exI [of _ u2] exI [of _ tq2] exI [of _ c] exI [of _ l]) (auto split: if_splits)
qed

section \<open>A datagram arrives\<close>

text \<open>
  The perfect link at a process: no acknowledgement has arrived, the messages \<open>M\<close> have been
  handed up, and \<open>A\<close> is the address of every process.
\<close>

definition linked :: "nat \<Rightarrow> u32 \<Rightarrow> (nat \<Rightarrow> sockaddr_in) \<Rightarrow> u32 set \<Rightarrow> net_data \<Rightarrow> bool" where
  "linked n s A M data \<longleftrightarrow> acks_ok (pl_acks data) \<and> (\<forall>i. ack_view (pl_acks data) i = 0)
     \<and> table_ok (pl_tab (pl_deliv data)) \<and> n * unat s + n \<le> unat (total_entries (pl_tab (pl_deliv data)))
     \<and> (\<forall>i. i \<notin> M \<longrightarrow> table_view (pl_tab (pl_deliv data)) i = 0)
     \<and> book_ok (address_book data) \<and> book_pids (address_book data) = {1..n}
     \<and> (\<forall>i \<in> {1..n}. get_addr (address_book data) i = ret (0, Some (A i)))"

lemma linked_update [simp]:
  "linked n s A M (d\<lparr>task_q := tq\<rparr>) = linked n s A M d" "linked n s A M (d\<lparr>urb_tab := t\<rparr>) = linked n s A M d"
  "linked n s A M (d\<lparr>urbacks := u\<rparr>) = linked n s A M d" "linked n s A M (d\<lparr>net_out := out\<rparr>) = linked n s A M d"
  "linked n s A M (d\<lparr>vector_clock := c\<rparr>) = linked n s A M d" "linked n s A M (d\<lparr>logdata := l\<rparr>) = linked n s A M d"
  by (simp_all add: linked_def)

lemma linked_addr:
  assumes "linked n s A M data" "i \<in> {1..n}" "i < 2 ^ 32"
  shows "addr_of data (of_nat i) = A i"
proof -
  have u: "unat (of_nat i :: u32) = i" by (rule unat_of_nat_u32 [OF assms(3)])
  with get_addr_in_book [of data "of_nat i"] assms(1,2) show ?thesis by (simp add: linked_def)
qed

lemma deliver_pl_copy:
  assumes room: "roomy n T s" and e: "\<And>k. grant e k" "\<And>k. sendto_ok e k"
    and link: "linked n s A M data" and np: "num_proc data = n" and a: "a \<in> {1..n}"
    and m: "mtype m \<noteq> ACK_NO" "sender m = of_nat a" "msg_mid m = mid_of n s a" "mid_of n s a \<notin> M"
  shows "\<exists>out v. linked n s A (insert (mid_of n s a) M) (data\<lparr>net_out := net_out data @ out, pl_deliv := v\<rparr>)
    \<and> deliver_pl e data m = bnd (deliver_urb e (data\<lparr>net_out := net_out data @ out, pl_deliv := v\<rparr>) (urb_part m))
        (\<lambda>(r, d). if r < 0 then ret (r, d) else ret (0, d))"
proof -
  have ua: "unat (of_nat a :: u32) = a" using a roomyD(4) [OF room] by (intro unat_of_nat_u32) simp
  let ?t = "pl_tab (pl_deliv data)"
  from link have book: "book_ok (address_book data)" "unat (sender m) \<in> book_pids (address_book data)"
    and t: "table_ok ?t" "n * unat s + n \<le> unat (total_entries ?t)" "table_view ?t (mid_of n s a) = 0"
    using a ua m(2,4) by (simp_all add: linked_def)
  from send_fl_ok [OF book ack_sendable e(1) e(2)] obtain out where
    fl: "send_fl e data (sender m) (ack_msg e data m) = ret (0, data\<lparr>net_out := net_out data @ out\<rparr>)" by blast
  have "mid_of n s a \<in> table_ids ?t"
    using roomy_mid(2) [OF room a] roomyD(7) [OF room] t(2) by (simp add: table_ids_nat)
  from table_write_view [OF t(1) this, of e 1] obtain t' where
    t': "table_write_entry e ?t (mid_of n s a) 1 = ret (0, t')" "table_ok t'" "total_entries t' = total_entries ?t"
    "table_view t' = (table_view ?t)(mid_of n s a := 1)" by blast
  let ?v = "(pl_deliv data)\<lparr>pl_tab := t'\<rparr>"
  have "linked n s A (insert (mid_of n s a) M) (data\<lparr>net_out := net_out data @ out, pl_deliv := ?v\<rparr>)"
    using link t' by (simp add: linked_def)
  moreover have "deliver_pl e data m = bnd (deliver_urb e (data\<lparr>net_out := net_out data @ out, pl_deliv := ?v\<rparr>) (urb_part m))
        (\<lambda>(r, d). if r < 0 then ret (r, d) else ret (0, d))"
    using fl m t(3) t'(1) table_read_view [OF t(1)]
    by (simp add: deliver_pl_def deliver_beb_def is_delivered_def set_delivered_def)
  ultimately show ?thesis by blast
qed

text \<open>A copy of message \<open>s\<close> that process \<open>a\<close> sends, and the tasks that send it to the others.\<close>

definition is_copy :: "nat \<Rightarrow> u32 \<Rightarrow> u32 list \<Rightarrow> nat \<Rightarrow> msg \<Rightarrow> bool" where
  "is_copy n s xs a m \<longleftrightarrow> sendable n m \<and> mtype m \<noteq> ACK_NO \<and> sender m = of_nat a \<and> msg_mid m = mid_of n s a
     \<and> urb_mid (urb_part m) = mid_of n s a \<and> seen_id (urb_part m) = s
     \<and> unat (lcb_original_sender (lcb_part (urb_part m))) = unat s mod n + 1
     \<and> clock_entries (msg_clock m) n = xs"

definition copy_tasks :: "nat \<Rightarrow> u32 \<Rightarrow> u32 list \<Rightarrow> nat \<Rightarrow> queue_task list \<Rightarrow> bool" where
  "copy_tasks n s xs q ts \<longleftrightarrow> map pid_dest ts = map of_nat (filter (\<lambda>i. i \<noteq> q) [1..<n + 1])
     \<and> (\<forall>t \<in> set ts. is_copy n s xs q (task_msg t))"

lemma copy_tasks_beb:
  assumes "num_proc data = n" "self_pid data = q" "seen_id m = s" "urb_mid m = mid_of n s q"
    and "unat (lcb_original_sender (lcb_part m)) = unat s mod n + 1"
    and "clock_entries (lcb_clock (lcb_part m)) n = xs" "length xs = n"
  shows "copy_tasks n s xs q (map (beb_task data m) (filter (\<lambda>i. i \<noteq> q) [1..<n + 1]))"
proof -
  have mid: "s * of_nat n + of_nat q - 1 = mid_of n s q" by (simp add: mid_of_def mult.commute)
  have entries: "clock_entries (c\<lparr>vc_num_proc := k, vector := Arr xs\<rparr>) n = xs" for c k
    using assms(7) by (simp add: clock_entries_def)
  have "is_copy n s xs q (task_msg (beb_task data m i))" for i
    using assms mid
    by (simp add: is_copy_def beb_task_def with_clock_def beb_message_def Let_def sendable_def ACK_NO_def entries)
  moreover have "pid_dest (beb_task data m i) = of_nat i" for i by (simp add: beb_task_def Let_def)
  ultimately show ?thesis by (auto simp: copy_tasks_def simp del: upt_Suc)
qed

lemma datagram_copy:
  assumes "datagram_of e' n m bs" "is_copy n s xs a m" "n < 2 ^ 32" "\<And>k. grant e k"
  shows "\<exists>m'. deserialize e m0 (Arr bs) n = ret (0, m') \<and> is_copy n s xs a m' \<and> clock_full n (msg_clock m')"
proof -
  from assms(1) have "serialize e' m n = ret (0, Arr bs)" by (simp add: datagram_of_def)
  note s = serialize_granted [OF this]
  from wire_roundtrip [OF s(2) grant_with_memory assms(4,3) s(1), of m0] obtain m' where
    m': "deserialize e m0 (Arr bs) n = ret (0, m')" "wire_of n m' = wire_of n m"
      "mtype m \<noteq> 1 \<longrightarrow> clock_ok n (msg_clock m')" by blast
  from m'(2,3) assms(2) have "is_copy n s xs a m'"
    by (auto simp: is_copy_def wire_of_def ACK_NO_def sendable_def clock_ok_def split: if_splits ptr.splits)
  moreover from this on_retD [OF deserialize_clock [OF assms(3)] m'(1)] have "clock_full n (msg_clock m')"
    by (simp add: is_copy_def)
  ultimately show ?thesis using m'(1) by blast
qed

text \<open>
  A process that has counted the copies of \<open>K\<close> receives that of \<open>a\<close>: it counts it and its own;
  a new message goes into its queue for everybody else; with a majority it is delivered.
\<close>

lemma receive_copy:
  assumes room: "roomy n T s" and e: "\<And>k. grant e k" "\<And>k. sendto_ok e k" "full_writes e"
    and at: "collecting n T s K data" and q: "self_pid data = q" and a: "a \<in> {1..n}" "mid_of n s a \<notin> M"
    and link: "linked n s A M data" and lcb: "lcb_ok data ass" "concat ass = []"
    and m: "datagram_of e' n m bs" "is_copy n s xs a m"
    and dep: "\<And>k. k \<in> set (dep_list data (unat s mod n + 1)) \<Longrightarrow> xs ! (k - 1) \<le> clock_val (vector_clock data) (k - 1)"
    and ev: "snr = clock_val (vector_clock data) (unat s mod n) + 1" "event_fits (Deliver (of_nat (unat s mod n + 1)) snr)"
  shows "\<exists>d m'. receiver_turn e data (Some bs) m0 = ret (None, d, m') \<and> num_proc d = n \<and> self_pid d = q
    \<and> linked n s A (insert (mid_of n s a) M) d \<and> queue_ok (task_q d)
    \<and> (\<exists>ts. queue_tasks (task_q d) = queue_tasks (task_q data) @ ts \<and> (K = {} \<longrightarrow> copy_tasks n s xs q ts))
    \<and> (if n div 2 < card (insert q (insert a K))
       then s \<in> delivered_set d \<and> log_text (logdata d) = log_text (logdata data)
           @ deliver_line (of_nat (unat s mod n + 1)) snr
       else collecting n T s (insert q (insert a K)) d \<and> lcb_view d = lcb_view data)"
proof -
  have np: "num_proc data = n" using at by (simp add: collecting_def)
  note n = roomyD(3,4) [OF room]
  from datagram_copy [OF m n(2) e(1), of m0] obtain md where
    md: "deserialize e m0 (Arr bs) n = ret (0, md)" "is_copy n s xs a md" "clock_full n (msg_clock md)" by blast
  have len: "length bs = message_size n" using m(1) by (simp add: datagram_of_def)
  have rcv: "receive_msg e data (Arr (replicate (message_size n) 0)) (Some bs) m0 = ret (0, md, Arr bs)"
    using md(1) len np by (simp add: receive_msg_def Let_def)
  from md(2) have c: "mtype md \<noteq> ACK_NO" "sender md = of_nat a" "msg_mid md = mid_of n s a"
    "urb_mid (urb_part md) = mid_of n s a" "seen_id (urb_part md) = s"
    "unat (lcb_original_sender (lcb_part (urb_part md))) = unat s mod n + 1"
    "clock_entries (msg_clock md) n = xs" by (simp_all add: is_copy_def)
  from md(3) obtain ys where "vector (msg_clock md) = Arr ys" "length ys = n"
    by (auto simp: clock_full_def elim: clock_okE)
  with c(7) have ys: "vector (msg_clock md) = Arr xs" "length xs = n" by (simp_all add: clock_entries_def)
  from deliver_pl_copy [OF room e(1,2) link np a(1) c(1-3) a(2)] obtain out v where
    v: "linked n s A (insert (mid_of n s a) M) (data\<lparr>net_out := net_out data @ out, pl_deliv := v\<rparr>)"
    and pl: "deliver_pl e data md = bnd (deliver_urb e (data\<lparr>net_out := net_out data @ out, pl_deliv := v\<rparr>) (urb_part md))
        (\<lambda>(r, d). if r < 0 then ret (r, d) else ret (0, d))" by blast
  let ?d = "data\<lparr>net_out := net_out data @ out, pl_deliv := v\<rparr>" and ?o = "unat s mod n + 1"
  let ?pid = "lcb_original_sender (lcb_part (urb_part md))"
  have pid: "?pid = of_nat ?o" using c(6) [symmetric] by simp
  have o: "?o \<in> {1..n}" using mod_less_divisor [OF n(1), of "unat s"] by simp
  have lcb': "lcb_ok ?d ass" using lcb_ok_view [of ?d data ass] lcb(1) by simp
  have at': "collecting n T s K ?d" "self_pid ?d = q" using at q by (simp_all add: collecting_def)
  have msg: "lcb_msg_ok ?d (lcb_part (urb_part md))" using md(3) o c(6) np by (simp add: lcb_msg_ok_def)
  have "k \<in> {1..n}" if "k \<in> set (dep_list data ?o)" for k
    using dep_list_range [OF lcb(1) _ that] o np by simp
  then have dl: "deliverable ?d (lcb_clock (lcb_part (urb_part md))) (unat ?pid)"
    using dep ys by (auto simp: deliverable_def dep_list_def clock_val_def [of "msg_clock md"] c(6))
  have snr: "snr = delivered_count ?d ?pid + 1" using ev(1) c(6) by simp
  from deliver_urb_copy [OF room e(1,3) at' a(1) lcb' lcb(2) c(5,4) msg dl refl snr] ev(2)
  obtain t u tq cl l where D: "deliver_urb e ?d (urb_part md)
      = ret (0, ?d\<lparr>urb_tab := t, urbacks := u, task_q := tq, vector_clock := cl, logdata := l\<rparr>)"
    "queue_ok tq" "queue_tasks tq = queue_tasks (task_q ?d)
        @ (if K = {} then map (beb_task ?d (relayed n q (urb_part md))) (filter (\<lambda>i. i \<noteq> q) [1..<n + 1]) else [])"
    "if n div 2 < card (insert q (insert a K))
       then delivered_view t s = 1 \<and> clock_val cl = (clock_val (vector_clock ?d))(unat ?pid - 1 := snr)
         \<and> log_text l = log_text (logdata ?d) @ deliver_line ?pid snr
       else collecting n T s (insert q (insert a K)) (?d\<lparr>urb_tab := t, urbacks := u, task_q := tq\<rparr>)
         \<and> cl = vector_clock ?d \<and> l = logdata ?d"
    unfolding pid by blast
  have tasks: "copy_tasks n s xs q (map (beb_task ?d (relayed n q (urb_part md))) (filter (\<lambda>i. i \<noteq> q) [1..<n + 1]))"
    by (rule copy_tasks_beb) (use np q c ys in \<open>simp_all add: relayed_def clock_entries_def\<close>)
  let ?r = "?d\<lparr>urb_tab := t, urbacks := u, task_q := tq, vector_clock := cl, logdata := l\<rparr>"
  have "receiver_turn e data (Some bs) m0 = ret (None, ?r, with_clock md ((msg_clock md)\<lparr>vector := Null\<rparr>))"
    using rcv pl D(1) ys(1) np by (simp add: receiver_turn_def process_msg_def deliver_fl_def)
  moreover have "linked n s A (insert (mid_of n s a) M) ?r" using v by simp
  moreover have "if n div 2 < card (insert q (insert a K))
       then s \<in> delivered_set ?r \<and> log_text (logdata ?r) = log_text (logdata data) @ deliver_line (of_nat ?o) snr
       else collecting n T s (insert q (insert a K)) ?r \<and> lcb_view ?r = lcb_view data"
    using D(4) unfolding pid by (auto simp: delivered_set_def lcb_view_def collecting_def)
  ultimately show ?thesis using D(2,3) tasks np q
    by (intro exI [of _ ?r] exI [of _ "with_clock md ((msg_clock md)\<lparr>vector := Null\<rparr>)"]) (auto simp del: upt_Suc)
qed

end
