(* ===== verification/Parser.thy ===== *)
theory Parser
  imports Sample
begin

text \<open>
  Reading the arguments and the membership file (src/parser.c): the number of processes,
  one line with the address of each process, one line with the dependencies of each.
  \<open>fgets\<close>, \<open>strtok\<close>, \<open>atoi\<close> and \<open>htons\<close> are defined here as the C library has them;
  \<open>inet_aton\<close>, which is not part of it, is the argument \<open>aton\<close>. The file is the string of
  its characters; a read error ends it.
\<close>

section \<open>The C library\<close>

text \<open>Up to \<open>k\<close> characters, up to and including the first newline; and the rest.\<close>

fun take_line :: "nat \<Rightarrow> string \<Rightarrow> string \<times> string" where
  "take_line 0 cs = ([], cs)"
| "take_line (Suc k) [] = ([], [])"
| "take_line (Suc k) (c # cs) =
     (if c = newline then ([c], cs) else let (l, r) = take_line k cs in (c # l, r))"

definition fgets :: "nat \<Rightarrow> string \<Rightarrow> (string \<times> string) option" where
  "fgets n cs = (if cs = [] then None else Some (take_line (n - 1) cs))"

text \<open>The string in a buffer ends at the first zero.\<close>

definition c_string :: "string \<Rightarrow> string" where
  "c_string s = takeWhile (\<lambda>c. c \<noteq> CHR 0x00) s"

text \<open>\<open>strtok(s, " ")\<close>: the first token of \<open>s\<close> and what the next call starts from.\<close>

definition strtok :: "string \<Rightarrow> (string \<times> string) option" where
  "strtok s = (let s' = dropWhile (\<lambda>c. c = CHR '' '') s in
     if s' = [] then None
     else Some (takeWhile (\<lambda>c. c \<noteq> CHR '' '') s', drop 1 (dropWhile (\<lambda>c. c \<noteq> CHR '' '') s')))"

definition is_space :: "char \<Rightarrow> bool" where
  "is_space c \<longleftrightarrow> c = CHR '' '' \<or> (9 \<le> (of_char c :: nat) \<and> (of_char c :: nat) \<le> 13)"

definition is_digit :: "char \<Rightarrow> bool" where
  "is_digit c \<longleftrightarrow> 48 \<le> (of_char c :: nat) \<and> (of_char c :: nat) < 58"

text \<open>A number that does not fit into an \<open>int\<close> is undefined behaviour.\<close>

definition atoi :: "string \<Rightarrow> int run" where
  "atoi s =
     (let t = dropWhile is_space s;
          neg = (t \<noteq> [] \<and> hd t = CHR ''-'');
          u = (if t \<noteq> [] \<and> (hd t = CHR ''-'' \<or> hd t = CHR ''+'') then tl t else t);
          v = int (undec 0 (takeWhile is_digit u));
          w = (if neg then - v else v)
      in if - (2 ^ 31) \<le> w \<and> w < 2 ^ 31 then ret w else ub)"

text \<open>The conversions \<open>(size_t)\<close> and \<open>(uint16_t)\<close> of an \<open>int\<close>, and \<open>htons\<close>.\<close>

definition size_of_int :: "int \<Rightarrow> nat" where
  "size_of_int v = nat (v mod 2 ^ 64)"

definition htons :: "u16 \<Rightarrow> u16" where
  "htons w = or (push_bit 8 w) (drop_bit 8 w)"

definition AF_INET :: u16 where "AF_INET = 2"

lemma strtok_shorter: "strtok s = Some (tok, rest) \<Longrightarrow> length rest < length s"
proof -
  assume a: "strtok s = Some (tok, rest)"
  let ?s = "dropWhile (\<lambda>c. c = CHR '' '') s"
  from a have ne: "?s \<noteq> []" and r: "rest = drop 1 (dropWhile (\<lambda>c. c \<noteq> CHR '' '') ?s)"
    by (auto simp: strtok_def Let_def split: if_splits)
  have "length (dropWhile (\<lambda>c. c \<noteq> CHR '' '') ?s) \<le> length ?s" "length ?s \<le> length s"
    by (rule length_dropWhile_le)+
  moreover have "0 < length ?s" using ne by simp
  ultimately show ?thesis unfolding r length_drop by linarith
qed

section \<open>The parser\<close>

definition PARSER_LINE :: nat where "PARSER_LINE = 32"

text \<open>Closing the file changes nothing of the state; the result is passed on.\<close>

definition cleanup :: "string option \<Rightarrow> int \<Rightarrow> int" where
  "cleanup file result = result"

type_synonym inet_aton = "string \<Rightarrow> u32 option"

text \<open>The line of the address of a process: 0, or the code with which the parser ends.\<close>

definition parse_address :: "inet_aton \<Rightarrow> string \<Rightarrow> addr_book option \<Rightarrow> (int \<times> addr_book option) run" where
  "parse_address aton line book =
     (case strtok line of None \<Rightarrow> ret (err ERROR_FILE, book)
      | Some (pid_str, r1) \<Rightarrow>
       (case strtok r1 of None \<Rightarrow> ret (err ERROR_FILE, book)
        | Some (ipv4_str, r2) \<Rightarrow>
         (case strtok r2 of None \<Rightarrow> ret (err ERROR_FILE, book)
          | Some (port_str, _) \<Rightarrow>
            bnd (atoi pid_str) (\<lambda>p.
            let pid = size_of_int p in
            if pid = 0 then ret (err ERROR_FILE, book)
            else case aton ipv4_str of None \<Rightarrow> ret (err ERROR_FILE, book)
            | Some ipv4 \<Rightarrow>
              bnd (atoi port_str) (\<lambda>port.
              bnd (add_entry book pid \<lparr>sin_family = AF_INET, sin_port = htons (of_int port), sin_addr = ipv4\<rparr>)
                (\<lambda>(r, book'). if r \<noteq> 0 then ret (err ERROR_FILE, book') else ret (0, book')))))))"

text \<open>The loop over the lines of the addresses: \<open>k\<close> lines are left. The file after the loop is
  the second component.\<close>

fun parse_addresses :: "inet_aton \<Rightarrow> nat \<Rightarrow> string \<Rightarrow> addr_book option \<Rightarrow> (int \<times> string \<times> addr_book option) run" where
  "parse_addresses aton 0 file book = ret (0, file, book)"
| "parse_addresses aton (Suc k) file book =
     (case fgets PARSER_LINE file of None \<Rightarrow> ret (0, file, book)
      | Some (line, rest) \<Rightarrow>
        bnd (parse_address aton (c_string line) book) (\<lambda>(r, book').
        if r \<noteq> 0 then ret (r, rest, book') else parse_addresses aton k rest book'))"

text \<open>
  The tokens after the first of a dependency line, collected into an array of \<open>cap\<close>
  process ids on the stack. A token that is no number ends the parser, unless it is a
  newline alone.
\<close>

function collect_pids :: "nat \<Rightarrow> string \<Rightarrow> nat list \<Rightarrow> (int \<times> nat list) run" where
  "collect_pids cap s acc =
     (case strtok s of None \<Rightarrow> ret (0, acc)
      | Some (tok, rest) \<Rightarrow>
        bnd (atoi tok) (\<lambda>v.
        let dep_pid = size_of_int v in
        if dep_pid = 0 then
          (if tok = [newline] then collect_pids cap rest acc else ret (err ERROR_FILE, acc))
        else if length acc < cap then collect_pids cap rest (acc @ [dep_pid])
        else ub))"
  by pat_completeness auto
termination
  by (relation "measure (\<lambda>(cap, s, acc). length s)") (auto dest: strtok_shorter)

declare collect_pids.simps [simp del]

definition parse_dependency :: "env \<Rightarrow> nat \<Rightarrow> string \<Rightarrow> dependencies option \<Rightarrow> (int \<times> dependencies option) run" where
  "parse_dependency e cap line d =
     (case strtok line of None \<Rightarrow> ret (err ERROR_FILE, d)
      | Some (tok, rest) \<Rightarrow>
        bnd (atoi tok) (\<lambda>v.
        let source_pid = size_of_int v in
        if source_pid = 0 then ret (err ERROR_FILE, d)
        else bnd (collect_pids cap rest []) (\<lambda>(r, pids).
          if r \<noteq> 0 then ret (r, d)
          else set_dependencies e d source_pid (Arr pids) (length pids))))"

fun parse_dependencies :: "env \<Rightarrow> nat \<Rightarrow> nat \<Rightarrow> string \<Rightarrow> dependencies option \<Rightarrow> (int \<times> dependencies option) run" where
  "parse_dependencies e cap 0 file d = ret (0, d)"
| "parse_dependencies e cap (Suc k) file d =
     (case fgets PARSER_LINE file of None \<Rightarrow> ret (0, d)
      | Some (line, rest) \<Rightarrow>
        bnd (parse_dependency e cap (c_string line) d) (\<lambda>(r, d').
        if r \<noteq> 0 then ret (r, d') else parse_dependencies e cap k rest d'))"

text \<open>\<open>file\<close> is \<open>None\<close> when the membership file cannot be opened.\<close>

definition parse_membership_args ::
  "env \<Rightarrow> inet_aton \<Rightarrow> string list \<Rightarrow> string option \<Rightarrow> net_data \<Rightarrow> (int \<times> net_data) run" where
  "parse_membership_args e aton argv file data =
     (if length argv < 4 then ret (cleanup None (err ERROR_ARGS), data)
      else bnd (atoi (argv ! 1)) (\<lambda>v.
        let self = size_of_int v in
        if self = 0 then ret (cleanup None (err ERROR_ARGS), data)
        else let data = data\<lparr>self_pid := self\<rparr> in
          bnd (atoi (argv ! 3)) (\<lambda>m.
          if m = 0 then ret (cleanup None (err ERROR_ARGS), data)
          else let data = data\<lparr>num_msg := size_of_int m\<rparr> in
            case file of None \<Rightarrow> ret (cleanup file (err ERROR_FILE), data)
            | Some contents \<Rightarrow>
              case fgets PARSER_LINE contents of None \<Rightarrow> ret (cleanup file (err ERROR_FILE), data)
              | Some (line, rest) \<Rightarrow>
                bnd (atoi (c_string line)) (\<lambda>n.
                let n = size_of_int n in
                if n = 0 then ret (cleanup file (err ERROR_FILE), data)
                else let data = data\<lparr>num_proc := n, address_book := alloc_addr_book e n\<rparr> in
                  if address_book data = None then ret (cleanup file (err ERROR_MEMORY), data)
                  else bnd (parse_addresses aton n rest (address_book data)) (\<lambda>(r, rest, book).
                    let data = data\<lparr>address_book := book\<rparr> in
                    if r \<noteq> 0 then ret (cleanup file r, data)
                    else let data = data\<lparr>deps := alloc_dependencies e n\<rparr> in
                      if deps data = None then ret (cleanup file (err ERROR_MEMORY), data)
                      else bnd (parse_dependencies e n n rest (deps data)) (\<lambda>(r, d).
                        let data = data\<lparr>deps := d\<rparr> in
                        if r \<noteq> 0 then ret (cleanup file r, data) else ret (cleanup file 0, data)))))))"

section \<open>Tokens and numbers\<close>

lemma strtok_token:
  assumes "tok \<noteq> []" "CHR '' '' \<notin> set tok"
  shows "strtok (tok @ CHR '' '' # rest) = Some (tok, rest)" "strtok tok = Some (tok, [])"
proof -
  have hd: "dropWhile (\<lambda>c. c = CHR '' '') (tok @ r) = tok @ r" for r
    using assms by (cases tok) auto
  have t: "takeWhile (\<lambda>c. c \<noteq> CHR '' '') tok = tok" "dropWhile (\<lambda>c. c \<noteq> CHR '' '') tok = []"
    using assms(2) by (auto simp: takeWhile_eq_all_conv dropWhile_eq_Nil_conv)
  have u: "takeWhile (\<lambda>c. c \<noteq> CHR '' '') (tok @ CHR '' '' # rest) = tok"
    "dropWhile (\<lambda>c. c \<noteq> CHR '' '') (tok @ CHR '' '' # rest) = CHR '' '' # rest"
    using assms(2) by (induction tok) auto
  show "strtok (tok @ CHR '' '' # rest) = Some (tok, rest)"
    using hd u by (simp add: strtok_def)
  show "strtok tok = Some (tok, [])"
    using assms(1) by (simp add: strtok_def Let_def hd [of "[]", unfolded append_Nil2] t)
qed

lemma strtok_Nil [simp]: "strtok [] = None"
  by (simp add: strtok_def)

lemma dec_nonempty [simp]: "dec n \<noteq> []"
  using length_dec_pos [of n] by auto

lemma atoi_dec:
  assumes "n < 2 ^ 31"
  shows "atoi (dec n) = ret (int n)" "atoi (dec n @ [newline]) = ret (int n)"
proof -
  have dig: "is_digit c" "\<not> is_space c" "c \<noteq> CHR ''-''" "c \<noteq> CHR ''+''" if "c \<in> set (dec n)" for c
    using dec_digits [OF that] by (auto simp: is_digit_def is_space_def)
  have nl: "\<not> is_digit newline" by (simp add: is_digit_def of_char_newline)
  obtain c cs where c: "dec n = c # cs" by (cases "dec n") auto
  have tw: "takeWhile is_digit (dec n) = dec n" "takeWhile is_digit (dec n @ [newline]) = dec n"
    using dig(1) nl by (auto simp: takeWhile_eq_all_conv)
  have v: "undec 0 (takeWhile is_digit (dec n)) = n" "undec 0 (takeWhile is_digit (dec n @ [newline])) = n"
    by (simp_all only: tw undec_dec)
  have dw: "dropWhile is_space (dec n @ r) = dec n @ r" for r
    using dig(2) [of c] c by simp
  have h: "hd (dec n @ r) \<noteq> CHR ''-''" "hd (dec n @ r) \<noteq> CHR ''+''" for r
    using dig(3,4) [of c] c by simp_all
  show "atoi (dec n) = ret (int n)"
    using dw [of "[]"] h [of "[]"] v(1) assms by (simp add: atoi_def Let_def)
  show "atoi (dec n @ [newline]) = ret (int n)"
    using dw [of "[newline]"] h [of "[newline]"] v(2) assms by (simp add: atoi_def Let_def)
qed

lemma size_of_int_nat: "n < 2 ^ 31 \<Longrightarrow> size_of_int (int n) = n"
  by (simp add: size_of_int_def)

lemma take_line_full:
  assumes "newline \<notin> set l" "length l < k"
  shows "take_line k (l @ newline # rest) = (l @ [newline], rest)"
  using assms
proof (induction l arbitrary: k)
  case Nil
  then show ?case by (cases k) auto
next
  case (Cons c l)
  then obtain k' where "k = Suc k'" by (cases k) auto
  with Cons show ?case by auto
qed

lemma fgets_full:
  assumes "newline \<notin> set l" "length l < 31"
  shows "fgets PARSER_LINE (l @ newline # rest) = Some (l @ [newline], rest)"
  using take_line_full [OF assms, of rest] by (simp add: fgets_def PARSER_LINE_def)

lemma c_string_id: "CHR 0x00 \<notin> set s \<Longrightarrow> c_string s = s"
  by (auto simp: c_string_def takeWhile_eq_all_conv)

section \<open>A well-formed membership file\<close>

text \<open>Each line as \<open>fprintf\<close> would write it.\<close>

definition address_line :: "nat \<Rightarrow> string \<times> nat \<Rightarrow> string" where
  "address_line pid a = dec pid @ '' '' @ fst a @ '' '' @ dec (snd a)"

definition dependency_line :: "nat \<Rightarrow> nat list \<Rightarrow> string" where
  "dependency_line pid pids = dec pid @ concat (map (\<lambda>d. '' '' @ dec d) pids)"

definition text_lines :: "string list \<Rightarrow> string" where
  "text_lines ls = concat (map (\<lambda>l. l @ [newline]) ls)"

definition membership_file :: "(string \<times> nat) list \<Rightarrow> nat list list \<Rightarrow> string" where
  "membership_file addrs rows = text_lines (dec (length addrs)
     # map (\<lambda>i. address_line (i + 1) (addrs ! i)) [0..<length addrs]
     @ map (\<lambda>i. dependency_line (i + 1) (rows ! i)) [0..<length rows])"

lemma text_lines_simps [simp]: "text_lines [] = []" "text_lines (l # ls) = l @ newline # text_lines ls"
  "text_lines (as @ bs) = text_lines as @ text_lines bs"
  by (simp_all add: text_lines_def)

text \<open>What the parser needs of an address and of a line.\<close>

definition line_fits :: "string \<Rightarrow> bool" where
  "line_fits l \<longleftrightarrow> newline \<notin> set l \<and> CHR 0x00 \<notin> set l \<and> length l < 31"

definition address_ok :: "inet_aton \<Rightarrow> string \<times> nat \<Rightarrow> bool" where
  "address_ok aton a \<longleftrightarrow> fst a \<noteq> [] \<and> CHR '' '' \<notin> set (fst a) \<and> aton (fst a) \<noteq> None \<and> snd a < 2 ^ 16"

definition entry_of :: "inet_aton \<Rightarrow> string \<times> nat \<Rightarrow> sockaddr_in" where
  "entry_of aton a = \<lparr>sin_family = AF_INET, sin_port = htons (of_nat (snd a)), sin_addr = the (aton (fst a))\<rparr>"

lemma fgets_line:
  "line_fits l \<Longrightarrow> fgets PARSER_LINE (l @ newline # rest) = Some (l @ [newline], rest)"
  "line_fits l \<Longrightarrow> c_string (l @ [newline]) = l @ [newline]"
proof -
  show "line_fits l \<Longrightarrow> fgets PARSER_LINE (l @ newline # rest) = Some (l @ [newline], rest)"
    by (rule fgets_full) (simp_all add: line_fits_def)
  have "newline \<noteq> CHR 0x00" by (simp add: newline_def)
  then show "line_fits l \<Longrightarrow> c_string (l @ [newline]) = l @ [newline]"
    by (intro c_string_id) (auto simp: line_fits_def)
qed

lemma space_newline: "CHR '' '' \<noteq> newline"
  by (simp add: newline_def)

lemma parse_address_ok:
  assumes "address_ok aton a" "0 < pid" "pid < 2 ^ 31"
  shows "parse_address aton (address_line pid a @ [newline]) book
    = bnd (add_entry book pid (entry_of aton a)) (\<lambda>(r, book'). if r \<noteq> 0 then ret (err ERROR_FILE, book') else ret (0, book'))"
proof -
  from assms(1) have a: "fst a \<noteq> []" "CHR '' '' \<notin> set (fst a)" "snd a < 2 ^ 31"
    and ip: "\<exists>x. aton (fst a) = Some x" by (auto simp: address_ok_def)
  have t1: "strtok (dec pid @ CHR '' '' # r) = Some (dec pid, r)" for r
    by (rule strtok_token(1)) (simp_all add: space_not_digit)
  have t2: "strtok (fst a @ CHR '' '' # r) = Some (fst a, r)" for r
    by (rule strtok_token(1)) (use a in simp_all)
  have t3: "strtok (dec (snd a) @ [newline]) = Some (dec (snd a) @ [newline], [])"
    by (rule strtok_token(2)) (simp_all add: space_not_digit space_newline)
  have sz: "size_of_int (int pid) = pid" by (rule size_of_int_nat [OF assms(3)])
  from ip obtain x where x: "aton (fst a) = Some x" ..
  show ?thesis
    using assms(2) x
    by (simp add: parse_address_def address_line_def t1 t2 t3 atoi_dec [OF assms(3)] atoi_dec [OF a(3)] sz
        entry_of_def Let_def)
qed

text \<open>The lines of the addresses, from process \<open>i + 1\<close> on, are a series of writes.\<close>

lemma parse_addresses_writes:
  assumes "list_all (address_ok aton) as" "i + length as < 2 ^ 31"
    and "\<And>j. j < length as \<Longrightarrow> line_fits (address_line (i + j + 1) (as ! j))"
    and "write_all book_write book (map (\<lambda>j. (i + j + 1, entry_of aton (as ! j))) [0..<length as]) = ret book'"
  shows "parse_addresses aton (length as) (text_lines (map (\<lambda>j. address_line (i + j + 1) (as ! j)) [0..<length as]) @ rest) book
    = ret (0, rest, book')"
  using assms
proof (induction as arbitrary: i book)
  case Nil
  then show ?case by simp
next
  case (Cons a as)
  have up: "map f [0..<length (a # as)] = f 0 # map (\<lambda>j. f (Suc j)) [0..<length as]" for f :: "nat \<Rightarrow> 'b"
    by (simp add: upt_conv_Cons map_Suc_upt [symmetric] del: upt_Suc)
  have fits: "line_fits (address_line (i + 1) a)" using Cons.prems(3) [of 0] by simp
  from Cons.prems(4) obtain book1 where
    b1: "book_write book (i + 1) (entry_of aton a) = ret book1"
    and rest: "write_all book_write book1 (map (\<lambda>j. (i + 1 + j + 1, entry_of aton (as ! j))) [0..<length as]) = ret book'"
    unfolding up by (auto simp: bnd_eq_ret)
  have pa: "parse_address aton (address_line (i + 1) a @ [newline]) book = ret (0, book1)"
    using parse_address_ok [of aton a "i + 1" book] Cons.prems(1,2) b1
    by (auto simp: book_write_def bnd_eq_ret split: if_splits)
  have IH: "parse_addresses aton (length as) (text_lines (map (\<lambda>j. address_line (i + 1 + j + 1) (as ! j)) [0..<length as]) @ rest) book1
      = ret (0, rest, book')"
  proof (rule Cons.IH [OF _ _ _ rest])
    show "line_fits (address_line (i + 1 + j + 1) (as ! j))" if "j < length as" for j
      using Cons.prems(3) [of "Suc j"] that by simp
  qed (use Cons.prems in simp_all)
  show ?case unfolding up
    using fgets_line [OF fits] pa IH by simp
qed

text \<open>The lines of the dependencies.\<close>

definition pids_ok :: "nat \<Rightarrow> nat list \<Rightarrow> bool" where
  "pids_ok cap pids \<longleftrightarrow> length pids \<le> cap \<and> list_all (\<lambda>d. 0 < d \<and> d < 2 ^ 31) pids"

abbreviation pid_text :: "nat list \<Rightarrow> string" where
  "pid_text pids \<equiv> concat (map (\<lambda>d. '' '' @ dec d) pids)"

lemma collect_pids_list:
  assumes "pids \<noteq> []" "list_all (\<lambda>d. 0 < d \<and> d < 2 ^ 31) pids" "length acc \<le> cap"
  shows "collect_pids cap (tl (pid_text pids) @ [newline]) acc
    = (if length acc + length pids \<le> cap then ret (0, acc @ pids) else ub)"
  using assms
proof (induction pids arbitrary: acc)
  case (Cons d ds)
  then have d: "0 < d" "d < 2 ^ 31" by simp_all
  note num = size_of_int_nat [OF d(2)] atoi_dec [OF d(2)]
  show ?case
  proof (cases ds)
    case Nil
    have "strtok (dec d @ [newline]) = Some (dec d @ [newline], [])"
      by (rule strtok_token(2)) (simp_all add: space_not_digit space_newline)
    then show ?thesis
      using Nil d num
      by (subst collect_pids.simps) (simp add: Let_def collect_pids.simps [of cap "[]"])
  next
    case ds: (Cons d' ds')
    obtain R where R: "tl (pid_text ds) @ [newline] = R" by blast
    have tok: "strtok (dec d @ CHR '' '' # R) = Some (dec d, R)"
      by (rule strtok_token(1)) (simp_all add: space_not_digit)
    have eq: "tl (pid_text (d # ds)) @ [newline] = dec d @ CHR '' '' # R"
      unfolding R [symmetric] by (simp add: ds)
    have step: "collect_pids cap (dec d @ CHR '' '' # R) acc
        = (if length acc < cap then collect_pids cap R (acc @ [d]) else ub)"
      using d num tok by (subst collect_pids.simps) (simp add: Let_def)
    show ?thesis
    proof (cases "length acc < cap")
      case True
      then have "collect_pids cap R (acc @ [d])
          = (if length (acc @ [d]) + length ds \<le> cap then ret (0, (acc @ [d]) @ ds) else ub)"
        unfolding R [symmetric] by (intro Cons.IH) (use Cons.prems ds in simp_all)
      with True step show ?thesis unfolding eq by simp
    next
      case False
      with step show ?thesis unfolding eq by simp
    qed
  qed
qed simp

lemma parse_dependency_ok:
  assumes "list_all (\<lambda>d. 0 < d \<and> d < 2 ^ 31) pids" "0 < pid" "pid < 2 ^ 31"
  shows "parse_dependency e cap (dependency_line pid pids @ [newline]) d
    = (if length pids \<le> cap then set_dependencies e d pid (Arr pids) (length pids) else ub)"
proof -
  have sz: "size_of_int (int pid) = pid" by (rule size_of_int_nat [OF assms(3)])
  show ?thesis
  proof (cases pids)
    case Nil
    have "strtok (dec pid @ [newline]) = Some (dec pid @ [newline], [])"
      by (rule strtok_token(2)) (simp_all add: space_not_digit space_newline)
    then show ?thesis
      using Nil assms(2) sz
      by (simp add: parse_dependency_def dependency_line_def atoi_dec [OF assms(3)] Let_def
          collect_pids.simps [of cap "[]"])
  next
    case (Cons x xs)
    have "strtok (dec pid @ CHR '' '' # tl (pid_text pids) @ [newline]) = Some (dec pid, tl (pid_text pids) @ [newline])"
      by (rule strtok_token(1)) (simp_all add: space_not_digit)
    moreover have "dependency_line pid pids @ [newline] = dec pid @ CHR '' '' # tl (pid_text pids) @ [newline]"
      by (simp add: dependency_line_def Cons)
    moreover have "collect_pids cap (tl (pid_text pids) @ [newline]) []
        = (if length pids \<le> cap then ret (0, pids) else ub)"
      using collect_pids_list [of pids "[]" cap] assms(1) Cons by simp
    ultimately show ?thesis
      using assms(2) sz by (simp add: parse_dependency_def atoi_dec [OF assms(3)] Let_def)
  qed
qed

lemma parse_dependencies_writes:
  assumes "list_all (pids_ok cap) rows" "i + length rows < 2 ^ 31"
    and "\<And>j. j < length rows \<Longrightarrow> line_fits (dependency_line (i + j + 1) (rows ! j))"
    and "write_all (deps_put e) d (map (\<lambda>j. (i + j + 1, rows ! j)) [0..<length rows]) = ret d'"
  shows "parse_dependencies e cap (length rows) (text_lines (map (\<lambda>j. dependency_line (i + j + 1) (rows ! j)) [0..<length rows]) @ rest) d
    = ret (0, d')"
  using assms
proof (induction rows arbitrary: i d)
  case Nil
  then show ?case by simp
next
  case (Cons row rows)
  have up: "map f [0..<length (row # rows)] = f 0 # map (\<lambda>j. f (Suc j)) [0..<length rows]" for f :: "nat \<Rightarrow> 'b"
    by (simp add: upt_conv_Cons map_Suc_upt [symmetric] del: upt_Suc)
  have fits: "line_fits (dependency_line (i + 1) row)" using Cons.prems(3) [of 0] by simp
  from Cons.prems(4) obtain d1 where
    d1: "deps_put e d (i + 1) row = ret d1"
    and rest: "write_all (deps_put e) d1 (map (\<lambda>j. (i + 1 + j + 1, rows ! j)) [0..<length rows]) = ret d'"
    unfolding up by (auto simp: bnd_eq_ret)
  have pd: "parse_dependency e cap (dependency_line (i + 1) row @ [newline]) d = ret (0, d1)"
    using parse_dependency_ok [of row "i + 1" e cap d] Cons.prems(1,2) d1
    by (auto simp: deps_put_def pids_ok_def bnd_eq_ret split: if_splits)
  have IH: "parse_dependencies e cap (length rows) (text_lines (map (\<lambda>j. dependency_line (i + 1 + j + 1) (rows ! j)) [0..<length rows]) @ rest) d1
      = ret (0, d')"
  proof (rule Cons.IH [OF _ _ _ rest])
    show "line_fits (dependency_line (i + 1 + j + 1) (rows ! j))" if "j < length rows" for j
      using Cons.prems(3) [of "Suc j"] that by simp
  qed (use Cons.prems in simp_all)
  show ?case unfolding up
    using fgets_line [OF fits] pd IH by simp
qed

lemma map_of_indexed:
  assumes "i \<in> {1..n}"
  shows "map_of (rev (map (\<lambda>j. (j + 1, f j)) [0..<n])) i = Some (f (i - 1))"
proof (rule map_of_is_SomeI)
  show "distinct (map fst (rev (map (\<lambda>j. (j + 1, f j)) [0..<n])))"
    by (simp add: rev_map [symmetric] comp_def distinct_map)
  show "(i, f (i - 1)) \<in> set (rev (map (\<lambda>j. (j + 1, f j)) [0..<n]))"
    using assms by (auto simp: image_iff intro!: bexI [of _ "i - 1"])
qed

lemma book_read_get: "book_read book j = ret x \<Longrightarrow> get_addr book j = ret (0, Some x)"
  by (auto simp: book_read_def get_addr_def bnd_eq_ret split: option.splits if_splits)

section \<open>Properties of the parser\<close>

text \<open>What a well-formed configuration is: \<open>n\<close> addresses and \<open>n\<close> dependency lists.\<close>

definition config_ok :: "inet_aton \<Rightarrow> (string \<times> nat) list \<Rightarrow> nat list list \<Rightarrow> bool" where
  "config_ok aton addrs rows \<longleftrightarrow> 0 < length addrs \<and> length addrs < 2 ^ 31 \<and> length rows = length addrs
     \<and> list_all (address_ok aton) addrs \<and> list_all (pids_ok (length addrs)) rows
     \<and> list_all (\<lambda>i. line_fits (address_line (i + 1) (addrs ! i)) \<and> line_fits (dependency_line (i + 1) (rows ! i)))
          [0..<length addrs]"

lemma with_memory_id: "(\<And>k. grant e k) \<Longrightarrow> with_memory e = e"
  by (cases e) (auto simp: with_memory_def fun_eq_iff)

lemma newline_first: "line_fits (dec n)" if "n < 2 ^ 31"
proof -
  have "n < 10 ^ Suc 9" using that by simp
  then have "length (dec n) \<le> Suc 9" by (simp only: length_dec_le)
  moreover have "CHR 0x00 \<notin> set (dec n)" using dec_digits [of "CHR 0x00" n] by auto
  ultimately show ?thesis by (simp add: line_fits_def newline_not_digit)
qed

lemma parse_membership_ok:
  assumes "config_ok aton addrs rows" and "n = length addrs" and "\<And>k. grant e k"
    and "argv = [prog, dec self, path, dec m]" "0 < self" "self < 2 ^ 31" "0 < m" "m < 2 ^ 31"
  shows "\<exists>b d. parse_membership_args e aton argv (Some (membership_file addrs rows)) data
      = ret (0, data\<lparr>self_pid := self, num_msg := m, num_proc := n, address_book := b, deps := d\<rparr>)
    \<and> book_ok b \<and> book_pids b = {1..n} \<and> deps_ok d \<and> deps_pids d = {1..n}
    \<and> (\<forall>i \<in> {1..n}. get_addr b i = ret (0, Some (entry_of aton (addrs ! (i - 1))))
         \<and> deps_of d i = ret (rows ! (i - 1)))"
proof -
  have n: "0 < n" "n < 2 ^ 31" "n < 2 ^ 63" "length rows = n" and ok: "list_all (address_ok aton) addrs" "list_all (pids_ok n) rows"
    and fits: "\<And>i. i < n \<Longrightarrow> line_fits (address_line (i + 1) (addrs ! i)) \<and> line_fits (dependency_line (i + 1) (rows ! i))"
    using assms(1,2) by (auto simp: config_ok_def list_all_length)
  let ?book = "alloc_addr_book e n" and ?deps = "alloc_dependencies e n"
  let ?kb = "map (\<lambda>j. (j + 1, entry_of aton (addrs ! j))) [0..<n]" and ?kd = "map (\<lambda>j. (j + 1, rows ! j)) [0..<n]"
  have b0: "book_ok ?book" "book_pids ?book = {1..n}" using alloc_addr_book_ok [of n e] n assms(3) by simp_all
  have d0: "deps_ok ?deps" "deps_pids ?deps = {1..n}" using alloc_dependencies_ok [of e n] n assms(3) by simp_all
  have "fst ` set ?kb \<subseteq> book_pids ?book" "fst ` set ?kd \<subseteq> deps_pids ?deps" using b0 d0 by auto
  from book.write_all_ok [OF b0(1) this(1)] deps.write_all_ok [OF d0(1) this(2), of e]
  obtain b d where
    b: "write_all book_write ?book ?kb = ret b" "book_ok b" "book_pids b = book_pids ?book"
      "\<forall>i \<in> book_pids ?book. book_read b i = (case map_of (rev ?kb) i of Some v \<Rightarrow> ret v | None \<Rightarrow> book_read ?book i)"
    and d: "write_all (deps_put e) ?deps ?kd = ret d" "deps_ok d" "deps_pids d = deps_pids ?deps"
      "\<forall>i \<in> deps_pids ?deps. deps_of d i = (case map_of (rev ?kd) i of Some v \<Rightarrow> ret v | None \<Rightarrow> deps_of ?deps i)"
    unfolding with_memory_id [OF assms(3)] by blast
  obtain ta td where ta: "text_lines (map (\<lambda>i. address_line (i + 1) (addrs ! i)) [0..<n]) = ta"
    and td: "text_lines (map (\<lambda>i. dependency_line (i + 1) (rows ! i)) [0..<n]) = td" by blast
  have pa: "parse_addresses aton n (ta @ td) ?book = ret (0, td, b)" unfolding ta [symmetric]
    using parse_addresses_writes [of aton addrs 0 ?book b td] ok(1) n(2) fits b(1) assms(2) by simp
  have pd: "parse_dependencies e n n td ?deps = ret (0, d)" unfolding td [symmetric]
    using parse_dependencies_writes [of n rows 0 e ?deps d "[]"] ok(2) n(2,4) fits d(1) by simp
  have contents: "membership_file addrs rows = dec n @ newline # ta @ td"
    unfolding ta [symmetric] td [symmetric] using assms(2) n(4) by (simp add: membership_file_def)
  have first: "fgets PARSER_LINE (membership_file addrs rows) = Some (dec n @ [newline], ta @ td)"
    "c_string (dec n @ [newline]) = dec n @ [newline]"
    unfolding contents using fgets_line [OF newline_first [OF n(2)]] by simp_all
  have some: "?book \<noteq> None" "?deps \<noteq> None" using b0(1) d0(1) by (auto elim: book_okE deps_okE)
  note num = atoi_dec [OF assms(6)] atoi_dec [OF assms(8)] atoi_dec [OF n(2)]
    size_of_int_nat [OF assms(6)] size_of_int_nat [OF assms(8)] size_of_int_nat [OF n(2)]
  have "parse_membership_args e aton argv (Some (membership_file addrs rows)) data
      = ret (0, data\<lparr>self_pid := self, num_msg := m, num_proc := n, address_book := b, deps := d\<rparr>)"
    using assms(4,5,7) n(1) some
    by (simp add: parse_membership_args_def num first pa pd Let_def cleanup_def)
  moreover have "get_addr b i = ret (0, Some (entry_of aton (addrs ! (i - 1)))) \<and> deps_of d i = ret (rows ! (i - 1))"
    if "i \<in> {1..n}" for i
    using b(4) d(4) that map_of_indexed [OF that, of "\<lambda>j. entry_of aton (addrs ! j)"]
      map_of_indexed [OF that, of "\<lambda>j. rows ! j"] unfolding b0(2) d0(2) by (intro conjI book_read_get) simp_all
  ultimately show ?thesis using b(2,3) d(2,3) b0(2) d0(2)
    by (intro exI [of _ b] exI [of _ d]) simp
qed

text \<open>C34: round trip. Parsing the arguments and a membership file written for a well-formed
  configuration succeeds and gives back exactly the process id, the number of messages, the
  address and the dependencies of every process.\<close>

theorem membership_roundtrip:
  assumes "config_ok aton addrs rows" and "n = length addrs" and "\<And>k. grant e k"
    and "argv = [prog, dec self, path, dec m]" "0 < self" "self < 2 ^ 31" "0 < m" "m < 2 ^ 31"
  shows "\<exists>d. parse_membership_args e aton argv (Some (membership_file addrs rows)) data = ret (0, d)
    \<and> self_pid d = self \<and> num_msg d = m \<and> num_proc d = n
    \<and> book_ok (address_book d) \<and> book_pids (address_book d) = {1..n}
    \<and> deps_ok (deps d) \<and> deps_pids (deps d) = {1..n}
    \<and> (\<forall>i \<in> {1..n}. get_addr (address_book d) i = ret (0, Some (entry_of aton (addrs ! (i - 1))))
         \<and> deps_of (deps d) i = ret (rows ! (i - 1)))"
  using parse_membership_ok [OF assms, of data] by auto

definition pair_aton :: inet_aton where
  "pair_aton s = (if s = ''127.0.0.1'' then Some 16777343 else None)"

abbreviation pair_addrs :: "(string \<times> nat) list" where
  "pair_addrs \<equiv> [(''127.0.0.1'', 7), (''127.0.0.1'', 8)]"

lemma pair_lines:
  "line_fits (address_line 1 (''127.0.0.1'', 7)) \<and> line_fits (address_line 2 (''127.0.0.1'', 8))
   \<and> line_fits (dependency_line 1 [2]) \<and> line_fits (dependency_line 2 [])"
  by code_simp

lemma pair_config: "config_ok pair_aton pair_addrs [[2], []]"
proof -
  have "[0..<length pair_addrs] = [0, 1]" by code_simp
  then show ?thesis
    using pair_lines
    by (simp add: config_ok_def address_ok_def pair_aton_def pids_ok_def numeral_2_eq_2 [symmetric]
        del: upt_Suc)
qed

theorem membership_roundtrip_witness:
  "\<exists>d. parse_membership_args good_env pair_aton [''da_proc'', dec 2, ''m.txt'', dec 5]
        (Some (membership_file pair_addrs [[2], []])) sample = ret (0, d)
     \<and> self_pid d = 2 \<and> num_msg d = 5 \<and> deps_of (deps d) 1 = ret [2]"
proof -
  note run = membership_roundtrip [OF pair_config refl good_env_sel(1) refl, of 2 5 "''da_proc''" "''m.txt''" sample]
  have "(0::nat) < 2" "(2::nat) < 2 ^ 31" "(0::nat) < 5" "(5::nat) < 2 ^ 31" by simp_all
  from run [OF this] obtain d where
    d: "parse_membership_args good_env pair_aton [''da_proc'', dec 2, ''m.txt'', dec 5]
        (Some (membership_file pair_addrs [[2], []])) sample = ret (0, d)" "self_pid d = 2" "num_msg d = 5"
      "\<forall>i \<in> {1..length pair_addrs}. deps_of (deps d) i = ret ([[2], []] ! (i - 1))" by blast
  have "1 \<in> {1..length pair_addrs}" by simp
  with d(4) have "deps_of (deps d) 1 = ret ([[2], []] ! (1 - 1))" by blast
  then have "deps_of (deps d) 1 = ret [2]" by simp
  with d(1-3) show ?thesis by blast
qed

text \<open>C36: a dependency line that lists more process ids than there are processes (repetitions
  are not excluded) overflows the array on the stack; one with at most as many is stored.\<close>

theorem dependency_line_overflow:
  assumes "list_all (\<lambda>d. 0 < d \<and> d < 2 ^ 31) pids" "0 < pid" "pid < 2 ^ 31"
  shows "parse_dependency e n (dependency_line pid pids @ [newline]) d
    = (if n < length pids then ub else set_dependencies e d pid (Arr pids) (length pids))"
  using parse_dependency_ok [OF assms(1-3), of e n d] by (simp add: not_less)

theorem dependency_line_overflow_witness:
  "parse_dependency good_env 2 (dependency_line 1 [2, 2, 2] @ [newline]) None = ub"
  using dependency_line_overflow [of "[2, 2, 2]" 1 good_env 2 None] by simp

end
