(* ===== verification/Fifo.thy ===== *)
theory Fifo
  imports Layers Sample
begin

text \<open>
  FIFO broadcast (src/fifo.c): the layer that localized causal broadcast replaced. It keeps
  a table of the messages that wait for an earlier one of the same sender, and for each
  sender the number of messages delivered. The Makefile no longer links it; it is modelled
  as a client of uniform reliable broadcast and of the log.
\<close>

section \<open>The pending table\<close>

definition MAX_SIZE_PENDING :: u32 where "MAX_SIZE_PENDING = 1024 * 8"

lemma unat_MAX_SIZE_PENDING [simp]: "unat MAX_SIZE_PENDING = 8192"
  by (simp add: MAX_SIZE_PENDING_def)

definition init_pending :: "env \<Rightarrow> pending_tab \<Rightarrow> u32 \<Rightarrow> u32 \<Rightarrow> int \<times> pending_tab" where
  "init_pending e t n_msgs n_process =
     (let t1 = t\<lparr>bol_total_entries := n_msgs * n_process\<rparr>; n = unat (bol_total_entries t1) in
      if \<not> grant e (4 * n) then (err ERROR_MEMORY, t1\<lparr>bol := Null\<rparr>)
      else (0, t1\<lparr>bol := Arr (replicate n 0), bol_no_msgs := n_msgs, bol_no_process := n_process\<rparr>))"

text \<open>
  \<open>realloc_pending\<close> asks for \<open>new_size\<close> bytes, room for a quarter as many words; the bytes
  it clears then start at byte \<open>4 * old_size\<close>.
\<close>

definition realloc_pending :: "env \<Rightarrow> pending_tab \<Rightarrow> (int \<times> pending_tab) run" where
  "realloc_pending e t =
     (let old_size = bol_total_entries t; new_size = bol_total_entries t * 2 in
      if bol t = Wild then ub
      else if \<not> grant e (unat new_size) then ret (err ERROR_MEMORY, t\<lparr>bol := Null\<rparr>)
      else let p = realloc_words e (unat new_size div 4) (case bol t of Arr xs \<Rightarrow> xs | _ \<Rightarrow> []) in
        bnd (memset_zero (Arr p) (unat old_size) (unat (new_size - old_size))) (\<lambda>q.
        ret (0, t\<lparr>bol := q, bol_total_entries := bol_total_entries t * 2, bol_no_msgs := bol_no_msgs t * 2\<rparr>)))"

partial_function (option) pending_grow :: "env \<Rightarrow> u32 \<Rightarrow> pending_tab \<Rightarrow> (int \<times> pending_tab) run" where
  "pending_grow e sid t =
     (if bol_total_entries t \<le> sid then
        bnd (realloc_pending e t) (\<lambda>(r, t'). if r \<noteq> 0 then ret (r, t') else pending_grow e sid t')
      else ret (0, t))"

definition add_pending :: "env \<Rightarrow> pending_tab \<Rightarrow> u32 \<Rightarrow> u32 \<Rightarrow> (int \<times> pending_tab) run" where
  "add_pending e t sid v =
     (if MAX_SIZE_PENDING < sid then ret (err ERROR_TABLE, t)
      else bnd (pending_grow e sid t) (\<lambda>(r, t').
        if r \<noteq> 0 then ret (r, t')
        else bnd (store (bol t') (unat sid) v) (\<lambda>p. ret (0, t'\<lparr>bol := p\<rparr>))))"

text \<open>The word read becomes the \<open>int\<close> with the same bits.\<close>

definition get_pending :: "pending_tab \<Rightarrow> u32 \<Rightarrow> int run" where
  "get_pending t sid =
     (if bol_total_entries t \<le> sid then ret 0 else bnd (load (bol t) (unat sid)) (\<lambda>v. ret (sint v)))"

definition free_pending :: "pending_tab \<Rightarrow> (int \<times> pending_tab) run" where
  "free_pending t = bnd (free (bol t)) (\<lambda>_. ret (0, t\<lparr>bol := Null\<rparr>))"

section \<open>The table of the next message\<close>

definition init_next :: "env \<Rightarrow> next_tab \<Rightarrow> u32 \<Rightarrow> int \<times> next_tab" where
  "init_next e t n =
     (if \<not> grant e (4 * unat n) then (err ERROR_MEMORY, t\<lparr>next_entries := Null\<rparr>)
      else (0, t\<lparr>next_entries := Arr (replicate (unat n) 0), next_no_process := n\<rparr>))"

definition get_next :: "next_tab \<Rightarrow> u32 \<Rightarrow> int run" where
  "get_next t pid =
     (if next_no_process t < pid then ret (err ERROR_TABLE)
      else bnd (load (next_entries t) (unat (pid - 1))) (\<lambda>v. ret (sint (v + 1))))"

definition incr_next :: "next_tab \<Rightarrow> u32 \<Rightarrow> (int \<times> next_tab) run" where
  "incr_next t pid =
     (if next_no_process t < pid then ret (err ERROR_TABLE, t)
      else bnd (load (next_entries t) (unat (pid - 1))) (\<lambda>v.
           bnd (store (next_entries t) (unat (pid - 1)) (v + 1)) (\<lambda>p. ret (0, t\<lparr>next_entries := p\<rparr>))))"

definition free_next :: "next_tab \<Rightarrow> (int \<times> next_tab) run" where
  "free_next t = bnd (free (next_entries t)) (\<lambda>_. ret (0, t\<lparr>next_entries := Null\<rparr>))"

section \<open>Broadcast and delivery\<close>

text \<open>
  The causal part of the messages is a local variable that is never written. The bound of
  the loop is an \<open>int\<close> compared with a \<open>size_t\<close>: \<open>k\<close> rounds are left.
\<close>

fun send_fifo_loop :: "env \<Rightarrow> net_data \<Rightarrow> lcb_msg \<Rightarrow> nat \<Rightarrow> nat \<Rightarrow> (int \<times> net_data) run" where
  "send_fifo_loop e data lcbmsg i 0 = ret (0, data)"
| "send_fifo_loop e data lcbmsg i (Suc k) =
     bnd (send_urb e data \<lparr>sequence_num = of_nat i, original_sender = of_nat (self_pid data)\<rparr> lcbmsg)
       (\<lambda>(r, data). if r < 0 then ret (r, data) else send_fifo_loop e data lcbmsg (i + 1) k)"

definition send_fifo :: "env \<Rightarrow> net_data \<Rightarrow> int \<Rightarrow> (int \<times> net_data) run" where
  "send_fifo e data m =
     (if 2 ^ 31 - 1 \<le> m then ub
      else send_fifo_loop e data \<lparr>lcb_clock = uninit_clock e, lcb_original_sender = junk e 1\<rparr> 1
             (nat ((m + 1) mod 2 ^ 64) - 1))"

text \<open>The loop of \<open>deliver_fifo\<close>; the number of the message goes up with \<open>next_idx\<close>.\<close>

partial_function (option) deliver_fifo_loop ::
  "env \<Rightarrow> net_data \<Rightarrow> fifo_msg \<Rightarrow> u32 \<Rightarrow> (int \<times> net_data) run" where
  "deliver_fifo_loop e data m next_idx =
     (let sid = of_nat (num_proc data) * (next_idx - 1) + original_sender m - 1 in
      bnd (get_pending (pending data) sid) (\<lambda>v.
      if v = 1 then
        bnd (incr_next (next_deliver data) (original_sender m)) (\<lambda>(r, nx).
        let data = data\<lparr>next_deliver := nx\<rparr> in
        if r < 0 then ret (r, data)
        else bnd (add_pending e (pending data) sid 0) (\<lambda>(r, t).
        let data = data\<lparr>pending := t\<rparr> in
        if r < 0 then ret (r, data)
        else bnd (log_deliver e (logdata data) m) (\<lambda>(r, l).
        let data = data\<lparr>logdata := l\<rparr>; m = m\<lparr>sequence_num := sequence_num m + 1\<rparr> in
        if r \<noteq> 0 then ret (r, data)
        else deliver_fifo_loop e data m (next_idx + 1))))
      else ret (0, data)))"

definition deliver_fifo :: "env \<Rightarrow> net_data \<Rightarrow> fifo_msg \<Rightarrow> (int \<times> net_data) run" where
  "deliver_fifo e data m =
     (let sid = of_nat (num_proc data) * (sequence_num m - 1) + original_sender m - 1 in
      bnd (add_pending e (pending data) sid 1) (\<lambda>(r, t).
      let data = data\<lparr>pending := t\<rparr> in
      if r < 0 then ret (r, data)
      else bnd (get_next (next_deliver data) (original_sender m)) (\<lambda>next_idx.
           deliver_fifo_loop e data m (of_int next_idx))))"

section \<open>The tables in range\<close>

definition pend_ok :: "pending_tab \<Rightarrow> bool" where
  "pend_ok t \<longleftrightarrow> (case bol t of Arr xs \<Rightarrow> length xs = unat (bol_total_entries t) | _ \<Rightarrow> False)"

definition pend_view :: "pending_tab \<Rightarrow> u32 \<Rightarrow> u32" where
  "pend_view t i = (case bol t of Arr xs \<Rightarrow> if unat i < length xs then xs ! unat i else 0 | _ \<Rightarrow> 0)"

definition pend_ids :: "pending_tab \<Rightarrow> u32 set" where
  "pend_ids t = {i. i < bol_total_entries t \<and> i \<le> MAX_SIZE_PENDING}"

lemma pend_okE:
  assumes "pend_ok t"
  obtains xs where "bol t = Arr xs" "length xs = unat (bol_total_entries t)"
  using assms by (auto simp: pend_ok_def split: ptr.splits)

lemma get_pending_view: "pend_ok t \<Longrightarrow> get_pending t i = ret (sint (pend_view t i))"
  by (auto simp: pend_ok_def get_pending_def pend_view_def word_le_nat_alt not_less not_le split: ptr.splits)

lemma sint_one [simp]: "sint (v :: u32) = 1 \<longleftrightarrow> v = 1"
proof
  assume "sint v = 1"
  then have "of_int (sint v) = (of_int 1 :: u32)" by simp
  then show "v = 1" by simp
qed simp

lemma add_pending_in_range:
  assumes "pend_ok t" "i \<in> pend_ids t"
  shows "\<exists>t'. add_pending e t i v = ret (0, t') \<and> pend_ok t' \<and> bol_total_entries t' = bol_total_entries t
    \<and> pend_view t' = (pend_view t)(i := v)"
proof -
  from assms(1) obtain xs where xs: "bol t = Arr xs" "length xs = unat (bol_total_entries t)" by (rule pend_okE)
  have i: "unat i < length xs" "\<not> MAX_SIZE_PENDING < i" "\<not> bol_total_entries t \<le> i"
    using assms(2) xs(2) by (auto simp: pend_ids_def word_less_nat_alt word_le_nat_alt)
  let ?t' = "t\<lparr>bol := Arr (xs[unat i := v])\<rparr>"
  have "pending_grow e i t = ret (0, t)" using i(3) by (subst pending_grow.simps) simp
  then have "add_pending e t i v = ret (0, ?t')" using xs(1) i by (simp add: add_pending_def)
  moreover have "pend_view ?t' = (pend_view t)(i := v)"
    using xs i(1) by (auto simp: fun_eq_iff pend_view_def nth_list_update word_unat_eq_iff)
  moreover have "pend_ok ?t'" using xs by (simp add: pend_ok_def)
  ultimately show ?thesis by auto
qed

lemma pend_ids_total: "bol_total_entries t' = bol_total_entries t \<Longrightarrow> pend_ids t' = pend_ids t"
  by (simp add: pend_ids_def)

text \<open>The pending table is a word store.\<close>

definition pending_put :: "env \<Rightarrow> pending_tab \<Rightarrow> u32 \<Rightarrow> u32 \<Rightarrow> pending_tab run" where
  "pending_put e t i v = bnd (add_pending e t i v) (\<lambda>(r, t'). if r = 0 then ret t' else ub)"

definition pending_word :: "pending_tab \<Rightarrow> u32 \<Rightarrow> u32 run" where
  "pending_word t i = bnd (get_pending t i) (\<lambda>v. ret (of_int v))"

interpretation fifo_pending: word_store pend_ok pend_ids pending_word "pending_put e" for e
proof unfold_locales
  fix t i v assume t: "pend_ok t" and i: "i \<in> pend_ids t"
  from add_pending_in_range [OF t i, of e v] obtain t' where t': "add_pending e t i v = ret (0, t')" "pend_ok t'"
    "bol_total_entries t' = bol_total_entries t" "pend_view t' = (pend_view t)(i := v)" by blast
  then show "\<exists>t'. pending_put e t i v = ret t' \<and> pend_ok t' \<and> pend_ids t' = pend_ids t
      \<and> (\<forall>j \<in> pend_ids t. pending_word t' j = (if j = i then ret v else pending_word t j))"
    using t by (intro exI [of _ t'])
      (simp add: pending_put_def pend_ids_total [OF t'(3)] pending_word_def get_pending_view)
next
  fix t i assume "pend_ok t" "i \<in> pend_ids t"
  then show "returns (pending_word t i)" by (simp add: pending_word_def get_pending_view)
qed

section \<open>FIFO delivery\<close>

text \<open>
  The state of the layer with respect to sender \<open>q\<close>: \<open>k\<close> messages delivered, the messages
  with numbers \<open>W\<close> waiting. Numbers go up to \<open>M\<close>, and the table has room for one more.
\<close>

definition fifo_id :: "nat \<Rightarrow> nat \<Rightarrow> nat \<Rightarrow> u32" where
  "fifo_id n q i = seen_id_of n \<lparr>sequence_num = of_nat i, original_sender = of_nat q\<rparr>"

definition fifo_sizes :: "nat \<Rightarrow> nat \<Rightarrow> nat \<Rightarrow> net_data \<Rightarrow> bool" where
  "fifo_sizes n q M data \<longleftrightarrow> num_proc data = n \<and> 1 \<le> q \<and> q \<le> n \<and> n * (M + 1) \<le> 8192
     \<and> n * (M + 1) \<le> unat (bol_total_entries (pending data)) \<and> pend_ok (pending data)
     \<and> next_no_process (next_deliver data) = of_nat n
     \<and> (case next_entries (next_deliver data) of Arr ys \<Rightarrow> length ys = n | _ \<Rightarrow> False)
     \<and> log_ok (logdata data) \<and> LINE_MAX_LENGTH \<le> buf_max_size (logdata data)"

definition next_val :: "net_data \<Rightarrow> nat \<Rightarrow> u32" where
  "next_val data q = (case next_entries (next_deliver data) of Arr ys \<Rightarrow> ys ! (q - 1) | _ \<Rightarrow> 0)"

definition waits :: "net_data \<Rightarrow> nat \<Rightarrow> nat \<Rightarrow> bool" where
  "waits data q i \<longleftrightarrow> pend_view (pending data) (fifo_id (num_proc data) q i) = 1"

lemma fifo_bound:
  assumes "fifo_sizes n q M data" "1 \<le> i" "i \<le> M + 1"
  shows "unat (fifo_id n q i) = n * (i - 1) + (q - 1)" "fifo_id n q i \<in> pend_ids (pending data)"
    "q - 1 < n" "n < 2 ^ 32" "unat (of_nat q :: u32) = q" "unat (of_nat n :: u32) = n"
    "M + 1 \<le> 8192" "unat (of_nat i :: u32) = i"
proof -
  have c: "1 \<le> q" "q \<le> n" "n * (M + 1) \<le> 8192" "n * (M + 1) \<le> unat (bol_total_entries (pending data))"
    using assms(1) by (simp_all add: fifo_sizes_def)
  have le: "n * i \<le> n * (M + 1)" using assms(3) by (rule mult_le_mono2)
  from c(1,2) obtain n' where n': "n = Suc n'" by (cases n) auto
  have small: "n \<le> 8192" "M + 1 \<le> 8192" using c(3) n' by simp_all
  have "n * i < 2 ^ 32" using le c(3) by simp
  from unat_seen_id [OF assms(2) c(1,2) this]
  have id: "unat (fifo_id n q i) = n * (i - 1) + (q - 1)" "unat (fifo_id n q i) < n * i"
    by (simp_all add: fifo_id_def)
  then show "unat (fifo_id n q i) = n * (i - 1) + (q - 1)" by simp
  show "fifo_id n q i \<in> pend_ids (pending data)"
    using id(2) le c(3,4) by (simp add: pend_ids_def word_less_nat_alt word_le_nat_alt)
  show "q - 1 < n" using c by simp
  show "n < 2 ^ 32" using small(1) by simp
  then show "unat (of_nat q :: u32) = q" "unat (of_nat n :: u32) = n"
    using c(2) by (intro unat_of_nat_u32; simp)+
  show "M + 1 \<le> 8192" by (rule small(2))
  then show "unat (of_nat i :: u32) = i" using assms(3) by (intro unat_of_nat_u32) simp
qed

lemma fifo_id_inj:
  assumes "fifo_sizes n q M data" "1 \<le> i" "i \<le> M + 1" "1 \<le> j" "j \<le> M + 1"
  shows "fifo_id n q i = fifo_id n q j \<longleftrightarrow> i = j"
proof
  assume "fifo_id n q i = fifo_id n q j"
  then have "unat (fifo_id n q i) = unat (fifo_id n q j)" by simp
  then have "n * (i - 1) + (q - 1) = n * (j - 1) + (q - 1)"
    by (simp only: fifo_bound(1) [OF assms(1-3)] fifo_bound(1) [OF assms(1,4,5)])
  from index_inj [OF this fifo_bound(3,3) [OF assms(1-3)]] assms(2,4) show "i = j" by simp
qed simp

lemma fifo_mark:
  assumes "fifo_sizes n q M data" "1 \<le> i" "i \<le> M + 1"
  shows "\<exists>t. add_pending e (pending data) (fifo_id n q i) v = ret (0, t)
    \<and> fifo_sizes n q M (data\<lparr>pending := t\<rparr>)
    \<and> pend_view t = (pend_view (pending data))(fifo_id n q i := v)"
proof -
  have "pend_ok (pending data)" using assms(1) by (simp add: fifo_sizes_def)
  from add_pending_in_range [OF this fifo_bound(2) [OF assms], of e v] obtain t where
    "add_pending e (pending data) (fifo_id n q i) v = ret (0, t)" "pend_ok t"
    "bol_total_entries t = bol_total_entries (pending data)"
    "pend_view t = (pend_view (pending data))(fifo_id n q i := v)" by blast
  with assms(1) show ?thesis by (auto simp: fifo_sizes_def)
qed

lemma fifo_next:
  assumes "fifo_sizes n q M data"
  shows "get_next (next_deliver data) (of_nat q) = ret (sint (next_val data q + 1))"
    "\<exists>nx. incr_next (next_deliver data) (of_nat q) = ret (0, nx)
      \<and> fifo_sizes n q M (data\<lparr>next_deliver := nx\<rparr>)
      \<and> next_val (data\<lparr>next_deliver := nx\<rparr>) q = next_val data q + 1"
proof -
  note b = fifo_bound [OF assms, of 1]
  obtain ys where ys: "next_entries (next_deliver data) = Arr ys" "length ys = n" and q: "1 \<le> q" "q \<le> n"
    using assms by (auto simp: fifo_sizes_def split: ptr.splits)
  have np: "next_no_process (next_deliver data) = of_nat n" using assms by (simp add: fifo_sizes_def)
  have g: "\<not> (of_nat n :: u32) < of_nat q" using b q(2) by (simp add: word_less_nat_alt)
  have i: "unat (of_nat q - 1 :: u32) = q - 1" using b q(1) unat_sub_u32 [of 1 "of_nat q"] by simp
  have lt: "q - 1 < length ys" using q ys(2) by simp
  show "get_next (next_deliver data) (of_nat q) = ret (sint (next_val data q + 1))"
    using ys(1) g i lt by (simp add: get_next_def np next_val_def)
  show "\<exists>nx. incr_next (next_deliver data) (of_nat q) = ret (0, nx)
      \<and> fifo_sizes n q M (data\<lparr>next_deliver := nx\<rparr>)
      \<and> next_val (data\<lparr>next_deliver := nx\<rparr>) q = next_val data q + 1"
    using ys g i lt assms by (auto simp: incr_next_def np next_val_def fifo_sizes_def)
qed

lemma fifo_log:
  assumes "fifo_sizes n q M data" "event_fits (Deliver p s)" "\<And>k. fwritten e k = k"
  shows "\<exists>l. log_deliver e (logdata data) \<lparr>sequence_num = s, original_sender = p\<rparr> = ret (0, l)
    \<and> fifo_sizes n q M (data\<lparr>logdata := l\<rparr>)
    \<and> log_text l = log_text (logdata data) @ deliver_line p s"
  using record_event_ok [of "logdata data" "Deliver p s" e] assms
  by (auto simp: fifo_sizes_def)

text \<open>The loop delivers the messages from \<open>i\<close> on that wait without a gap, up to before \<open>i'\<close>.\<close>

lemma deliver_fifo_loop_run:
  assumes "fifo_sizes n q M data" "1 \<le> i" "i \<le> i'" "i' \<le> M + 1"
    and "\<And>j. i \<le> j \<Longrightarrow> j < i' \<Longrightarrow> waits data q j" "\<not> waits data q i'"
    and "\<And>j. i \<le> j \<Longrightarrow> j < i' \<Longrightarrow> event_fits (Deliver (of_nat q) (of_nat j))" "\<And>k. fwritten e k = k"
  shows "\<exists>d. deliver_fifo_loop e data \<lparr>sequence_num = (if i < i' then of_nat i else s), original_sender = of_nat q\<rparr> (of_nat i) = ret (0, d)
    \<and> fifo_sizes n q M d \<and> next_val d q = next_val data q + of_nat (i' - i)
    \<and> (\<forall>j. 1 \<le> j \<and> j \<le> M + 1 \<longrightarrow> waits d q j = (waits data q j \<and> \<not> (i \<le> j \<and> j < i')))
    \<and> log_text (logdata d) = log_text (logdata data) @ concat (map (\<lambda>j. deliver_line (of_nat q) (of_nat j)) [i..<i'])"
  using assms
proof (induction "i' - i" arbitrary: i data s)
  case 0
  have n: "num_proc data = n" using 0 by (simp add: fifo_sizes_def)
  have id: "of_nat n * (of_nat i - 1) + of_nat q - 1 = fifo_id n q i" by (simp add: fifo_id_def seen_id_of_def)
  have "pend_ok (pending data)" using 0 by (simp add: fifo_sizes_def)
  with 0 show ?case
    by (subst deliver_fifo_loop.simps)
      (simp add: n id Let_def get_pending_view waits_def)
next
  case (Suc m)
  have n: "num_proc data = n" using Suc by (simp add: fifo_sizes_def)
  have i: "i < i'" "i \<le> M + 1" using Suc by simp_all
  have id: "of_nat n * (of_nat i - 1) + of_nat q - 1 = fifo_id n q i" by (simp add: fifo_id_def seen_id_of_def)
  have p: "pend_ok (pending data)" using Suc by (simp add: fifo_sizes_def)
  have w: "get_pending (pending data) (fifo_id n q i) = ret 1"
    using Suc.prems(5) [of i] i p by (simp add: get_pending_view waits_def n)
  from fifo_next(2) [OF Suc.prems(1)] obtain nx where
    nx: "incr_next (next_deliver data) (of_nat q) = ret (0, nx)" "fifo_sizes n q M (data\<lparr>next_deliver := nx\<rparr>)"
      "next_val (data\<lparr>next_deliver := nx\<rparr>) q = next_val data q + 1" by blast
  from fifo_mark [OF nx(2) Suc.prems(2) i(2), of e 0] obtain t where
    t: "add_pending e (pending data) (fifo_id n q i) 0 = ret (0, t)"
      "fifo_sizes n q M (data\<lparr>next_deliver := nx, pending := t\<rparr>)"
      "pend_view t = (pend_view (pending data))(fifo_id n q i := 0)" by auto
  from fifo_log [OF t(2) Suc.prems(7) [of i] Suc.prems(8)] i obtain l where
    l: "log_deliver e (logdata data) \<lparr>sequence_num = of_nat i, original_sender = of_nat q\<rparr> = ret (0, l)"
      "fifo_sizes n q M (data\<lparr>next_deliver := nx, pending := t, logdata := l\<rparr>)"
      "log_text l = log_text (logdata data) @ deliver_line (of_nat q) (of_nat i)" by auto
  let ?d = "data\<lparr>next_deliver := nx, pending := t, logdata := l\<rparr>"
  have step: "deliver_fifo_loop e data \<lparr>sequence_num = of_nat i, original_sender = of_nat q\<rparr> (of_nat i)
      = deliver_fifo_loop e ?d \<lparr>sequence_num = of_nat i + 1, original_sender = of_nat q\<rparr> (of_nat i + 1)"
    using w nx(1) t(1) l(1)
    by (subst deliver_fifo_loop.simps) (simp add: n id Let_def)
  have i1: "of_nat i + 1 = (of_nat (i + 1) :: u32)" by simp
  have wd: "waits ?d q j = (waits data q j \<and> j \<noteq> i)" if "1 \<le> j" "j \<le> M + 1" for j
    using t(3) fifo_id_inj [OF Suc.prems(1) that Suc.prems(2) i(2)] by (simp add: waits_def n)
  have nv: "next_val ?d q = next_val data q + 1" using nx(3) by (simp add: next_val_def)
  have "\<exists>d. deliver_fifo_loop e ?d \<lparr>sequence_num = (if i + 1 < i' then of_nat (i + 1) else of_nat (i + 1)), original_sender = of_nat q\<rparr> (of_nat (i + 1)) = ret (0, d)
    \<and> fifo_sizes n q M d \<and> next_val d q = next_val ?d q + of_nat (i' - (i + 1))
    \<and> (\<forall>j. 1 \<le> j \<and> j \<le> M + 1 \<longrightarrow> waits d q j = (waits ?d q j \<and> \<not> (i + 1 \<le> j \<and> j < i')))
    \<and> log_text (logdata d) = log_text (logdata ?d) @ concat (map (\<lambda>j. deliver_line (of_nat q) (of_nat j)) [i + 1..<i'])"
  proof (rule Suc.hyps(1))
    show "m = i' - (i + 1)" using Suc.hyps(2) by simp
    show "fifo_sizes n q M ?d" by (rule l(2))
    show "waits ?d q j" if "i + 1 \<le> j" "j < i'" for j
      using wd [of j] Suc.prems(5) [of j] that Suc.prems(2,4) by simp
    show "\<not> waits ?d q i'" using wd [of i'] Suc.prems(2,4,6) i(1) by simp
  qed (use Suc.prems i in auto)
  then obtain d where
    d: "deliver_fifo_loop e ?d \<lparr>sequence_num = of_nat (i + 1), original_sender = of_nat q\<rparr> (of_nat (i + 1)) = ret (0, d)"
      "fifo_sizes n q M d" "next_val d q = next_val ?d q + of_nat (i' - (i + 1))"
      "\<forall>j. 1 \<le> j \<and> j \<le> M + 1 \<longrightarrow> waits d q j = (waits ?d q j \<and> \<not> (i + 1 \<le> j \<and> j < i'))"
      "log_text (logdata d) = log_text (logdata ?d) @ concat (map (\<lambda>j. deliver_line (of_nat q) (of_nat j)) [i + 1..<i'])"
    by auto
  have "next_val d q = next_val data q + of_nat (i' - i)"
  proof -
    have "i' - i = Suc (i' - (i + 1))" using i(1) by simp
    then show ?thesis using d(3) nv by simp
  qed
  moreover have "\<forall>j. 1 \<le> j \<and> j \<le> M + 1 \<longrightarrow> waits d q j = (waits data q j \<and> \<not> (i \<le> j \<and> j < i'))"
    using d(4) wd i(1) by auto
  moreover have "log_text (logdata d) = log_text (logdata data)
      @ concat (map (\<lambda>j. deliver_line (of_nat q) (of_nat j)) [i..<i'])"
    using d(5) l(3) i(1) by (simp add: upt_conv_Cons)
  moreover have "deliver_fifo_loop e data \<lparr>sequence_num = of_nat i, original_sender = of_nat q\<rparr> (of_nat i) = ret (0, d)"
    using step d(1) unfolding i1 by (rule trans)
  ultimately show ?case using i(1) d(2) by simp
qed

text \<open>
  The messages \<open>A\<close> of sender \<open>q\<close> have arrived (numbers from 1 to \<open>M\<close>), the first \<open>k\<close> of them are
  delivered and number \<open>k + 1\<close> has not arrived.
\<close>

definition fifo_at :: "nat \<Rightarrow> nat \<Rightarrow> nat \<Rightarrow> nat \<Rightarrow> nat set \<Rightarrow> net_data \<Rightarrow> bool" where
  "fifo_at n q M k A data \<longleftrightarrow> fifo_sizes n q M data \<and> A \<subseteq> {1..M} \<and> next_val data q = of_nat k
     \<and> {1..k} \<subseteq> A \<and> k + 1 \<notin> A \<and> (\<forall>i. k < i \<and> i \<le> M + 1 \<longrightarrow> waits data q i = (i \<in> A))"

abbreviation fifo_lines :: "nat \<Rightarrow> nat \<Rightarrow> nat \<Rightarrow> string" where
  "fifo_lines q a b \<equiv> concat (map (\<lambda>j. deliver_line (of_nat q) (of_nat j)) [a..<b])"

lemma first_gap:
  assumes "A \<subseteq> {1..M}" "k \<le> (M :: nat)"
  obtains i' where "k < i'" "i' \<le> M + 1" "i' \<notin> A" "\<And>j. k < j \<Longrightarrow> j < i' \<Longrightarrow> j \<in> A"
proof -
  let ?P = "\<lambda>i. k < i \<and> i \<notin> A"
  have P: "?P (M + 1)" using assms by auto
  have le: "Least ?P \<le> M + 1" using P by (rule Least_le)
  have at: "?P (Least ?P)" using P by (rule LeastI)
  have below: "j \<in> A" if "k < j" "j < Least ?P" for j
    using not_less_Least [OF that(2)] that(1) by blast
  from at show thesis by (intro that [OF _ le _ below]) blast+
qed

lemma deliver_fifo_one:
  assumes at: "fifo_at n q M k A data" and j: "1 \<le> j" "j \<le> M"
    and fits: "\<And>i. i \<le> M \<Longrightarrow> event_fits (Deliver (of_nat q) (of_nat i))" and io: "\<And>m. fwritten e m = m"
  shows "\<exists>k' d. deliver_fifo e data \<lparr>sequence_num = of_nat j, original_sender = of_nat q\<rparr> = ret (0, d)
    \<and> k \<le> k' \<and> fifo_at n q M k' (insert j A) d
    \<and> log_text (logdata d) = log_text (logdata data) @ fifo_lines q (k + 1) (k' + 1)"
proof -
  from at have s: "fifo_sizes n q M data" and A: "A \<subseteq> {1..M}" "{1..k} \<subseteq> A" "k + 1 \<notin> A"
    and nv: "next_val data q = of_nat k" and w: "\<And>i. k < i \<Longrightarrow> i \<le> M + 1 \<Longrightarrow> waits data q i = (i \<in> A)"
    by (auto simp: fifo_at_def)
  have kM: "k \<le> M"
  proof (cases "k = 0")
    case False
    then have "k \<in> {1..k}" by simp
    from subsetD [OF A(1) subsetD [OF A(2) this]] show ?thesis by simp
  qed simp
  have n: "num_proc data = n" using s by (simp add: fifo_sizes_def)
  have jb: "1 \<le> j" "j \<le> M + 1" using j by simp_all
  from fifo_mark [OF s jb, of e 1] obtain t where
    t: "add_pending e (pending data) (fifo_id n q j) 1 = ret (0, t)" "fifo_sizes n q M (data\<lparr>pending := t\<rparr>)"
      "pend_view t = (pend_view (pending data))(fifo_id n q j := 1)" by blast
  let ?d = "data\<lparr>pending := t\<rparr>"
  have wd: "waits ?d q i = (waits data q i \<or> i = j)" if "1 \<le> i" "i \<le> M + 1" for i
    using t(3) fifo_id_inj [OF s that jb] by (auto simp: waits_def n)
  have nvd: "next_val ?d q = of_nat k" using nv by (simp add: next_val_def)
  obtain i' where i': "k < i'" "i' \<le> M + 1" "i' \<notin> insert j A" "\<And>i. k < i \<Longrightarrow> i < i' \<Longrightarrow> i \<in> insert j A"
    using first_gap [of "insert j A" M k] A(1) j kM by auto
  have run_ok: "waits ?d q i" if "k + 1 \<le> i" "i < i'" for i
    using wd [of i] w [of i] i'(2) i'(4) [of i] that by auto
  have gap_ok: "\<not> waits ?d q i'" using wd [of i'] w [of i'] i'(1-3) by auto
  have seq: "(if k + 1 < i' then of_nat (k + 1) else of_nat j) = (of_nat j :: u32)"
    using i'(4) [of "k + 1"] A(3) by auto
  have "\<exists>d. deliver_fifo_loop e ?d \<lparr>sequence_num = (if k + 1 < i' then of_nat (k + 1) else of_nat j), original_sender = of_nat q\<rparr> (of_nat (k + 1)) = ret (0, d)
    \<and> fifo_sizes n q M d \<and> next_val d q = next_val ?d q + of_nat (i' - (k + 1))
    \<and> (\<forall>i. 1 \<le> i \<and> i \<le> M + 1 \<longrightarrow> waits d q i = (waits ?d q i \<and> \<not> (k + 1 \<le> i \<and> i < i')))
    \<and> log_text (logdata d) = log_text (logdata ?d) @ fifo_lines q (k + 1) i'"
    by (rule deliver_fifo_loop_run [OF t(2) _ _ i'(2) run_ok gap_ok _ io]) (use i'(1,2) fits in simp_all)
  then obtain d where
    d: "deliver_fifo_loop e ?d \<lparr>sequence_num = of_nat j, original_sender = of_nat q\<rparr> (of_nat (k + 1)) = ret (0, d)"
      "fifo_sizes n q M d" "next_val d q = of_nat k + of_nat (i' - (k + 1))"
      "\<And>i. 1 \<le> i \<Longrightarrow> i \<le> M + 1 \<Longrightarrow> waits d q i = (waits ?d q i \<and> \<not> (k + 1 \<le> i \<and> i < i'))"
      "log_text (logdata d) = log_text (logdata data) @ fifo_lines q (k + 1) i'"
    unfolding seq nvd by auto
  have id: "of_nat n * (of_nat j - 1) + of_nat q - 1 = fifo_id n q j" by (simp add: fifo_id_def seen_id_of_def)
  have nd: "next_deliver ?d = next_deliver data" by simp
  have g: "get_next (next_deliver data) (of_nat q) = ret (sint (of_nat (k + 1) :: u32))"
    using fifo_next(1) [OF s] nv by (simp add: add.commute)
  have "deliver_fifo e data \<lparr>sequence_num = of_nat j, original_sender = of_nat q\<rparr>
      = deliver_fifo_loop e ?d \<lparr>sequence_num = of_nat j, original_sender = of_nat q\<rparr> (of_nat (k + 1))"
    unfolding deliver_fifo_def Let_def using t(1) g
    by (simp only: fifo_msg.simps n id bnd_simps prod.case nd of_int_sint scast_id less_irrefl if_False)
  with d(1) have run: "deliver_fifo e data \<lparr>sequence_num = of_nat j, original_sender = of_nat q\<rparr> = ret (0, d)"
    by simp
  have "fifo_at n q M (i' - 1) (insert j A) d"
    unfolding fifo_at_def
  proof (intro conjI allI impI)
    have "k + (i' - (k + 1)) = i' - 1" using i'(1) by simp
    then show "next_val d q = of_nat (i' - 1)" using d(3) by (metis of_nat_add)
    show "{1..i' - 1} \<subseteq> insert j A"
    proof
      fix x assume x: "x \<in> {1..i' - 1}"
      show "x \<in> insert j A" using x A(2) i'(4) [of x] by (cases "x \<le> k") auto
    qed
    show "waits d q i = (i \<in> insert j A)" if "i' - 1 < i \<and> i \<le> M + 1" for i
    proof -
      have "1 \<le> i" "i \<le> M + 1" "k < i" "\<not> i < i'" using that i'(1) by auto
      then show ?thesis using d(4) [of i] wd [of i] w [of i] by auto
    qed
  qed (use d(2) A(1) j i' in auto)
  moreover have "i' = (i' - 1) + 1" "k \<le> i' - 1" using i'(1) by simp_all
  ultimately show ?thesis using run d(5) by metis
qed

text \<open>A series of messages of one sender, in the order of their arrival.\<close>

fun deliver_fifo_seq :: "env \<Rightarrow> net_data \<Rightarrow> nat \<Rightarrow> nat list \<Rightarrow> (int \<times> net_data) run" where
  "deliver_fifo_seq e data q [] = ret (0, data)"
| "deliver_fifo_seq e data q (j # js) =
     bnd (deliver_fifo e data \<lparr>sequence_num = of_nat j, original_sender = of_nat q\<rparr>) (\<lambda>(r, d).
     if r \<noteq> 0 then ret (r, d) else deliver_fifo_seq e d q js)"

lemma deliver_fifo_seq_run:
  assumes "fifo_at n q M k A data" "set js \<subseteq> {1..M}"
    and "\<And>i. i \<le> M \<Longrightarrow> event_fits (Deliver (of_nat q) (of_nat i))" "\<And>m. fwritten e m = m"
  shows "\<exists>k' d. deliver_fifo_seq e data q js = ret (0, d) \<and> k \<le> k' \<and> fifo_at n q M k' (set js \<union> A) d
    \<and> log_text (logdata d) = log_text (logdata data) @ fifo_lines q (k + 1) (k' + 1)"
  using assms(1,2)
proof (induction js arbitrary: k A data)
  case Nil
  then show ?case by (intro exI [of _ k] exI [of _ data]) simp
next
  case (Cons j js)
  from Cons.prems(2) have j: "1 \<le> j" "j \<le> M" "set js \<subseteq> {1..M}" by auto
  from deliver_fifo_one [OF Cons.prems(1) j(1,2) assms(3,4)] obtain k1 d1 where
    d1: "deliver_fifo e data \<lparr>sequence_num = of_nat j, original_sender = of_nat q\<rparr> = ret (0, d1)" "k \<le> k1"
      "fifo_at n q M k1 (insert j A) d1"
      "log_text (logdata d1) = log_text (logdata data) @ fifo_lines q (k + 1) (k1 + 1)" by blast
  from Cons.IH [OF d1(3) j(3)] obtain k' d where
    d: "deliver_fifo_seq e d1 q js = ret (0, d)" "k1 \<le> k'" "fifo_at n q M k' (set js \<union> insert j A) d"
      "log_text (logdata d) = log_text (logdata d1) @ fifo_lines q (k1 + 1) (k' + 1)" by blast
  have "[k + 1..<k' + 1] = [k + 1..<k1 + 1] @ [k1 + 1..<k' + 1]"
    using d1(2) d(2) by (metis add_le_mono1 le_Suc_ex upt_add_eq_append)
  with d1 d show ?case by (intro exI [of _ k'] exI [of _ d]) (simp add: Un_commute)
qed

text \<open>C35: FIFO order. Whatever the order in which the messages of a sender arrive, and however
  often each of them does, the layer returns 0 and logs exactly the longest run 1, 2, 3, ...
  of messages that have arrived, in this order, each once. (The tables have room for \<open>M\<close> messages,
  nothing has arrived before, the sender's id is below 10 and \<open>M\<close> below 100, so that every line
  fits its array, and all writes to the log file succeed.)\<close>

theorem deliver_fifo_in_order:
  assumes "fifo_sizes n q M data" "next_val data q = 0" "\<And>i. 1 \<le> i \<Longrightarrow> i \<le> M + 1 \<Longrightarrow> \<not> waits data q i"
    and "set js \<subseteq> {1..M}" "q < 10" "M < 100" "\<And>m. fwritten e m = m"
  shows "\<exists>k d. deliver_fifo_seq e data q js = ret (0, d) \<and> {1..k} \<subseteq> set js \<and> k + 1 \<notin> set js
    \<and> log_text (logdata d) = log_text (logdata data)
        @ concat (map (\<lambda>j. deliver_line (of_nat q) (of_nat j)) [1..<k + 1])"
proof -
  have at: "fifo_at n q M 0 {} data" using assms(1-3) by (simp add: fifo_at_def)
  have "event_fits (Deliver (of_nat q) (of_nat i))" if "i \<le> M" for i
    using fits_small_pid [of "of_nat q" "of_nat i"] that assms(5,6) by (simp add: unat_of_nat_u32)
  from deliver_fifo_seq_run [OF at assms(4) this assms(7)] obtain k d where
    "deliver_fifo_seq e data q js = ret (0, d)" "fifo_at n q M k (set js \<union> {}) d"
    "log_text (logdata d) = log_text (logdata data) @ fifo_lines q (0 + 1) (k + 1)" by blast
  then show ?thesis by (intro exI [of _ k] exI [of _ d]) (simp add: fifo_at_def)
qed

theorem deliver_fifo_in_order_witness:
  "\<exists>d. deliver_fifo_seq good_env sample 2 [2, 1, 2] = ret (0, d)
     \<and> log_text (logdata d) = deliver_line 2 1 @ deliver_line 2 2"
proof -
  have sz: "fifo_sizes 3 2 2 sample"
    by (simp add: fifo_sizes_def sample_def pend_ok_def empty_log_ok)
  have nx: "next_val sample 2 = 0" by (simp add: next_val_def sample_def)
  have w: "\<not> waits sample 2 i" for i
    by (simp add: waits_def pend_view_def sample_def)
  have js: "set [2, 1, 2] \<subseteq> {1..2 :: nat}" by auto
  from deliver_fifo_in_order [OF sz nx w js, of good_env] obtain k d where
    d: "deliver_fifo_seq good_env sample 2 [2, 1, 2] = ret (0, d)"
      "{1..k} \<subseteq> set [2, 1, 2]" "k + 1 \<notin> set [2, 1, 2]"
      "log_text (logdata d) = log_text (logdata sample)
        @ concat (map (\<lambda>j. deliver_line (of_nat 2) (of_nat j)) [1..<k + 1])" by auto
  have "k \<le> 2"
  proof (rule ccontr)
    assume "\<not> k \<le> 2"
    then have "3 \<in> {1..k}" by simp
    from subsetD [OF d(2) this] show False by simp
  qed
  moreover from d(3) have "k \<noteq> 0" "k \<noteq> 1" by auto
  ultimately have "k = 2" by simp
  moreover have "[1..<3] = [1, 2 :: nat]" by code_simp
  ultimately have "log_text (logdata d) = deliver_line 2 1 @ deliver_line 2 2"
    using d(4) by (simp add: empty_log_ok del: upt_Suc)
  with d(1) show ?thesis by blast
qed

section \<open>The causal broadcast stub\<close>

text \<open>
  The two functions of src/causal.c, \<open>send_lcb\<close> and \<open>deliver_lcb\<close>: an earlier stub that is not
  linked. Both do nothing and report success.
\<close>

definition causal_send_lcb :: "net_data \<Rightarrow> int \<Rightarrow> int \<times> net_data" where
  "causal_send_lcb data m = (0, data)"

definition causal_deliver_lcb :: "net_data \<Rightarrow> lcb_msg \<Rightarrow> int \<times> net_data" where
  "causal_deliver_lcb data m = (0, data)"

end
