(* ===== verification/DaProc.thy ===== *)
theory DaProc
  imports System Parser Fifo
begin

text \<open>
  The life of a process (src/da\_proc.c), with the set-up and the end of the receiver and
  sender threads (src/receiver.c, src/sender.c): start-up, the start signal, broadcasting,
  and what the handler of SIGTERM and SIGINT does.
\<close>

definition QUEUE_LEN :: nat where "QUEUE_LEN = 200"

definition MSG_BUF_MAX_SIZE :: nat where "MSG_BUF_MAX_SIZE = 1024"

definition ORIG_TABLE_SIZE :: u32 where "ORIG_TABLE_SIZE = 150"

section \<open>The receiver thread\<close>

text \<open>The first socket and the first thread of the process.\<close>

definition init_receiver :: "env \<Rightarrow> net_data \<Rightarrow> (int \<times> net_data) run" where
  "init_receiver e data =
     (if \<not> mutex_init_ok e then ret (err ERROR_MUTEX, data)
      else let data = data\<lparr>rec_mutex := False\<rparr> in
        bnd (get_addr (address_book data) (self_pid data)) (\<lambda>(r, addr).
        if r \<noteq> 0 then ret (r, data)
        else if new_socket e 0 < 0 then ret (err ERROR_SOCKET, data)
        else let data = data\<lparr>receiver_fd := new_socket e 0\<rparr> in
          if \<not> bind_ok e then ret (err ERROR_BIND, data)
          else if \<not> thread_ok e 0 then ret (err ERROR_THREAD, data)
          else ret (0, data\<lparr>receiver_thread := Some 0\<rparr>)))"

text \<open>
  Cancelling or joining through a handle that names no thread is undefined. When the thread
  cannot be cancelled the call returns with the mutex of the log held.
\<close>

definition terminate_receiver :: "env \<Rightarrow> net_data \<Rightarrow> (int \<times> net_data) run" where
  "terminate_receiver e data =
     bnd (mutex_lock (loglok (logdata data))) (\<lambda>m.
     if receiver_thread data = None then ub
     else if \<not> cancel_ok e then ret (err ERROR_THREAD, data\<lparr>logdata := (logdata data)\<lparr>loglok := m\<rparr>\<rparr>)
     else ret (0, data\<lparr>logdata := (logdata data)\<lparr>loglok := False\<rparr>\<rparr>))"

section \<open>The sender threads\<close>

definition zero_sender :: sender_thread where
  "zero_sender = \<lparr>sender_handle = None, sender_idx = 0, sender_fd = 0\<rparr>"

text \<open>The loop over the sockets, \<open>k\<close> left from index \<open>i\<close>; \<open>sizeof(sender_thread_t)\<close> is 32.\<close>

fun open_sockets :: "env \<Rightarrow> nat \<Rightarrow> nat \<Rightarrow> sender_thread ptr \<Rightarrow> (int \<times> sender_thread ptr) run" where
  "open_sockets e i 0 p = ret (0, p)"
| "open_sockets e i (Suc k) p =
     bnd (load p i) (\<lambda>s. bnd (store p i (s\<lparr>sender_idx := i\<rparr>)) (\<lambda>p.
     if new_socket e (i + 1) < 0 then bnd (free p) (\<lambda>p. ret (err ERROR_SOCKET, p))
     else bnd (load p i) (\<lambda>s. bnd (store p i (s\<lparr>sender_fd := new_socket e (i + 1)\<rparr>)) (\<lambda>p.
          open_sockets e (i + 1) k p))))"

definition setup_sockets :: "env \<Rightarrow> net_data \<Rightarrow> nat \<Rightarrow> (int \<times> net_data) run" where
  "setup_sockets e data n =
     (if \<not> grant e (n * 32) then ret (err ERROR_MEMORY, data\<lparr>senders := Null\<rparr>)
      else bnd (open_sockets e 0 n (Arr (replicate n zero_sender))) (\<lambda>(r, p).
        ret (r, data\<lparr>senders := p\<rparr>)))"

text \<open>Each successful \<open>pthread_create\<close> stores its handle into the array.\<close>

fun create_threads :: "env \<Rightarrow> nat \<Rightarrow> nat \<Rightarrow> sender_thread ptr \<Rightarrow> (int \<times> sender_thread ptr) run" where
  "create_threads e i 0 p = ret (0, p)"
| "create_threads e i (Suc k) p =
     (if \<not> thread_ok e (i + 1) then ret (err ERROR_THREAD, p)
      else bnd (load p i) (\<lambda>s. bnd (store p i (s\<lparr>sender_handle := Some (i + 1)\<rparr>)) (\<lambda>p.
           create_threads e (i + 1) k p)))"

definition setup_threads :: "env \<Rightarrow> net_data \<Rightarrow> nat \<Rightarrow> (int \<times> net_data) run" where
  "setup_threads e data n =
     bnd (create_threads e 0 n (senders data)) (\<lambda>(r, p). ret (r, data\<lparr>senders := p\<rparr>))"

definition init_senders :: "env \<Rightarrow> net_data \<Rightarrow> nat \<Rightarrow> (int \<times> net_data) run" where
  "init_senders e data n =
     bnd (setup_sockets e data n) (\<lambda>(r, data).
     if r \<noteq> 0 then ret (r, data)
     else bnd (setup_threads e data n) (\<lambda>(r, data). if r \<noteq> 0 then ret (r, data) else ret (0, data)))"

text \<open>
  The first loop cancels, the second joins the thread of each handle in the array. Both calls
  are undefined on a handle that names no thread; joining a cancelled thread ends.
\<close>

fun read_handles :: "sender_thread ptr \<Rightarrow> nat \<Rightarrow> nat \<Rightarrow> unit run" where
  "read_handles p i 0 = ret ()"
| "read_handles p i (Suc k) =
     bnd (load p i) (\<lambda>s. if sender_handle s = None then ub else read_handles p (i + 1) k)"

definition terminate_senders :: "net_data \<Rightarrow> nat \<Rightarrow> unit run" where
  "terminate_senders data n =
     bnd (read_handles (senders data) 0 n) (\<lambda>_. read_handles (senders data) 0 n)"

section \<open>Start-up\<close>

text \<open>The global data before \<open>main\<close>: everything zero.\<close>

definition empty_uid_table :: uid_table where
  "empty_uid_table = \<lparr>no_msgs = 0, no_process = 0, total_entries = 0, entries = Null\<rparr>"

definition program_data :: net_data where
  "program_data = \<lparr>address_book = None, self_pid = 0, num_proc = 0, num_msg = 0,
     pl_acks = \<lparr>table_mutex = False, ack_tab = empty_uid_table\<rparr>, pl_deliv = \<lparr>pl_tab = empty_uid_table\<rparr>,
     task_q = \<lparr>no_elem = 0, qsize = 0, q_front = 0, q_back = 0, elems = Null, queue_mutex = False\<rparr>,
     urb_tab = \<lparr>urb_values = Null, urb_no_msgs = 0, urb_no_process = 0, urb_total_entries = 0\<rparr>,
     senders = Null, receiver_thread = None,
     pending = \<lparr>bol = Null, bol_no_msgs = 0, bol_no_process = 0, bol_total_entries = 0\<rparr>,
     next_deliver = \<lparr>next_no_process = 0, next_entries = Null\<rparr>,
     urbacks = \<lparr>urb_ack_tab = empty_uid_table\<rparr>, receiver_fd = 0,
     logdata = \<lparr>buf_max_size = 0, buf_current_size = 0, buffer = Null, log_file = None, loglok = False\<rparr>,
     log_filename = [], rec_mutex = False, deps = None,
     pending_lcb = \<lparr>lcb_num_proc = 0, lists = Null, node_mem = \<lparr>nodes = \<lambda>_. None, next_addr = 0\<rparr>\<rparr>,
     vector_clock = zero_clock, net_out = []\<rparr>"

text \<open>The name of the log file goes into an array of 14 characters; \<open>sprintf\<close> adds a zero.\<close>

definition LOG_FILENAME :: "nat \<Rightarrow> string" where
  "LOG_FILENAME pid = ''da_proc_'' @ dec pid @ ''.out''"

definition sprintf_filename :: "nat \<Rightarrow> string run" where
  "sprintf_filename pid = (if length (LOG_FILENAME pid) + 1 \<le> 14 then ret (LOG_FILENAME pid) else ub)"

text \<open>
  \<open>init_data\<close>, in two halves: the tables, and what follows. \<open>num_proc\<close> is narrowed to 32 bits
  where a table is initialised.
\<close>

definition init_tables :: "env \<Rightarrow> net_data \<Rightarrow> int \<times> net_data" where
  "init_tables e data =
     (let n = of_nat (num_proc data);
          (r, q) = init_queue e (task_q data) QUEUE_LEN; data = data\<lparr>task_q := q\<rparr> in
      if r \<noteq> 0 then (r, data)
      else let (r, a) = init_ack_table e (pl_acks data) ORIG_TABLE_SIZE n; data = data\<lparr>pl_acks := a\<rparr> in
      if r \<noteq> 0 then (r, data)
      else let (r, d) = init_deliver_pl e (pl_deliv data) ORIG_TABLE_SIZE n; data = data\<lparr>pl_deliv := d\<rparr> in
      if r \<noteq> 0 then (r, data)
      else let (r, t) = init_urb_table e (urb_tab data) ORIG_TABLE_SIZE n; data = data\<lparr>urb_tab := t\<rparr> in
      if r \<noteq> 0 then (r, data)
      else let (r, u) = init_ack_urb e (urbacks data) ORIG_TABLE_SIZE n; data = data\<lparr>urbacks := u\<rparr> in
      if r \<noteq> 0 then (r, data)
      else let (r, p) = init_pending_lcb e (pending_lcb data) (num_proc data) in
      (if r < 0 then r else 0, data\<lparr>pending_lcb := p\<rparr>))"

definition init_rest :: "env \<Rightarrow> net_data \<Rightarrow> (int \<times> net_data) run" where
  "init_rest e data =
     bnd (init_vector_mutex e (vector_clock data) (of_nat (num_proc data))) (\<lambda>(r, c).
     let data = data\<lparr>vector_clock := c\<rparr> in
     if r < 0 then ret (r, data)
     else bnd (sprintf_filename (self_pid data)) (\<lambda>name.
       let data = data\<lparr>log_filename := name\<rparr>;
           (r, l) = init_log_data e (logdata data) MSG_BUF_MAX_SIZE; data = data\<lparr>logdata := l\<rparr> in
       if r \<noteq> 0 then ret (r, data)
       else bnd (init_receiver e data) (\<lambda>(r, data).
       if r \<noteq> 0 then ret (r, data)
       else bnd (init_senders e data NUM_SENDER_THREADS) (\<lambda>(r, data).
       if r \<noteq> 0 then ret (r, data) else ret (r, data)))))"

definition init_data :: "env \<Rightarrow> inet_aton \<Rightarrow> string list \<Rightarrow> string option \<Rightarrow> net_data \<Rightarrow> (int \<times> net_data) run" where
  "init_data e aton argv file data =
     bnd (parse_membership_args e aton argv file data) (\<lambda>(r, data).
     if r \<noteq> 0 then ret (r, data)
     else let (r, data) = init_tables e data in
       if r \<noteq> 0 then ret (r, data) else init_rest e data)"

section \<open>Shutdown\<close>

definition free_data :: "net_data \<Rightarrow> net_data run" where
  "free_data data =
     bnd (free_addr_book (address_book data)) (\<lambda>b.
     bnd (free_dependencies (deps data)) (\<lambda>d.
     bnd (free_queue (task_q data)) (\<lambda>(_, q).
     bnd (free_ack_table (pl_acks data)) (\<lambda>(_, a).
     bnd (free_urb_table (urb_tab data)) (\<lambda>(_, t).
     bnd (free_log_data (logdata data)) (\<lambda>(_, l).
     bnd (free_delivered (pl_deliv data)) (\<lambda>(_, v).
     bnd (free_ack_urb (urbacks data)) (\<lambda>(_, u).
     bnd (destroy_pending_lcb (pending_lcb data)) (\<lambda>(_, p).
     bnd (destroy_vector (vector_clock data)) (\<lambda>(_, c).
     ret (data\<lparr>address_book := b, deps := d, task_q := q, pl_acks := a, urb_tab := t, logdata := l,
               pl_deliv := v, urbacks := u, pending_lcb := p, vector_clock := c\<rparr>)))))))))))"

text \<open>
  The handler of SIGTERM and SIGINT: the exit code of the process, what the log file holds
  when it is closed, and the data.
\<close>

definition stop :: "env \<Rightarrow> net_data \<Rightarrow> (int \<times> string option \<times> net_data) run" where
  "stop e data =
     bnd (terminate_senders data NUM_SENDER_THREADS) (\<lambda>_.
     bnd (terminate_receiver e data) (\<lambda>(_, data).
     bnd (write_to_file e (logdata data)) (\<lambda>(_, l).
     bnd (free_data (data\<lparr>logdata := l\<rparr>)) (\<lambda>d.
     ret (0, log_file l, d)))))"

section \<open>main\<close>

text \<open>The handler of SIGUSR2: the new value of \<open>wait_for_start\<close>.\<close>

definition start :: "int \<Rightarrow> int \<Rightarrow> int" where
  "start signum wait_for_start = 0"

definition wait_loop :: "int list \<Rightarrow> unit run" where
  "wait_loop signals = (if fold start signals 1 \<noteq> 0 then hang else ret ())"

text \<open>
  \<open>Exit r d\<close>: the process ends with code \<open>r\<close>; \<open>Waiting d\<close>: the main thread has broadcast its
  messages and sleeps until a signal ends the process. \<open>signals\<close> are the start signals that
  arrive. \<open>early\<close> is what the other threads do to the data after \<open>init_data\<close>, and \<open>late\<close> what they
  do after \<open>free_data\<close>, with the exit code if they end the process. The receiver thread is the
  first thread that is created: without it there are no others. Nothing on the way out of a
  failed start stops the threads that run.
\<close>

datatype outcome = Exit int net_data | Waiting net_data

type_synonym activity = "net_data \<Rightarrow> (int option \<times> net_data) run"

definition other_threads :: "activity \<Rightarrow> net_data \<Rightarrow> (net_data \<Rightarrow> outcome run) \<Rightarrow> outcome run" where
  "other_threads act data k =
     (if receiver_thread data = None then k data
      else bnd (act data) (\<lambda>(x, data). case x of Some code \<Rightarrow> ret (Exit code data) | None \<Rightarrow> k data))"

definition main_proc :: "env \<Rightarrow> inet_aton \<Rightarrow> string list \<Rightarrow> string option \<Rightarrow> int list
    \<Rightarrow> activity \<Rightarrow> activity \<Rightarrow> outcome run" where
  "main_proc e aton argv file signals early late =
     bnd (init_data e aton argv file program_data) (\<lambda>(r, data).
     other_threads early data (\<lambda>data.
     if r \<noteq> 0 then bnd (free_data data) (\<lambda>d. other_threads late d (\<lambda>d. ret (Exit r d)))
     else bnd (wait_loop signals) (\<lambda>_.
       bnd (send_lcb e data (sint (of_nat (num_msg data) :: u32))) (\<lambda>(r, data).
       if r \<noteq> 0 then ret (Exit r data) else ret (Waiting data)))))"

section \<open>A successful start\<close>

text \<open>An environment in which every request is granted.\<close>

definition all_granted :: "env \<Rightarrow> bool" where
  "all_granted e \<longleftrightarrow> (\<forall>k. grant e k) \<and> mutex_init_ok e \<and> fopen_ok e \<and> (\<forall>k. 0 \<le> new_socket e k)
     \<and> bind_ok e \<and> (\<forall>k. thread_ok e k)"

definition tables_size :: "nat \<Rightarrow> u32" where
  "tables_size n = ORIG_TABLE_SIZE * of_nat n"

lemma unat_tables_size:
  assumes "n * (150 * n + 1) < 2 ^ 32" "0 < n"
  shows "unat (of_nat n :: u32) = n" "unat (tables_size n) = 150 * n"
    "unat (ORIG_TABLE_SIZE * of_nat n * of_nat n :: u32) = n * (150 * n)" "sizes n (tables_size n)"
proof -
  have lt: "150 * n * n + n < 2 ^ 32" using assms(1) by (simp add: algebra_simps)
  obtain n' where n': "n = Suc n'" using assms(2) by (cases n) auto
  have le: "150 * n \<le> 150 * n * n" by (simp add: n')
  have small: "n < 2 ^ 32" "150 * n < 2 ^ 32" "150 * n * n < 2 ^ 32" using lt le by linarith+
  show n: "unat (of_nat n :: u32) = n" by (rule unat_of_nat_u32 [OF small(1)])
  show T: "unat (tables_size n) = 150 * n"
    using small(2) n by (simp add: tables_size_def ORIG_TABLE_SIZE_def unat_mult_u32)
  have "unat (tables_size n * of_nat n) = 150 * n * n"
    using small(3) n T by (subst unat_mult_u32) simp_all
  then show "unat (ORIG_TABLE_SIZE * of_nat n * of_nat n :: u32) = n * (150 * n)"
    by (simp add: tables_size_def)
  show "sizes n (tables_size n)" using assms T by (simp add: sizes_def)
qed

text \<open>What \<open>init_tables\<close> does not touch.\<close>

definition same_base :: "net_data \<Rightarrow> net_data \<Rightarrow> bool" where
  "same_base data d \<longleftrightarrow> num_proc d = num_proc data \<and> self_pid d = self_pid data \<and> num_msg d = num_msg data
     \<and> address_book d = address_book data \<and> deps d = deps data"

text \<open>
  The perfect link of a process that has just started: empty tables for 150 messages per
  process, and the address \<open>A i\<close> of every process \<open>i\<close>.
\<close>

definition tables_empty :: "nat \<Rightarrow> net_data \<Rightarrow> bool" where
  "tables_empty n d \<longleftrightarrow> acks_ok (pl_acks d) \<and> table_ok (pl_tab (pl_deliv d))
     \<and> unat (total_entries (pl_tab (pl_deliv d))) = n * (150 * n)
     \<and> (\<forall>i. ack_view (pl_acks d) i = 0 \<and> table_view (pl_tab (pl_deliv d)) i = 0)"

definition link_fresh :: "nat \<Rightarrow> (nat \<Rightarrow> sockaddr_in) \<Rightarrow> net_data \<Rightarrow> bool" where
  "link_fresh n A d \<longleftrightarrow> tables_empty n d \<and> book_ok (address_book d) \<and> book_pids (address_book d) = {1..n}
     \<and> (\<forall>i \<in> {1..n}. get_addr (address_book d) i = ret (0, Some (A i)))"

lemma init_tables_fresh:
  assumes g: "\<And>k. grant e k" "mutex_init_ok e"
    and n: "num_proc data = n" "n * (150 * n + 1) < 2 ^ 32" "0 < n"
    and out: "net_out data = []" and mem: "node_mem (pending_lcb data) = \<lparr>nodes = \<lambda>_. None, next_addr = 0\<rparr>"
  shows "\<exists>d. init_tables e data = (0, d) \<and> same_base data d
    \<and> fresh n (self_pid data) (tables_size n) d \<and> pending_ok n (pending_lcb d) (replicate n [])
    \<and> tables_empty n d
    \<and> logdata d = logdata data \<and> vector_clock d = vector_clock data"
proof -
  note u = unat_tables_size [OF n(2,3)]
  have n0: "0 < 150 * n" "0 < n * (150 * n)" using n(3) by simp_all
  let ?t = "\<lparr>no_msgs = ORIG_TABLE_SIZE, no_process = of_nat n, total_entries = ORIG_TABLE_SIZE * of_nat n * of_nat n,
      entries = Arr (replicate (n * (150 * n)) 0)\<rparr>"
  have t: "init_table_uid e t ORIG_TABLE_SIZE (of_nat n) = (0, ?t)" for t
    using g u(3) by (simp add: init_table_uid_def Let_def)
  let ?u = "\<lparr>urb_values = Arr (replicate (150 * n) zero_urb_entry), urb_no_msgs = ORIG_TABLE_SIZE,
      urb_no_process = of_nat n, urb_total_entries = tables_size n\<rparr>"
  have ut: "init_urb_table e t ORIG_TABLE_SIZE (of_nat n) = (0, ?u)" for t
    using g u(2) by (simp add: init_urb_table_def Let_def tables_size_def [symmetric])
  let ?q = "(task_q data)\<lparr>queue_mutex := False, no_elem := 0, elems := Arr (replicate QUEUE_LEN zero_task),
      qsize := of_nat QUEUE_LEN, q_front := 0, q_back := 0\<rparr>"
  let ?p = "(pending_lcb data)\<lparr>lists := Arr (replicate n empty_veclist), lcb_num_proc := n\<rparr>"
  let ?d = "data\<lparr>task_q := ?q, pl_acks := \<lparr>table_mutex = False, ack_tab = ?t\<rparr>, pl_deliv := \<lparr>pl_tab = ?t\<rparr>,
      urb_tab := ?u, urbacks := \<lparr>urb_ack_tab = ?t\<rparr>, pending_lcb := ?p\<rparr>"
  have run: "init_tables e data = (0, ?d)"
    using g n(1)
    by (simp add: init_tables_def init_queue_def init_ack_table_def init_deliver_pl_def init_ack_urb_def
        init_pending_lcb_def t ut Let_def)
  have tok: "table_ok ?t" using u(3) n0 by (auto intro: table_okI)
  have tv: "table_view ?t i = 0" for i by (simp add: table_view_def u(3) word_le_nat_alt)
  have uv: "seen_view ?u s = 0 \<and> delivered_view ?u s = 0" for s
    by (simp add: seen_view_def delivered_view_def u(2) zero_urb_entry_def word_le_nat_alt)
  have uok: "urb_ok ?u" by (simp add: urb_ok_def u(2))
  have q: "queue_ok ?q" "queue_tasks ?q = []"
    by (simp_all add: queue_ok_def QUEUE_LEN_def queue_tasks_def ring_def)
  have "fresh n (self_pid data) (tables_size n) ?d"
    using n(1) tok tv uv uok q out u(2,3) by (simp add: fresh_def)
  moreover have "pending_ok n ?p (replicate n [])"
    using mem by (simp add: pending_ok_def veclist_ok_def empty_veclist_def)
  moreover have "tables_empty n ?d" using tok tv u(3) by (simp add: tables_empty_def acks_ok_def)
  ultimately show ?thesis using run tok by (intro exI [of _ ?d]) (simp add: same_base_def)
qed

lemma open_sockets_ok:
  assumes "\<And>k. 0 \<le> new_socket e k" "i + k \<le> length xs"
  shows "\<exists>ys. open_sockets e i k (Arr xs) = ret (0, Arr ys) \<and> length ys = length xs"
  using assms(2)
proof (induction k arbitrary: i xs)
  case (Suc k)
  have "\<not> new_socket e (Suc i) < 0" using assms(1) [of "Suc i"] by simp
  with Suc.IH [of "Suc i" "xs[i := (xs ! i)\<lparr>sender_idx := i, sender_fd := new_socket e (Suc i)\<rparr>]"] Suc.prems
  show ?case by (cases "xs ! i") simp
qed simp

lemma create_threads_ok:
  assumes "\<And>k. thread_ok e k" "i + k \<le> length xs"
  shows "\<exists>ys. create_threads e i k (Arr xs) = ret (0, Arr ys) \<and> length ys = length xs
    \<and> (\<forall>j < i. ys ! j = xs ! j) \<and> (\<forall>j \<in> {i..<i + k}. sender_handle (ys ! j) \<noteq> None)"
  using assms(2)
proof (induction k arbitrary: i xs)
  case (Suc k)
  let ?xs = "xs[i := (xs ! i)\<lparr>sender_handle := Some (Suc i)\<rparr>]"
  from Suc.IH [of "Suc i" ?xs] Suc.prems obtain ys where ys:
    "create_threads e (Suc i) k (Arr ?xs) = ret (0, Arr ys)" "length ys = length xs"
    "\<forall>j < Suc i. ys ! j = ?xs ! j" "\<forall>j \<in> {Suc i..<Suc i + k}. sender_handle (ys ! j) \<noteq> None" by auto
  have "create_threads e i (Suc k) (Arr xs) = ret (0, Arr ys)" using ys(1) assms(1) Suc.prems by simp
  moreover have "\<forall>j < i. ys ! j = xs ! j" using ys(3) by simp
  moreover have "sender_handle (ys ! j) \<noteq> None" if "j \<in> {i..<i + Suc k}" for j
    using ys(3,4) Suc.prems that by (cases "j = i") auto
  ultimately show ?case using ys(2) by blast
qed simp

text \<open>All of \<open>k\<close> handles from index \<open>i\<close> name threads.\<close>

definition handles_set :: "sender_thread ptr \<Rightarrow> nat \<Rightarrow> nat \<Rightarrow> bool" where
  "handles_set p i k \<longleftrightarrow> k = 0 \<or> (case p of Arr ys \<Rightarrow> i + k \<le> length ys
     \<and> (\<forall>j \<in> {i..<i + k}. sender_handle (ys ! j) \<noteq> None) | _ \<Rightarrow> False)"

definition senders_created :: "net_data \<Rightarrow> bool" where
  "senders_created d \<longleftrightarrow> handles_set (senders d) 0 NUM_SENDER_THREADS"

lemma init_senders_ok:
  assumes "all_granted e"
  shows "\<exists>ys. init_senders e data n = ret (0, data\<lparr>senders := Arr ys\<rparr>) \<and> length ys = n
    \<and> handles_set (Arr ys) 0 n"
proof -
  have g: "0 \<le> new_socket e k" "thread_ok e k" "grant e k" for k using assms by (simp_all add: all_granted_def)
  from open_sockets_ok [of e 0 n "replicate n zero_sender"] g(1) obtain xs where
    xs: "open_sockets e 0 n (Arr (replicate n zero_sender)) = ret (0, Arr xs)" "length xs = n" by auto
  from create_threads_ok [of e 0 n xs] g(2) xs(2) obtain ys where
    "create_threads e 0 n (Arr xs) = ret (0, Arr ys)" "length ys = n"
    "\<forall>j \<in> {0..<0 + n}. sender_handle (ys ! j) \<noteq> None" by auto
  with xs(1) g(3) show ?thesis
    by (intro exI [of _ ys]) (auto simp: init_senders_def setup_sockets_def setup_threads_def handles_set_def)
qed

lemma filename_fits: "0 < pid \<Longrightarrow> sprintf_filename pid = (if pid < 10 then ret (LOG_FILENAME pid) else ub)"
  using length_dec_le [of pid 0] length_dec_pos [of pid]
  by (auto simp: sprintf_filename_def LOG_FILENAME_def)

text \<open>\<open>init_rest\<close> up to the creation of the sender threads.\<close>

lemma init_rest_senders:
  assumes g: "\<And>k. grant e k" "mutex_init_ok e" "fopen_ok e" "0 \<le> new_socket e 0" "bind_ok e" "thread_ok e 0"
    and n: "num_proc data = n" "n < 2 ^ 31" and pid: "0 < self_pid data"
    and book: "book_ok (address_book data)" "self_pid data \<in> book_pids (address_book data)"
    and log: "\<not> loglok (logdata data)"
  shows "if self_pid data < 10
    then \<exists>c name l fd. init_rest e data = init_senders e (data\<lparr>vector_clock := c, log_filename := name, logdata := l,
           rec_mutex := False, receiver_fd := fd, receiver_thread := Some 0\<rparr>) NUM_SENDER_THREADS
      \<and> clock_ok n c \<and> \<not> vc_mutex c \<and> (\<forall>i. clock_val c i = 0) \<and> log_ok l \<and> buf_max_size l = MSG_BUF_MAX_SIZE
      \<and> log_text l = []
    else init_rest e data = ub"
proof -
  have un: "unat (of_nat n :: u32) = n" using n(2) by (intro unat_of_nat_u32) simp
  from init_vector_mutex_ok [of e "of_nat n" "vector_clock data"] g un obtain c where
    c: "init_vector_mutex e (vector_clock data) (of_nat n) = ret (0, c)" "clock_ok n c" "\<not> vc_mutex c"
      "\<forall>i. clock_val c i = 0" by auto
  from init_log_data_ok [OF g(1,3) log] obtain l where
    l: "init_log_data e (logdata data) MSG_BUF_MAX_SIZE = (0, l)" "log_ok l" "buf_max_size l = MSG_BUF_MAX_SIZE"
      "log_text l = []" by blast
  from book.read_ok [OF book] obtain a where "book_read (address_book data) (self_pid data) = ret a"
    by (auto simp: returns_def)
  then have a: "get_addr (address_book data) (self_pid data) = ret (0, Some a)" by (rule book_read_get)
  let ?d = "data\<lparr>vector_clock := c, log_filename := LOG_FILENAME (self_pid data), logdata := l\<rparr>"
  let ?d' = "?d\<lparr>rec_mutex := False, receiver_fd := new_socket e 0, receiver_thread := Some 0\<rparr>"
  have rcv: "init_receiver e ?d = ret (0, ?d')"
    using a g(2,4,5,6) by (simp add: init_receiver_def Let_def not_less)
  have id: "bnd m (\<lambda>(r, d). ret (r, d)) = m" for m :: "(int \<times> net_data) run"
    by (cases m) (auto simp: bnd_def res_bind_def split: res.splits)
  show ?thesis
  proof (cases "self_pid data < 10")
    case True
    have "init_rest e data = init_senders e ?d' NUM_SENDER_THREADS"
      using True c(1) l(1) rcv by (simp add: init_rest_def n(1) filename_fits [OF pid] id)
    with True c l show ?thesis by (simp only: if_True) blast
  next
    case False
    with c(1) show ?thesis by (simp add: init_rest_def n(1) filename_fits [OF pid])
  qed
qed

lemma init_rest_ok:
  assumes e: "all_granted e" and n: "num_proc data = n" "n < 2 ^ 31" and pid: "0 < self_pid data"
    and book: "book_ok (address_book data)" "self_pid data \<in> book_pids (address_book data)"
    and log: "\<not> loglok (logdata data)"
  shows "if self_pid data < 10
    then \<exists>c name l fd ys. init_rest e data = ret (0, data\<lparr>vector_clock := c, log_filename := name, logdata := l,
           rec_mutex := False, receiver_fd := fd, receiver_thread := Some 0, senders := Arr ys\<rparr>)
      \<and> clock_ok n c \<and> \<not> vc_mutex c \<and> (\<forall>i. clock_val c i = 0) \<and> log_ok l \<and> buf_max_size l = MSG_BUF_MAX_SIZE
      \<and> log_text l = [] \<and> length ys = NUM_SENDER_THREADS \<and> handles_set (Arr ys) 0 NUM_SENDER_THREADS
    else init_rest e data = ub"
proof -
  have g: "\<And>k. grant e k" "mutex_init_ok e" "fopen_ok e" "0 \<le> new_socket e 0" "bind_ok e" "thread_ok e 0"
    using e by (simp_all add: all_granted_def)
  note pre = init_rest_senders [OF g n pid book log]
  show ?thesis
  proof (cases "self_pid data < 10")
    case True
    with pre obtain c name l fd where run: "init_rest e data = init_senders e (data\<lparr>vector_clock := c, log_filename := name,
        logdata := l, rec_mutex := False, receiver_fd := fd, receiver_thread := Some 0\<rparr>) NUM_SENDER_THREADS"
        (is "_ = init_senders e ?d _")
      and c: "clock_ok n c" "\<not> vc_mutex c" "\<forall>i. clock_val c i = 0"
      and l: "log_ok l" "buf_max_size l = MSG_BUF_MAX_SIZE" "log_text l = []" by auto
    from init_senders_ok [OF e, of ?d NUM_SENDER_THREADS] obtain ys where
      "init_senders e ?d NUM_SENDER_THREADS = ret (0, ?d\<lparr>senders := Arr ys\<rparr>)" "length ys = NUM_SENDER_THREADS"
      "handles_set (Arr ys) 0 NUM_SENDER_THREADS" by blast
    with True c l show ?thesis by (simp only: run if_True) blast
  next
    case False
    with pre show ?thesis by simp
  qed
qed

text \<open>\<open>init_data\<close> up to the end of \<open>init_tables\<close>.\<close>

lemma init_data_tables:
  assumes "\<And>k. grant e k" "mutex_init_ok e" and "config_ok aton addrs rows" and "n = length addrs"
    and "n * (150 * n + 1) < 2 ^ 32" and "argv = [prog, dec self, path, dec m]" "self \<in> {1..n}" "0 < m" "m < 2 ^ 31"
  shows "\<exists>d1. init_data e aton argv (Some (membership_file addrs rows)) program_data = init_rest e d1
    \<and> num_proc d1 = n \<and> self_pid d1 = self \<and> num_msg d1 = m \<and> logdata d1 = logdata program_data
    \<and> fresh n self (tables_size n) d1 \<and> pending_ok n (pending_lcb d1) (replicate n []) \<and> tables_empty n d1
    \<and> book_ok (address_book d1) \<and> book_pids (address_book d1) = {1..n}
    \<and> (\<forall>i \<in> {1..n}. get_addr (address_book d1) i = ret (0, Some (entry_of aton (addrs ! (i - 1)))))
    \<and> deps_ok (deps d1) \<and> deps_pids (deps d1) = {1..n} \<and> (\<forall>i \<in> {1..n}. deps_of (deps d1) i = ret (rows ! (i - 1)))"
proof -
  have n: "0 < n" "n < 2 ^ 31" "length rows = n" using assms(3,4) by (simp_all add: config_ok_def)
  have self: "0 < self" "self \<le> n" "self < 2 ^ 31" using assms(7) n(2) by auto
  from parse_membership_ok [OF assms(3,4,1,6) self(1,3) assms(8,9), of program_data] obtain b dd where
    p: "parse_membership_args e aton argv (Some (membership_file addrs rows)) program_data
      = ret (0, program_data\<lparr>self_pid := self, num_msg := m, num_proc := n, address_book := b, deps := dd\<rparr>)"
      (is "_ = ret (0, ?d0)")
    and b: "book_ok b" "book_pids b = {1..n}"
      "\<forall>i \<in> {1..n}. get_addr b i = ret (0, Some (entry_of aton (addrs ! (i - 1))))" and dd: "deps_ok dd" "deps_pids dd = {1..n}"
      "\<And>i. i \<in> {1..n} \<Longrightarrow> deps_of dd i = ret (rows ! (i - 1))" by blast
  have d0: "num_proc ?d0 = n" "net_out ?d0 = []" "node_mem (pending_lcb ?d0) = \<lparr>nodes = \<lambda>_. None, next_addr = 0\<rparr>"
    "logdata ?d0 = logdata program_data" by (simp_all add: program_data_def)
  from init_tables_fresh [OF assms(1,2) d0(1) assms(5) n(1) d0(2,3)] obtain d1 where
    d1: "init_tables e ?d0 = (0, d1)" "same_base ?d0 d1" "fresh n self (tables_size n) d1"
      "pending_ok n (pending_lcb d1) (replicate n [])" "tables_empty n d1"
      "logdata d1 = logdata ?d0" by auto
  have base: "num_proc d1 = n" "self_pid d1 = self" "num_msg d1 = m" "address_book d1 = b" "deps d1 = dd"
    using d1(2) by (simp_all add: same_base_def)
  have "init_data e aton argv (Some (membership_file addrs rows)) program_data = init_rest e d1"
    using p d1(1) by (simp add: init_data_def)
  with base d1(3-6) b dd d0(4) show ?thesis by (intro exI [of _ d1]) simp
qed

lemma init_data_outcome:
  assumes "all_granted e" and "config_ok aton addrs rows" and "n = length addrs"
    and "n * (150 * n + 1) < 2 ^ 32" and "\<forall>row \<in> set rows. set row \<subseteq> {1..n}"
    and "argv = [prog, dec self, path, dec m]" "self \<in> {1..n}" "0 < m" "m < 2 ^ 31"
  shows "if self < 10
    then \<exists>d. init_data e aton argv (Some (membership_file addrs rows)) program_data = ret (0, d)
      \<and> fresh n self (tables_size n) d \<and> sizes n (tables_size n) \<and> lcb_ok d (replicate n [])
      \<and> (\<forall>i. clock_val (vector_clock d) i = 0) \<and> log_text (logdata d) = [] \<and> num_msg d = m
      \<and> link_fresh n (\<lambda>i. entry_of aton (addrs ! (i - 1))) d
      \<and> (\<exists>ys. senders d = Arr ys \<and> length ys = NUM_SENDER_THREADS)
      \<and> senders_created d \<and> receiver_thread d \<noteq> None
    else init_data e aton argv (Some (membership_file addrs rows)) program_data = ub"
proof -
  have n: "0 < n" "n < 2 ^ 31" "length rows = n" using assms(2,3) by (simp_all add: config_ok_def)
  have self: "0 < self" "self \<le> n" "self < 2 ^ 31" using assms(7) n(2) by auto
  have g: "\<And>k. grant e k" "mutex_init_ok e" using assms(1) by (simp_all add: all_granted_def)
  from init_data_tables [OF g assms(2,3,4,6-9)] obtain d1 where
    data: "init_data e aton argv (Some (membership_file addrs rows)) program_data = init_rest e d1"
    and base: "num_proc d1 = n" "self_pid d1 = self" "num_msg d1 = m" "logdata d1 = logdata program_data"
    and d1: "fresh n self (tables_size n) d1" "pending_ok n (pending_lcb d1) (replicate n [])" "tables_empty n d1"
    and b: "book_ok (address_book d1)" "book_pids (address_book d1) = {1..n}"
      "\<forall>i \<in> {1..n}. get_addr (address_book d1) i = ret (0, Some (entry_of aton (addrs ! (i - 1))))"
    and dd: "deps_ok (deps d1)" "deps_pids (deps d1) = {1..n}" "\<And>i. i \<in> {1..n} \<Longrightarrow> deps_of (deps d1) i = ret (rows ! (i - 1))"
    by blast
  have unlocked: "\<not> loglok (logdata d1)" using base(4) by (simp add: program_data_def)
  have rest: "if self < 10
    then \<exists>c name l fd ys. init_rest e d1 = ret (0, d1\<lparr>vector_clock := c, log_filename := name, logdata := l,
           rec_mutex := False, receiver_fd := fd, receiver_thread := Some 0, senders := Arr ys\<rparr>)
      \<and> clock_ok n c \<and> \<not> vc_mutex c \<and> (\<forall>i. clock_val c i = 0) \<and> log_ok l \<and> buf_max_size l = MSG_BUF_MAX_SIZE
      \<and> log_text l = [] \<and> length ys = NUM_SENDER_THREADS \<and> handles_set (Arr ys) 0 NUM_SENDER_THREADS
    else init_rest e d1 = ub"
    using init_rest_ok [OF assms(1) base(1) n(2)] base self b unlocked by simp
  have deps: "dep_list d p = rows ! (p - 1)" if "deps d = deps d1" "p \<in> {1..n}" for d p
    using dd(3) [OF that(2)] that(1) by (simp add: dep_list_def)
  have rows: "set (rows ! (p - 1)) \<subseteq> {1..n}" if "p \<in> {1..n}" for p
  proof -
    have "p - 1 < length rows" using that n(3) by auto
    then have "rows ! (p - 1) \<in> set rows" by (rule nth_mem)
    with assms(5) show ?thesis by blast
  qed
  show ?thesis
  proof (cases "self < 10")
    case False
    with rest data show ?thesis by simp
  next
    case True
    with rest obtain c name l fd ys where
      r: "init_rest e d1 = ret (0, d1\<lparr>vector_clock := c, log_filename := name, logdata := l,
           rec_mutex := False, receiver_fd := fd, receiver_thread := Some 0, senders := Arr ys\<rparr>)" (is "_ = ret (0, ?d)")
      and c: "clock_ok n c" "\<not> vc_mutex c" "\<forall>i. clock_val c i = 0"
      and l: "log_ok l" "buf_max_size l = MSG_BUF_MAX_SIZE" "log_text l = []" and ys: "length ys = NUM_SENDER_THREADS" "handles_set (Arr ys) 0 NUM_SENDER_THREADS"
      by auto
    have "deps ?d = deps d1" by simp
    note dl = deps [OF this]
    have "clocks_ok ?d"
      unfolding clocks_ok_def using c dd base n(2) rows dl by simp
    then have "lcb_ok ?d (replicate n [])"
      using d1(2) l base by (simp add: lcb_ok_def MSG_BUF_MAX_SIZE_def LINE_MAX_LENGTH_def)
    moreover have "fresh n self (tables_size n) ?d" using d1(1) by (simp add: fresh_def)
    moreover have "link_fresh n (\<lambda>i. entry_of aton (addrs ! (i - 1))) ?d"
      using d1(3) b by (simp add: link_fresh_def tables_empty_def)
    ultimately show ?thesis
      using True r data c(3) l(3) ys base(3) unat_tables_size(4) [OF assms(4) n(1)]
      senders_created_def [of ?d]
      by (intro if_P [THEN iffD2]) auto
  qed
qed

text \<open>C31: start-up. With a well-formed configuration and an environment that grants every
  request, \<open>init_data\<close> of a process with an id below 10 returns 0 and leaves exactly the state
  from which the theorems about the protocol start: fresh tables for 150 messages per process,
  an empty queue, clock and log, no pending messages, the address of every process in the
  address book, a receiver thread and 10 sender threads. From process 10 on
  the name of the log file overflows its array.\<close>

theorem init_data_ready:
  assumes "all_granted e" and "config_ok aton addrs rows" and "n = length addrs"
    and "n * (150 * n + 1) < 2 ^ 32" and "\<forall>row \<in> set rows. set row \<subseteq> {1..n}"
    and "argv = [prog, dec self, path, dec m]" "self \<in> {1..n}" "0 < m" "m < 2 ^ 31"
  shows "if self < 10
    then \<exists>d. init_data e aton argv (Some (membership_file addrs rows)) program_data = ret (0, d)
      \<and> fresh n self (tables_size n) d \<and> sizes n (tables_size n) \<and> lcb_ok d (replicate n [])
      \<and> (\<forall>i. clock_val (vector_clock d) i = 0) \<and> log_text (logdata d) = [] \<and> num_msg d = m
      \<and> link_fresh n (\<lambda>i. entry_of aton (addrs ! (i - 1))) d
      \<and> (\<exists>ys. senders d = Arr ys \<and> length ys = NUM_SENDER_THREADS)
      \<and> senders_created d \<and> receiver_thread d \<noteq> None
    else init_data e aton argv (Some (membership_file addrs rows)) program_data = ub"
  using init_data_outcome [OF assms] .

lemma good_granted: "all_granted good_env"
  by (simp add: all_granted_def)

theorem init_data_ready_witness:
  "\<exists>d. init_data good_env pair_aton [''da_proc'', dec 1, ''m.txt'', dec 5]
      (Some (membership_file pair_addrs [[2], []])) program_data = ret (0, d)
    \<and> fresh 2 1 (tables_size 2) d \<and> lcb_ok d [[], []]"
proof -
  have "2 = length pair_addrs" "2 * (150 * 2 + 1) < (2 :: nat) ^ 32" "\<forall>row \<in> set [[2], []]. set row \<subseteq> {1..2 :: nat}"
    "1 \<in> {1..2 :: nat}" "0 < (5 :: nat)" "(5 :: nat) < 2 ^ 31" by simp_all
  from init_data_ready [OF good_granted pair_config this(1-3) refl this(4-6), of "''da_proc''" "''m.txt''"]
  obtain d where "init_data good_env pair_aton [''da_proc'', dec 1, ''m.txt'', dec 5]
      (Some (membership_file pair_addrs [[2], []])) program_data = ret (0, d)"
    "fresh 2 1 (tables_size 2) d" "lcb_ok d (replicate 2 [])" by auto
  then show ?thesis by (auto simp: numeral_2_eq_2)
qed

section \<open>Releasing the data\<close>

text \<open>No pointer of the data is dangling.\<close>

definition rows_freeable :: "dependency_list list \<Rightarrow> bool" where
  "rows_freeable rows \<longleftrightarrow> list_all (\<lambda>r. pid_list r \<noteq> Wild) rows"

definition deps_freeable :: "dependencies option \<Rightarrow> bool" where
  "deps_freeable d \<longleftrightarrow> (case d of None \<Rightarrow> True | Some m \<Rightarrow>
     (case dep_lists m of Null \<Rightarrow> True | Wild \<Rightarrow> False
      | Arr rows \<Rightarrow> dep_num_proc m \<le> length rows \<and> rows_freeable rows))"

definition book_freeable :: "addr_book option \<Rightarrow> bool" where
  "book_freeable b \<longleftrightarrow> (case b of None \<Rightarrow> True | Some x \<Rightarrow> addresses x \<noteq> Wild)"

definition tables_freeable :: "net_data \<Rightarrow> bool" where
  "tables_freeable d \<longleftrightarrow> elems (task_q d) \<noteq> Wild \<and> entries (ack_tab (pl_acks d)) \<noteq> Wild
     \<and> urb_values (urb_tab d) \<noteq> Wild \<and> buffer (logdata d) \<noteq> Wild \<and> entries (pl_tab (pl_deliv d)) \<noteq> Wild
     \<and> entries (urb_ack_tab (urbacks d)) \<noteq> Wild \<and> lists (pending_lcb d) \<noteq> Wild \<and> vector (vector_clock d) \<noteq> Wild"

definition freeable :: "net_data \<Rightarrow> bool" where
  "freeable d \<longleftrightarrow> book_freeable (address_book d) \<and> deps_freeable (deps d) \<and> tables_freeable d"

lemma free_ok: "p \<noteq> Wild \<Longrightarrow> \<exists>q. free p = ret q"
  by (cases p) simp_all

lemma free_rows_ok:
  assumes "l + k \<le> length rows" "rows_freeable rows"
  shows "\<exists>rows'. free_rows l k (Arr rows) = ret (Arr rows')"
  using assms
proof (induction k arbitrary: l rows)
  case (Suc k)
  then have "pid_list (rows ! l) \<noteq> Wild" by (simp add: rows_freeable_def list_all_length)
  with free_ok obtain q where "free (pid_list (rows ! l)) = ret q" by blast
  moreover have "rows_freeable (rows[l := (rows ! l)\<lparr>pid_list := Null\<rparr>])"
    using Suc.prems by (auto simp: rows_freeable_def list_all_length nth_list_update_if)
  ultimately show ?case
    using Suc.IH [of "l + 1" "rows[l := (rows ! l)\<lparr>pid_list := Null\<rparr>]"] Suc.prems(1)
    by (simp add: free_row_def)
qed simp

lemma free_dependencies_ok: "deps_freeable d \<Longrightarrow> \<exists>d'. free_dependencies d = ret d'"
proof (cases d)
  case (Some m)
  moreover assume "deps_freeable d"
  ultimately show ?thesis
    using free_rows_ok [of 0 "dep_num_proc m"]
    by (fastforce simp: free_dependencies_def deps_freeable_def split: ptr.splits)
qed (simp add: free_dependencies_def)

lemma free_data_ok:
  assumes "freeable d"
  shows "\<exists>d'. free_data d = ret d'"
proof -
  have t: "tables_freeable d" "book_freeable (address_book d)" "deps_freeable (deps d)"
    using assms by (simp_all add: freeable_def)
  from t(2) have "\<exists>b. free_addr_book (address_book d) = ret b"
    by (auto simp: free_addr_book_def book_freeable_def split: option.splits dest: free_ok)
  moreover from free_dependencies_ok [OF t(3)] have "\<exists>x. free_dependencies (deps d) = ret x" .
  moreover from t(1) have "\<exists>q. free (elems (task_q d)) = ret q" "\<exists>q. free (entries (ack_tab (pl_acks d))) = ret q"
    "\<exists>q. free (urb_values (urb_tab d)) = ret q" "\<exists>q. free (buffer (logdata d)) = ret q"
    "\<exists>q. free (entries (pl_tab (pl_deliv d))) = ret q" "\<exists>q. free (entries (urb_ack_tab (urbacks d))) = ret q"
    "\<exists>q. free (lists (pending_lcb d)) = ret q" "\<exists>q. free (vector (vector_clock d)) = ret q"
    by (simp_all add: tables_freeable_def free_ok)
  ultimately show ?thesis
    by (elim exE) (simp add: free_data_def free_queue_def free_ack_table_def free_table_uid_def
        free_urb_table_def free_log_data_def free_delivered_def free_ack_urb_def destroy_pending_lcb_def
        destroy_vector_def)
qed

section \<open>The end of the process\<close>

lemma read_handles_iff: "read_handles p i k = (if handles_set p i k then ret () else ub)"
proof (induction k arbitrary: i)
  case (Suc k)
  show ?case
  proof (cases p)
    case (Arr ys)
    have "{i..<i + Suc k} = insert i {i + 1..<i + 1 + k}" by auto
    with Suc.IH [of "i + 1"] show ?thesis
      by (cases "i < length ys") (auto simp: Arr handles_set_def load_def)
  qed (simp_all add: handles_set_def)
qed (simp add: handles_set_def)

lemma terminate_senders_iff:
  "terminate_senders data NUM_SENDER_THREADS = (if senders_created data then ret () else ub)"
  by (simp add: terminate_senders_def senders_created_def read_handles_iff)

text \<open>C33: what SIGTERM or SIGINT does. Unless all ten sender threads have been created, the handler
  runs into undefined behaviour: it cancels threads through handles that were never set, or
  through a null or dangling array. When they have been and the mutex of the log is held, be it
  by the interrupted main thread itself or after a failed flush, the handler never returns;
  when the mutex is free but the receiver thread was never created it is undefined again.
  Otherwise, if all writes succeed, the process exits with code 0, whether or not the receiver
  could be cancelled, and the log file holds everything that was logged. (No pointer of the
  data is dangling, and the log is well-formed but for its mutex.)\<close>

theorem stop_outcomes:
  assumes "\<And>k. fwritten e k = k" "freeable data" "log_ok ((logdata data)\<lparr>loglok := False\<rparr>)"
  shows "if \<not> senders_created data then stop e data = ub
    else if loglok (logdata data) then stop e data = hang
    else if receiver_thread data = None then stop e data = ub
    else \<exists>d. stop e data = ret (0, Some (log_text (logdata data)), d)"
proof (cases "senders_created data \<and> \<not> loglok (logdata data) \<and> receiver_thread data \<noteq> None")
  case False
  then show ?thesis by (auto simp: stop_def terminate_senders_iff terminate_receiver_def)
next
  case True
  let ?l = "logdata data"
  have same: "?l\<lparr>loglok := False\<rparr> = ?l" using True by (cases ?l) simp
  with assms(3) have l: "log_ok ?l" by simp
  then obtain xs s where xs: "log_file ?l = Some s" "buffer ?l = Arr xs" "length xs = buf_max_size ?l"
    "buf_current_size ?l \<le> buf_max_size ?l" by (rule log_okE)
  have wr: "\<exists>r l'. write_to_file e (?l\<lparr>loglok := b\<rparr>) = ret (r, l') \<and> log_file l' = Some (log_text ?l)
      \<and> buffer l' \<noteq> Wild" for b
  proof (cases "buf_current_size ?l = 0")
    case True
    with xs show ?thesis by (simp add: write_to_file_def log_text_def)
  next
    case False
    with xs show ?thesis by (simp add: write_to_file_def log_text_def assms(1))
  qed
  have fin: "\<exists>d. bnd (write_to_file e (?l\<lparr>loglok := b\<rparr>)) (\<lambda>(_, l).
      bnd (free_data (data\<lparr>logdata := l\<rparr>)) (\<lambda>d. ret (0, log_file l, d))) = ret (0, Some (log_text ?l), d)" for b
  proof -
    from wr [of b] obtain r l' where
      l': "write_to_file e (?l\<lparr>loglok := b\<rparr>) = ret (r, l')" "log_file l' = Some (log_text ?l)" "buffer l' \<noteq> Wild"
      by blast
    have "freeable (data\<lparr>logdata := l'\<rparr>)"
      using assms(2) l'(3) by (simp add: freeable_def tables_freeable_def)
    from free_data_ok [OF this] obtain d where "free_data (data\<lparr>logdata := l'\<rparr>) = ret d" ..
    with l'(1,2) show ?thesis by simp
  qed
  show ?thesis
    using True fin [of "\<not> cancel_ok e"]
    by (cases "cancel_ok e") (simp_all add: stop_def terminate_senders_iff terminate_receiver_def)
qed

definition running :: net_data where
  "running = sample\<lparr>senders := Arr (replicate 10 \<lparr>sender_handle = Some 1, sender_idx = 0, sender_fd = 4\<rparr>),
     receiver_thread := Some 0,
     logdata := \<lparr>buf_max_size = 2, buf_current_size = 2, buffer = Arr ''xy'', log_file = Some [], loglok = False\<rparr>\<rparr>"

lemma running_ok: "freeable running" "log_ok ((logdata running)\<lparr>loglok := False\<rparr>)" "senders_created running"
  by (simp_all add: running_def freeable_def book_freeable_def deps_freeable_def rows_freeable_def tables_freeable_def
      sample_def sample_deps_def empty_row_def sample_uid_table_def sample_queue_def sample_clock_def
      log_ok_def senders_created_def handles_set_def NUM_SENDER_THREADS_def nth_replicate del: replicate.simps)

text \<open>Stopped while everything runs, and stopped before the threads are created.\<close>

theorem stop_outcomes_witness:
  "(\<exists>d. stop good_env running = ret (0, Some ''xy'', d))
   \<and> stop good_env (running\<lparr>senders := Arr (replicate 10 zero_sender)\<rparr>) = ub"
proof
  have sel: "logdata running = \<lparr>buf_max_size = 2, buf_current_size = 2, buffer = Arr ''xy'', log_file = Some [], loglok = False\<rparr>"
    "receiver_thread running = Some 0" by (simp_all add: running_def)
  show "\<exists>d. stop good_env running = ret (0, Some ''xy'', d)"
    using stop_outcomes [OF good_env_sel(5) running_ok(1,2)] running_ok(3) by (simp add: sel log_text_def)
  let ?d = "running\<lparr>senders := Arr (replicate 10 zero_sender)\<rparr>"
  have "freeable ?d" using running_ok(1) by (simp add: freeable_def tables_freeable_def)
  moreover have "\<not> senders_created ?d"
    by (auto simp: senders_created_def handles_set_def NUM_SENDER_THREADS_def zero_sender_def simp del: replicate.simps
        intro!: exI [of _ "0 :: nat"])
  ultimately show "stop good_env ?d = ub"
    using stop_outcomes [of good_env ?d] running_ok(2) by simp
qed

section \<open>A start that fails\<close>

lemma freeable_None [simp]: "book_freeable None" "deps_freeable None"
  by (simp_all add: book_freeable_def deps_freeable_def)

lemma add_entry_freeable:
  "book_freeable b \<Longrightarrow> on_ret (add_entry b pid a) (\<lambda>(_, b'). book_freeable b')"
  by (auto simp: add_entry_def book_freeable_def on_ret_def bnd_eq_ret store_eq_ret split: option.splits if_splits)

lemma parse_address_freeable:
  assumes "book_freeable b"
  shows "on_ret (parse_address aton line b) (\<lambda>(_, b'). book_freeable b')"
  unfolding parse_address_def
  using assms
  by (auto simp: Let_def split: option.splits intro!: on_ret_any [where m = "atoi s" for s]
      on_ret_mono [OF add_entry_freeable [OF assms]])

lemma parse_addresses_freeable:
  "book_freeable b \<Longrightarrow> on_ret (parse_addresses aton k fl b) (\<lambda>(_, _, b'). book_freeable b')"
proof (induction k arbitrary: fl b)
  case (Suc k)
  then show ?case
    by (auto split: option.splits intro!: on_ret_mono [OF parse_address_freeable [OF Suc.prems]])
qed simp

lemma row_freeable:
  assumes "deps_freeable d"
  shows "on_ret (dep_row d i) (\<lambda>r. pid_list r \<noteq> Wild)"
    and "pid_list r \<noteq> Wild \<Longrightarrow> on_ret (dep_row_set d i r) (\<lambda>d'. deps_freeable d')"
  using assms
  by (auto simp: on_ret_def dep_row_def dep_row_set_def deps_freeable_def bnd_eq_ret load_eq_ret store_eq_ret
      rows_freeable_def list_all_length nth_list_update split: option.splits)

lemma set_dependencies_freeable:
  assumes "deps_freeable d"
  shows "on_ret (set_dependencies e d from pids len) (\<lambda>(_, d'). deps_freeable d')"
proof (cases d)
  case (Some m)
  note row = row_freeable [OF assms [unfolded Some]]
  show ?thesis
    using assms unfolding Some set_dependencies_def
    by (auto split: option.splits intro!: on_ret_mono [OF row(1)] on_ret_mono [OF row(2)]
        on_ret_any [where m = "read_block p k" for p k])
qed (simp add: set_dependencies_def assms)

lemma parse_dependency_freeable:
  assumes "deps_freeable d"
  shows "on_ret (parse_dependency e cap line d) (\<lambda>(_, d'). deps_freeable d')"
  unfolding parse_dependency_def
  using assms
  by (auto simp: Let_def split: option.splits intro!: on_ret_any [where m = "atoi s" for s]
      on_ret_any [where m = "collect_pids c s a" for c s a] on_ret_mono [OF set_dependencies_freeable [OF assms]])

lemma parse_dependencies_freeable:
  "deps_freeable d \<Longrightarrow> on_ret (parse_dependencies e cap k fl d) (\<lambda>(_, d'). deps_freeable d')"
proof (induction k arbitrary: fl d)
  case (Suc k)
  then show ?case
    by (auto split: option.splits intro!: on_ret_mono [OF parse_dependency_freeable [OF Suc.prems]])
qed simp

lemma alloc_freeable: "book_freeable (alloc_addr_book e n)" "deps_freeable (alloc_dependencies e n)"
  by (simp_all add: book_freeable_def alloc_addr_book_def deps_freeable_def alloc_dependencies_def
      rows_freeable_def empty_row_def list_all_iff)

lemma freeable_update:
  assumes "freeable d"
  shows "freeable (d\<lparr>self_pid := a\<rparr>)" "freeable (d\<lparr>num_msg := b\<rparr>)" "freeable (d\<lparr>num_proc := c\<rparr>)"
    "book_freeable x \<Longrightarrow> freeable (d\<lparr>address_book := x\<rparr>)" "deps_freeable y \<Longrightarrow> freeable (d\<lparr>deps := y\<rparr>)"
  using assms by (simp_all add: freeable_def tables_freeable_def)

lemma parse_freeable:
  assumes "freeable data"
  shows "on_ret (parse_membership_args e aton argv file data) (\<lambda>(_, d). freeable d)"
proof -
  have book: "on_ret (parse_addresses aton n rest (alloc_addr_book e n)) (\<lambda>(_, _, b). book_freeable b)" for n rest
    by (rule parse_addresses_freeable) (rule alloc_freeable)
  have deps: "on_ret (parse_dependencies e c n rest (alloc_dependencies e n)) (\<lambda>(_, d). deps_freeable d)" for c n rest
    by (rule parse_dependencies_freeable) (rule alloc_freeable)
  show ?thesis
    unfolding parse_membership_args_def
    using assms
    by (auto simp: Let_def alloc_freeable split: option.splits intro!: on_ret_any [where m = "atoi s" for s]
        on_ret_mono [OF book] on_ret_mono [OF deps] freeable_update)
qed

lemma init_table_freeable: "entries (snd (init_table_uid e t m n)) \<noteq> Wild"
  by (simp add: init_table_uid_def Let_def)

lemma init_tables_freeable: "freeable d \<Longrightarrow> freeable (snd (init_tables e d))"
  by (simp add: init_tables_def init_queue_def init_ack_table_def init_deliver_pl_def init_urb_table_def
      init_ack_urb_def init_pending_lcb_def freeable_def tables_freeable_def init_table_freeable Let_def split_beta)

lemma init_vector_mutex_freeable:
  assumes "vector c \<noteq> Wild"
  shows "on_ret (init_vector_mutex e c n) (\<lambda>(_, c). vector c \<noteq> Wild)"
  using assms unfolding init_vector_mutex_def alloc_vector_def
  by (auto simp: Let_def intro!: on_ret_any [where m = "read_block p k" for p k])

lemma init_log_data_freeable: "freeable d \<Longrightarrow> freeable (d\<lparr>logdata := snd (init_log_data e l n)\<rparr>)"
  by (simp add: init_log_data_def freeable_def tables_freeable_def Let_def)

lemma freeable_rest:
  assumes "freeable d"
  shows "freeable (d\<lparr>log_filename := a\<rparr>)" "freeable (d\<lparr>rec_mutex := b\<rparr>)" "freeable (d\<lparr>receiver_fd := c\<rparr>)"
    "freeable (d\<lparr>senders := s\<rparr>)" "freeable (d\<lparr>receiver_thread := t\<rparr>)" "vector x \<noteq> Wild \<Longrightarrow> freeable (d\<lparr>vector_clock := x\<rparr>)"
  using assms by (simp_all add: freeable_def tables_freeable_def)

lemma init_receiver_freeable: "freeable d \<Longrightarrow> on_ret (init_receiver e d) (\<lambda>(_, d). freeable d)"
  unfolding init_receiver_def
  by (auto simp: Let_def freeable_rest intro!: on_ret_any [where m = "get_addr b p" for b p])

lemma init_senders_freeable: "freeable d \<Longrightarrow> on_ret (init_senders e d n) (\<lambda>(_, d). freeable d)"
  unfolding init_senders_def setup_sockets_def setup_threads_def
  by (auto simp: Let_def freeable_rest intro!: on_ret_any [where m = "open_sockets e i k p" for i k p]
      on_ret_any [where m = "create_threads e i k p" for i k p])

lemma init_rest_freeable:
  assumes "freeable d"
  shows "on_ret (init_rest e d) (\<lambda>(_, d). freeable d)"
proof -
  have v: "vector (vector_clock d) \<noteq> Wild" using assms by (simp add: freeable_def tables_freeable_def)
  show ?thesis
    unfolding init_rest_def
    using assms
    by (auto simp: Let_def split_beta freeable_rest init_log_data_freeable
        intro!: on_ret_mono [OF init_vector_mutex_freeable [OF v]] on_ret_mono [OF init_receiver_freeable]
          on_ret_mono [OF init_senders_freeable] on_ret_any [where m = "sprintf_filename k" for k])
qed

lemma init_data_freeable:
  assumes "freeable d"
  shows "on_ret (init_data e aton argv m d) (\<lambda>(_, d). freeable d)"
  unfolding init_data_def
  by (auto simp: split_beta init_tables_freeable intro!: on_ret_mono [OF parse_freeable [OF assms]]
      on_ret_mono [OF init_rest_freeable])

lemma program_freeable: "freeable program_data"
  by (simp add: program_data_def freeable_def tables_freeable_def empty_uid_table_def zero_clock_def)

text \<open>
  Threads and what they need: no array of senders without a receiver thread, and an address book
  when the receiver thread runs.
\<close>

definition unstarted :: "net_data \<Rightarrow> bool" where
  "unstarted d \<longleftrightarrow> receiver_thread d = None \<and> senders d = Null"

definition started_ok :: "net_data \<Rightarrow> bool" where
  "started_ok d \<longleftrightarrow> (if receiver_thread d = None then senders d = Null
     else \<exists>b xs. address_book d = Some b \<and> addresses b = Arr xs)"

lemma unstarted_ok: "unstarted d \<Longrightarrow> started_ok d"
  by (simp add: unstarted_def started_ok_def)

lemma unstarted_update [simp]:
  "unstarted (d\<lparr>self_pid := a\<rparr>) = unstarted d" "unstarted (d\<lparr>num_msg := b\<rparr>) = unstarted d"
  "unstarted (d\<lparr>num_proc := c\<rparr>) = unstarted d" "unstarted (d\<lparr>address_book := x\<rparr>) = unstarted d"
  "unstarted (d\<lparr>deps := y\<rparr>) = unstarted d" "unstarted (d\<lparr>vector_clock := v\<rparr>) = unstarted d"
  "unstarted (d\<lparr>log_filename := f\<rparr>) = unstarted d" "unstarted (d\<lparr>logdata := l\<rparr>) = unstarted d"
  "unstarted (d\<lparr>rec_mutex := m\<rparr>) = unstarted d" "unstarted (d\<lparr>receiver_fd := fd\<rparr>) = unstarted d"
  by (simp_all add: unstarted_def)

lemma parse_unstarted:
  "unstarted d \<Longrightarrow> on_ret (parse_membership_args e aton argv m d) (\<lambda>(_, d). unstarted d)"
  unfolding parse_membership_args_def
  by (auto simp: Let_def split: option.splits intro!: on_ret_any [where m = "atoi s" for s]
      on_ret_any [where m = "parse_addresses a k fl b" for a k fl b]
      on_ret_any [where m = "parse_dependencies e c k fl b" for e c k fl b])

lemma init_tables_unstarted: "unstarted d \<Longrightarrow> unstarted (snd (init_tables e d))"
  by (simp add: init_tables_def unstarted_def Let_def split_beta)

lemma init_receiver_started:
  "unstarted d \<Longrightarrow> on_ret (init_receiver e d) (\<lambda>(r, d). started_ok d \<and> (r = 0 \<longrightarrow> receiver_thread d \<noteq> None))"
proof -
  assume d: "unstarted d"
  have book: "on_ret (get_addr (address_book d) (self_pid d)) (\<lambda>(r, _). r = 0 \<longrightarrow>
      (\<exists>b xs. address_book d = Some b \<and> addresses b = Arr xs))"
    by (auto simp: get_addr_def on_ret_def bnd_eq_ret load_eq_ret split: option.splits if_splits)
  show ?thesis
    unfolding init_receiver_def
    using d by (auto simp: Let_def unstarted_ok intro!: on_ret_mono [OF book]) (auto simp: started_ok_def unstarted_def)
qed

lemma init_senders_started:
  assumes "started_ok d" "receiver_thread d \<noteq> None"
  shows "on_ret (init_senders e d n) (\<lambda>(_, d'). started_ok d')"
proof -
  have "started_ok (d\<lparr>senders := p\<rparr>)" for p using assms by (auto simp: started_ok_def)
  with assms(1) show ?thesis
    unfolding init_senders_def setup_sockets_def setup_threads_def
    by (auto simp: Let_def intro!: on_ret_any [where m = "open_sockets e i k p" for i k p]
        on_ret_any [where m = "create_threads e i k p" for i k p])
qed

lemma init_rest_started: "unstarted d \<Longrightarrow> on_ret (init_rest e d) (\<lambda>(_, d). started_ok d)"
  unfolding init_rest_def
  by (auto simp: Let_def split_beta unstarted_ok intro!: on_ret_any [where m = "init_vector_mutex e c n" for c n]
      on_ret_any [where m = "sprintf_filename k" for k] on_ret_mono [OF init_receiver_started]
      on_ret_mono [OF init_senders_started])

lemma init_data_started: "on_ret (init_data e aton argv m program_data) (\<lambda>(_, d). started_ok d)"
proof -
  have u: "unstarted program_data" by (simp add: program_data_def unstarted_def)
  show ?thesis
    unfolding init_data_def
    by (auto simp: split_beta unstarted_ok init_tables_unstarted intro!: on_ret_mono [OF parse_unstarted [OF u]]
        on_ret_mono [OF init_rest_started])
qed

text \<open>What \<open>free_data\<close> has released: the blocks the data points to, but for the senders.\<close>

definition released :: "'a ptr \<Rightarrow> bool" where
  "released p \<longleftrightarrow> (case p of Arr _ \<Rightarrow> False | _ \<Rightarrow> True)"

definition data_released :: "net_data \<Rightarrow> bool" where
  "data_released d \<longleftrightarrow> (case address_book d of None \<Rightarrow> True | Some b \<Rightarrow> released (addresses b))
     \<and> (case deps d of None \<Rightarrow> True | Some m \<Rightarrow> released (dep_lists m))
     \<and> released (elems (task_q d)) \<and> released (entries (ack_tab (pl_acks d))) \<and> released (urb_values (urb_tab d))
     \<and> released (buffer (logdata d)) \<and> released (entries (pl_tab (pl_deliv d)))
     \<and> released (entries (urb_ack_tab (urbacks d))) \<and> released (lists (pending_lcb d))
     \<and> released (vector (vector_clock d))"

lemma free_released: "on_ret (free p) released"
  by (cases p) (simp_all add: released_def)

lemma free_calls_release:
  "on_ret (free_queue q) (\<lambda>(_, q). released (elems q))"
  "on_ret (free_ack_table a) (\<lambda>(_, a). released (entries (ack_tab a)))"
  "on_ret (free_urb_table t) (\<lambda>(_, t). released (urb_values t))"
  "on_ret (free_log_data l) (\<lambda>(_, l). released (buffer l))"
  "on_ret (free_delivered v) (\<lambda>(_, v). released (entries (pl_tab v)))"
  "on_ret (free_ack_urb u) (\<lambda>(_, u). released (entries (urb_ack_tab u)))"
  "on_ret (destroy_pending_lcb p) (\<lambda>(_, p). released (lists p))"
  "on_ret (destroy_vector c) (\<lambda>(_, c). released (vector c))"
  by (auto simp: free_queue_def free_ack_table_def free_table_uid_def free_urb_table_def free_log_data_def
      free_delivered_def free_ack_urb_def destroy_pending_lcb_def destroy_vector_def released_def
      intro!: on_ret_mono [OF free_released])

lemma free_book_releases: "on_ret (free_addr_book b) (\<lambda>b'. free_addr_book b = ret b'
    \<and> (case b' of None \<Rightarrow> True | Some x \<Rightarrow> released (addresses x)))"
  using on_retD [OF free_released] by (auto simp: free_addr_book_def on_ret_def bnd_eq_ret split: option.splits)

lemma free_dependencies_releases:
  "on_ret (free_dependencies d) (\<lambda>d'. case d' of None \<Rightarrow> True | Some m \<Rightarrow> released (dep_lists m))"
  by (auto simp: free_dependencies_def released_def split: option.splits
      intro!: on_ret_any [where m = "free_rows l k p" for l k p] on_ret_mono [OF free_released])

lemma free_data_released: "on_ret (free_data d) (\<lambda>d'. data_released d' \<and> senders d' = senders d
    \<and> receiver_thread d' = receiver_thread d \<and> num_proc d' = num_proc d
    \<and> free_addr_book (address_book d) = ret (address_book d'))"
  unfolding free_data_def
  by (auto simp: data_released_def simp del: on_ret_triv intro!: on_ret_mono [OF free_book_releases]
      on_ret_mono [OF free_dependencies_releases] on_ret_mono [OF free_calls_release(1)]
      on_ret_mono [OF free_calls_release(2)] on_ret_mono [OF free_calls_release(3)]
      on_ret_mono [OF free_calls_release(4)] on_ret_mono [OF free_calls_release(5)]
      on_ret_mono [OF free_calls_release(6)] on_ret_mono [OF free_calls_release(7)]
      on_ret_mono [OF free_calls_release(8)])

lemma free_data_releases:
  assumes "free_data d = ret d'"
  shows "data_released d' \<and> senders d' = senders d \<and> receiver_thread d' = receiver_thread d
    \<and> num_proc d' = num_proc d \<and> free_addr_book (address_book d) = ret (address_book d')"
  using on_retD [OF free_data_released assms] .

text \<open>
  A data message that arrives when the address book has been released: the receiver thread looks
  up the address to acknowledge it to, in the block that is no longer there.
\<close>

definition data_datagram :: "env \<Rightarrow> net_data \<Rightarrow> byte list \<Rightarrow> bool" where
  "data_datagram e d bs \<longleftrightarrow> (\<exists>x. sendable (num_proc d) x \<and> mtype x \<noteq> ACK_NO
     \<and> unat (sender x) \<in> book_pids (address_book d) \<and> serialize e x (num_proc d) = ret (0, Arr bs))"

lemma receiver_uses_freed_book:
  assumes book: "address_book d = Some b" "addresses b = Arr xs"
    and d': "free_addr_book (address_book d) = ret (address_book d')" "num_proc d' = num_proc d"
    and bs: "data_datagram e1 d bs" and e: "\<And>k. grant e1 k" "\<And>k. grant e k" and n: "num_proc d < 2 ^ 32"
  shows "receiver_turn e d' (Some bs) m0 = ub"
proof -
  from bs obtain x where x: "sendable (num_proc d) x" "mtype x \<noteq> ACK_NO"
    "unat (sender x) \<in> book_pids (address_book d)" "serialize e1 x (num_proc d) = ret (0, Arr bs)"
    unfolding data_datagram_def by blast
  have len: "length bs = message_size (num_proc d)" using serialize_ret [OF x(4)] by simp
  from wire_roundtrip [OF x(1) e n x(4), of m0] obtain m' where
    m': "deserialize e m0 (Arr bs) (num_proc d) = ret (0, m')" "wire_of (num_proc d) m' = wire_of (num_proc d) x"
    by blast
  then have m: "mtype m' \<noteq> ACK_NO" "sender m' = sender x"
    using x(2) by (auto simp: wire_of_def ACK_NO_def split: if_splits)
  have freed: "address_book d' = Some (b\<lparr>addresses := Wild\<rparr>)"
    using d'(1) book by (simp add: free_addr_book_def)
  have "get_addr (address_book d') (unat (sender x)) = ub"
    using x(3) book by (simp add: freed get_addr_def book_pids_def)
  then show ?thesis
    using m m'(1) len d'(2)
    by (simp add: receiver_turn_def receive_msg_def process_msg_def deliver_fl_def deliver_pl_def send_fl_def
        send_message_def Let_def)
qed

abbreviation idle_threads :: activity where
  "idle_threads \<equiv> \<lambda>d. ret (None, d)"

text \<open>C32: a start that fails, whatever the arguments, the membership file and the environment are.
  When \<open>init_data\<close> returns an error code, \<open>free_data\<close> returns, with no double free, and the blocks
  behind the address book, the dependencies, the queue, the tables, the log buffer, the heads of
  the pending lists and the vector clock are no longer live; the array of sender threads stays
  as it is. If the receiver thread
  had not been created there is no such array, no other thread runs, and \<open>main\<close> ends with the
  error code without waiting for a signal. If it had (it was the sender threads that failed), it
  is not stopped: \<open>main\<close> ends with the error code when no thread does anything meanwhile, but when
  a data message arrives between \<open>free_data\<close> and the end of \<open>main\<close>, the receiver thread uses the
  released address book.\<close>

theorem main_failed_start:
  assumes "init_data e aton argv m program_data = ret (r, d)" and "r \<noteq> 0"
  shows "\<exists>d'. free_data d = ret d' \<and> data_released d' \<and> senders d' = senders d
    \<and> (if receiver_thread d = None
       then senders d = Null \<and> main_proc e aton argv m signals early late = ret (Exit r d')
       else main_proc e aton argv m signals idle_threads idle_threads = ret (Exit r d')
         \<and> (data_datagram e' d bs \<and> (\<forall>k. grant e' k) \<and> num_proc d < 2 ^ 32 \<longrightarrow>
             main_proc e aton argv m signals idle_threads
               (\<lambda>d. bnd (receiver_turn e' d (Some bs) m0) (\<lambda>(x, d, _). ret (x, d))) = ub))"
proof -
  have "freeable d" using init_data_freeable [OF program_freeable] assms(1) by (auto simp: on_ret_def)
  from free_data_ok [OF this] obtain d' where d': "free_data d = ret d'" ..
  note rel = free_data_releases [OF d']
  have started: "started_ok d" using on_retD [OF init_data_started assms(1)] by simp
  note run = assms d' rel main_proc_def other_threads_def
  show ?thesis
  proof (cases "receiver_thread d = None")
    case True
    with started run show ?thesis by (intro exI [of _ d']) (simp add: started_ok_def)
  next
    case False
    with started obtain b xs where b: "address_book d = Some b" "addresses b = Arr xs"
      by (auto simp: started_ok_def)
    have "receiver_turn e' d' (Some bs) m0 = ub"
      if "data_datagram e' d bs" "\<forall>k. grant e' k" "num_proc d < 2 ^ 32"
      by (rule receiver_uses_freed_book [OF b _ _ that(1) _ _ that(3)]) (use rel that(2) in simp_all)
    with False run show ?thesis by (intro exI [of _ d']) auto
  qed
qed

text \<open>Two starts that fail: no mutex can be created; only one thread can be created.\<close>

definition no_mutex_env :: env where
  "no_mutex_env = good_env\<lparr>mutex_init_ok := False\<rparr>"

definition one_thread_env :: env where
  "one_thread_env = good_env\<lparr>thread_ok := (\<lambda>k. k = 0)\<rparr>"

lemma one_thread_start:
  "\<exists>d. init_data one_thread_env pair_aton [''da_proc'', dec 1, ''m.txt'', dec 5]
      (Some (membership_file pair_addrs [[2], []])) program_data = ret (err ERROR_THREAD, d)
    \<and> receiver_thread d = Some 0 \<and> num_proc d = 2 \<and> book_pids (address_book d) = {1..2}"
proof -
  let ?e = one_thread_env
  have g: "\<And>k. grant ?e k" "mutex_init_ok ?e" "fopen_ok ?e" "0 \<le> new_socket ?e 0" "bind_ok ?e" "thread_ok ?e 0"
    "\<And>k. 0 \<le> new_socket ?e k" "\<not> thread_ok ?e 1" by (simp_all add: one_thread_env_def)
  have n: "2 = length pair_addrs" "2 * (150 * 2 + 1) < (2 :: nat) ^ 32" "1 \<in> {1..2 :: nat}" "0 < (5 :: nat)"
    "(5 :: nat) < 2 ^ 31" "(2 :: nat) < 2 ^ 31" by simp_all
  from init_data_tables [OF g(1,2) pair_config n(1,2) refl n(3-5), of "''da_proc''" "''m.txt''"] obtain d1 where
    d1: "init_data ?e pair_aton [''da_proc'', dec 1, ''m.txt'', dec 5]
      (Some (membership_file pair_addrs [[2], []])) program_data = init_rest ?e d1" "num_proc d1 = 2" "self_pid d1 = 1"
      "logdata d1 = logdata program_data" "book_ok (address_book d1)" "book_pids (address_book d1) = {1..2}" by blast
  have "0 < self_pid d1" "self_pid d1 \<in> book_pids (address_book d1)" "\<not> loglok (logdata d1)" "self_pid d1 < 10"
    using d1(3,4,6) by (simp_all add: program_data_def)
  with init_rest_senders [OF g(1-6) d1(2) n(6) _ d1(5)] obtain c name l fd where
    r: "init_rest ?e d1 = init_senders ?e (d1\<lparr>vector_clock := c, log_filename := name, logdata := l,
      rec_mutex := False, receiver_fd := fd, receiver_thread := Some 0\<rparr>) NUM_SENDER_THREADS"
      (is "_ = init_senders _ ?d _") by auto
  from open_sockets_ok [of ?e 0 NUM_SENDER_THREADS "replicate NUM_SENDER_THREADS zero_sender"] g(7) obtain ys where
    "open_sockets ?e 0 NUM_SENDER_THREADS (Arr (replicate NUM_SENDER_THREADS zero_sender)) = ret (0, Arr ys)" by auto
  then have "init_senders ?e ?d NUM_SENDER_THREADS = ret (err ERROR_THREAD, ?d\<lparr>senders := Arr ys\<rparr>)"
    using g(1,8) by (simp add: init_senders_def setup_sockets_def setup_threads_def NUM_SENDER_THREADS_def numeral_eq_Suc)
  with r d1(1,2,6) show ?thesis by (intro exI [of _ "?d\<lparr>senders := Arr ys\<rparr>"]) simp
qed

theorem main_failed_start_witness:
  "(\<exists>d. main_proc no_mutex_env pair_aton [''da_proc'', dec 2, ''m.txt'', dec 5]
      (Some (membership_file pair_addrs [[2], []])) [] idle_threads idle_threads = ret (Exit (err ERROR_MUTEX) d)
      \<and> data_released d)
   \<and> (\<exists>bs. main_proc one_thread_env pair_aton [''da_proc'', dec 1, ''m.txt'', dec 5]
      (Some (membership_file pair_addrs [[2], []])) [] idle_threads
      (\<lambda>d. bnd (receiver_turn good_env d (Some bs) zero_msg) (\<lambda>(x, d, _). ret (x, d))) = ub)"
proof
  have g: "\<And>k. grant no_mutex_env k" "\<not> mutex_init_ok no_mutex_env" by (simp_all add: no_mutex_env_def)
  have "(0::nat) < 2" "(2::nat) < 2 ^ 31" "(0::nat) < 5" "(5::nat) < 2 ^ 31" by simp_all
  from parse_membership_ok [OF pair_config refl g(1) refl this, of "''da_proc''" "''m.txt''" program_data]
  obtain b dd where "parse_membership_args no_mutex_env pair_aton [''da_proc'', dec 2, ''m.txt'', dec 5]
      (Some (membership_file pair_addrs [[2], []])) program_data
      = ret (0, program_data\<lparr>self_pid := 2, num_msg := 5, num_proc := length pair_addrs, address_book := b, deps := dd\<rparr>)"
      (is "_ = ret (0, ?d)") by blast
  then have "init_data no_mutex_env pair_aton [''da_proc'', dec 2, ''m.txt'', dec 5]
      (Some (membership_file pair_addrs [[2], []])) program_data = ret (err ERROR_MUTEX, ?d\<lparr>task_q := task_q ?d\<rparr>)"
    using g(2) by (simp add: init_data_def init_tables_def init_queue_def)
  from main_failed_start [OF this, of "[]" idle_threads idle_threads] show
    "\<exists>d. main_proc no_mutex_env pair_aton [''da_proc'', dec 2, ''m.txt'', dec 5]
      (Some (membership_file pair_addrs [[2], []])) [] idle_threads idle_threads = ret (Exit (err ERROR_MUTEX) d)
      \<and> data_released d" by (auto simp: program_data_def)
next
  from one_thread_start obtain d where d: "init_data one_thread_env pair_aton [''da_proc'', dec 1, ''m.txt'', dec 5]
      (Some (membership_file pair_addrs [[2], []])) program_data = ret (err ERROR_THREAD, d)"
    "receiver_thread d = Some 0" "num_proc d = 2" "book_pids (address_book d) = {1..2}" by blast
  let ?x = "with_clock (zero_msg\<lparr>sender := 2\<rparr>) (sample_clock [0, 0])"
  have x: "sendable 2 ?x" "mtype ?x \<noteq> ACK_NO" "unat (sender ?x) \<in> {1..2}"
    by (simp_all add: sendable_def with_clock_def zero_msg_def sample_clock_def ACK_NO_def)
  from serialize_ok [OF x(1), of good_env] obtain bs where "serialize good_env ?x 2 = ret (0, Arr bs)" by auto
  with x d(3,4) have "data_datagram good_env d bs" unfolding data_datagram_def by auto
  moreover have "\<forall>k. grant good_env k" by simp
  ultimately have "main_proc one_thread_env pair_aton [''da_proc'', dec 1, ''m.txt'', dec 5]
      (Some (membership_file pair_addrs [[2], []])) [] idle_threads
      (\<lambda>d. bnd (receiver_turn good_env d (Some bs) zero_msg) (\<lambda>(x, d, _). ret (x, d))) = ub"
    using main_failed_start [OF d(1), of "[]" idle_threads idle_threads good_env bs zero_msg] d(2,3) by auto
  then show "\<exists>bs. main_proc one_thread_env pair_aton [''da_proc'', dec 1, ''m.txt'', dec 5]
      (Some (membership_file pair_addrs [[2], []])) [] idle_threads
      (\<lambda>d. bnd (receiver_turn good_env d (Some bs) zero_msg) (\<lambda>(x, d, _). ret (x, d))) = ub" by blast
qed

end
