(* ===== verification/Boot.thy ===== *)
theory Boot
  imports DaProc Accounting
begin

text \<open>
  From the command line to the guarantees of the protocol: a system whose processes have all
  been started by \<open>init_data\<close> (src/da\_proc.c) from the same membership file is a start state
  of the step relation, and the number of messages of the command line bounds what is
  ever delivered.
\<close>

section \<open>The number of messages to broadcast never changes\<close>

lemma lcb_core_num_msg: "lcb_core a = lcb_core b \<Longrightarrow> num_msg a = num_msg b"
proof -
  have sel: "num_msg (lcb_core d) = num_msg d" for d by (simp add: lcb_core_def)
  assume "lcb_core a = lcb_core b"
  from arg_cong [OF this, of num_msg] show ?thesis by (simp only: sel)
qed

lemma deliver_lcb_job: "on_ret (deliver_lcb e data m) (\<lambda>(_, d). num_msg d = num_msg data)"
  by (rule on_ret_mono [OF deliver_lcb_core]) (auto dest: lcb_core_num_msg)

lemma send_beb_job: "on_ret (send_beb e data m) (\<lambda>(_, d). num_msg d = num_msg data)"
  by (rule on_ret_mono [OF send_beb_only_queue]) auto

lemma send_fl_job: "on_ret (send_fl e data pid m) (\<lambda>(_, d). num_msg d = num_msg data)"
  by (rule on_ret_mono [OF send_fl_only_out]) auto

lemma get_vec_clock_copy_job: "on_ret (get_vec_clock_copy e data c) (\<lambda>(_, _, d). num_msg d = num_msg data)"
  by (rule on_ret_mono [OF get_vec_clock_copy_core]) (auto dest: lcb_core_num_msg)

lemmas layer_jobs [effects] = on_ret_mono [OF deliver_lcb_job] on_ret_mono [OF send_beb_job]
  on_ret_mono [OF send_fl_job] on_ret_mono [OF get_vec_clock_copy_job]

lemma deliver_urb_job: "on_ret (deliver_urb e data m) (\<lambda>(_, d). num_msg d = num_msg data)"
  unfolding deliver_urb_def urb_relay_def urb_try_deliver_def
  by (auto simp: Let_def intro!: effects)

lemma deliver_pl_job: "on_ret (deliver_pl e data m) (\<lambda>(_, d). num_msg d = num_msg data)"
  unfolding deliver_pl_def deliver_beb_def
  by (auto simp: Let_def intro!: effects on_ret_mono [OF deliver_urb_job])

lemma receiver_turn_job: "on_ret (receiver_turn e data bs m0) (\<lambda>(_, d, _). num_msg d = num_msg data)"
  unfolding receiver_turn_def process_msg_def deliver_fl_def
  by (auto simp: Let_def intro!: effects on_ret_mono [OF deliver_pl_job])

lemma send_lcb_round_job: "on_ret (send_lcb_round e data l i) (\<lambda>(_, _, d). num_msg d = num_msg data)"
  unfolding send_lcb_round_def send_urb_def
  by (auto simp: Let_def intro!: effects)

lemma send_pl_round_job: "on_ret (send_pl_round e pid data m i) (\<lambda>(_, d). num_msg d = num_msg data)"
  unfolding send_pl_round_def
  by (auto simp: Let_def intro!: effects)

text \<open>What a process has sent never exceeds what it was told to send.\<close>

definition job_ok :: "(nat \<Rightarrow> nat) \<Rightarrow> process \<Rightarrow> nat \<Rightarrow> bool" where
  "job_ok ms x p \<longleftrightarrow> num_msg (pdata x) = ms p \<and> sent x \<le> ms p"

lemma step_job:
  assumes "step E n st st'" "job_ok ms (st q) q"
  shows "job_ok ms (st' q) q"
  using assms(1)
proof cases
  case (broadcast p e l d)
  from on_retD [OF send_lcb_round_job broadcast(4)] assms(2) broadcast(3) show ?thesis
    unfolding broadcast(1) by (auto simp: job_ok_def)
next
  case (receive p bs e d m)
  from on_retD [OF receiver_turn_job receive(4)] assms(2) show ?thesis
    unfolding receive(1) by (auto simp: job_ok_def)
next
  case (take p i r t q)
  with assms(2) show ?thesis by (auto simp: job_ok_def)
next
  case (round p i t k e d)
  from on_retD [OF send_pl_round_job round(4)] assms(2) show ?thesis
    unfolding round(1) by (auto simp: job_ok_def)
next
  case (finish p i t k e r d ended)
  from on_retD [OF send_pl_round_job finish(4)] assms(2) show ?thesis
    unfolding finish(1) by (auto simp: job_ok_def)
qed

lemma reachable_job: "reachable E n st0 st \<Longrightarrow> job_ok ms (st0 q) q \<Longrightarrow> job_ok ms (st q) q"
  by (induction rule: reachable.induct) (auto intro: step_job)

section \<open>Booted systems\<close>

text \<open>Process \<open>p\<close> was started with the arguments \<open>p\<close>, the membership file and \<open>ms p\<close>.\<close>

definition booted :: "inet_aton \<Rightarrow> (string \<times> nat) list \<Rightarrow> nat list list \<Rightarrow> (nat \<Rightarrow> nat) \<Rightarrow> system \<Rightarrow> bool" where
  "booted aton addrs rows ms st \<longleftrightarrow> (\<forall>p \<in> {1..length addrs}. 0 < ms p \<and> ms p < 2 ^ 31
     \<and> (\<exists>e prog path. all_granted e
          \<and> init_data e aton [prog, dec p, path, dec (ms p)] (Some (membership_file addrs rows)) program_data
              = ret (0, pdata (st p)))
     \<and> sent (st p) = 0 \<and> (\<forall>i. threads (st p) i = Idle))"

lemma booted_initial:
  assumes "config_ok aton addrs rows" "\<forall>row \<in> set rows. set row \<subseteq> {1..n}" "n = length addrs" "n < 10"
    and "booted aton addrs rows ms st"
  shows "initial n (tables_size n) st" "\<And>p. p \<in> {1..n} \<Longrightarrow> job_ok ms (st p) p"
    "\<And>p. p \<in> {1..n} \<Longrightarrow> log_fresh (pdata (st p)) \<and> lcb_ok (pdata (st p)) (replicate n [])"
    "\<And>p. p \<in> {1..n} \<Longrightarrow> link_fresh n (\<lambda>i. entry_of aton (addrs ! (i - 1))) (pdata (st p))"
proof -
  have n: "0 < n" using assms(1,3) by (simp add: config_ok_def)
  have "n * (150 * n + 1) \<le> 9 * (150 * 9 + 1)" using assms(4) by (intro mult_le_mono) auto
  then have small: "n * (150 * n + 1) < 2 ^ 32" by simp
  have up: "fresh n p (tables_size n) (pdata (st p)) \<and> num_msg (pdata (st p)) = ms p
      \<and> sent (st p) = 0 \<and> (\<forall>i. threads (st p) i = Idle)
      \<and> log_fresh (pdata (st p)) \<and> lcb_ok (pdata (st p)) (replicate n [])
      \<and> link_fresh n (\<lambda>i. entry_of aton (addrs ! (i - 1))) (pdata (st p))" if p: "p \<in> {1..n}" for p
  proof -
    from assms(5) p obtain e prog path where b: "0 < ms p" "ms p < 2 ^ 31" "all_granted e"
      "init_data e aton [prog, dec p, path, dec (ms p)] (Some (membership_file addrs rows)) program_data
        = ret (0, pdata (st p))" "sent (st p) = 0" "\<forall>i. threads (st p) i = Idle"
      unfolding booted_def assms(3) by blast
    have "p < 10" using p assms(4) by simp
    with init_data_outcome [OF b(3) assms(1,3) small assms(2) refl p b(1,2), of prog path] b(4-6)
    show ?thesis by (auto simp: log_fresh_def lcb_ok_def)
  qed
  show "initial n (tables_size n) st"
    using up unat_tables_size(4) [OF small n] by (simp add: initial_def)
  show "job_ok ms (st p) p" if "p \<in> {1..n}" for p
    using up [OF that] by (simp add: job_ok_def)
  show "log_fresh (pdata (st p)) \<and> lcb_ok (pdata (st p)) (replicate n [])" if "p \<in> {1..n}" for p
    using up [OF that] by simp
  show "link_fresh n (\<lambda>i. entry_of aton (addrs ! (i - 1))) (pdata (st p))" if "p \<in> {1..n}" for p
    using up [OF that] by simp
qed

lemma booted_delivered:
  assumes "config_ok aton addrs rows" "\<forall>row \<in> set rows. set row \<subseteq> {1..n}" "n = length addrs" "n < 10"
    and "booted aton addrs rows ms st0" "reachable E n st0 st" "p \<in> {1..n}"
  shows "delivered_set (pdata (st p)) \<subseteq> {s. unat s mod n + 1 \<in> {1..n}
    \<and> unat s div n + 1 \<le> ms (unat s mod n + 1)
    \<and> n div 2 < card {q \<in> {1..n}. s \<in> seen_set (pdata (st q))}}"
proof
  note boot = booted_initial [OF assms(1-5)]
  note inv = reachable_inv [OF boot(1) assms(6)]
  fix s
  assume "s \<in> delivered_set (pdata (st p))"
  with delivered_seen_quorum [OF inv assms(7)]
  have q: "n div 2 < card {q \<in> {1..n}. s \<in> seen_set (pdata (st q))}" .
  then have "{q \<in> {1..n}. s \<in> seen_set (pdata (st q))} \<noteq> {}" by (auto simp del: Collect_empty_eq)
  then obtain q where "(q, s) \<in> sightings_of n st" by (auto simp: sightings_of_def)
  from sys_invD(5) [OF inv assms(7) this] have sent: "unat s div n + 1 \<le> sent (st (unat s mod n + 1))"
    by (simp add: origin_def msg_number_def)
  have "0 < n" using assms(7) by auto
  then have "unat s mod n < n" by simp
  then have o: "unat s mod n + 1 \<in> {1..n}" by simp
  from reachable_job [OF assms(6) boot(2) [OF o]] sent q o
  show "s \<in> {s. unat s mod n + 1 \<in> {1..n} \<and> unat s div n + 1 \<le> ms (unat s mod n + 1)
    \<and> n div 2 < card {q \<in> {1..n}. s \<in> seen_set (pdata (st q))}}"
    by (auto simp: job_ok_def)
qed

text \<open>C10: the guarantees from the command line on. Start every process with the same well-formed
  membership file. Then in every state the system reaches, a message that any process has
  delivered comes from a process of the membership file, its number is at most the number of
  messages that process was told to broadcast, and more than half of the processes have it.\<close>

theorem booted_system_safe:
  assumes "config_ok aton addrs rows" "\<forall>row \<in> set rows. set row \<subseteq> {1..n}" "n = length addrs" "n < 10"
    and "booted aton addrs rows ms st0" "reachable E n st0 st" "p \<in> {1..n}"
  shows "delivered_set (pdata (st p)) \<subseteq> {s. unat s mod n + 1 \<in> {1..n}
    \<and> unat s div n + 1 \<le> ms (unat s mod n + 1)
    \<and> n div 2 < card {q \<in> {1..n}. s \<in> seen_set (pdata (st q))}}"
  by (rule booted_delivered [OF assms])

text \<open>Two processes with one message each, booted with the membership file of two lines.\<close>

definition pair_start :: "nat \<Rightarrow> net_data" where
  "pair_start p = (case init_data good_env pair_aton [''da_proc'', dec p, ''m.txt'', dec 1]
      (Some (membership_file pair_addrs [[2], []])) program_data of Some (Ret (_, d)) \<Rightarrow> d | _ \<Rightarrow> program_data)"

definition pair_system :: system where
  "pair_system p = \<lparr>pdata = pair_start p, rcv_msg = receiver_start good_env,
     bcast_msg = \<lparr>lcb_clock = uninit_clock good_env, lcb_original_sender = 0\<rparr>, sent = 0, threads = \<lambda>_. Idle\<rparr>"

lemma pair_booted: "booted pair_aton pair_addrs [[2], []] (\<lambda>_. 1) pair_system"
proof -
  have "init_data good_env pair_aton [''da_proc'', dec p, ''m.txt'', dec 1]
      (Some (membership_file pair_addrs [[2], []])) program_data = ret (0, pair_start p)" if p: "p \<in> {1..2}" for p
  proof -
    have "2 = length pair_addrs" "2 * (150 * 2 + 1) < (2 :: nat) ^ 32" "\<forall>row \<in> set [[2], []]. set row \<subseteq> {1..2 :: nat}"
      "0 < (1 :: nat)" "(1 :: nat) < 2 ^ 31" "p < 10" using p by simp_all
    from init_data_outcome [OF good_granted pair_config this(1-3) refl p this(4,5), of "''da_proc''" "''m.txt''"] this(6)
    show ?thesis by (auto simp: pair_start_def)
  qed
  moreover have "length pair_addrs = 2" by simp
  ultimately show ?thesis
    unfolding booted_def using good_granted by (fastforce simp: pair_system_def)
qed

text \<open>The numbers of the messages of one process are different.\<close>

lemma card_of_origin:
  assumes "0 < n" "\<And>s. s \<in> A \<Longrightarrow> unat s mod n + 1 = q \<Longrightarrow> unat s div n + 1 \<le> k"
  shows "card {s \<in> A. unat (s :: u32) mod n + 1 = q} \<le> k"
proof -
  let ?B = "{s \<in> A. unat s mod n + 1 = q}"
  have "inj_on (\<lambda>s. unat s div n) ?B"
  proof (rule inj_onI)
    fix s t assume "s \<in> ?B" "t \<in> ?B" "unat s div n = unat t div n"
    then have "unat s div n = unat t div n" "unat s mod n = unat t mod n" by simp_all
    then have "unat s = unat t" by (metis div_mult_mod_eq)
    then show "s = t" by (simp add: word_unat_eq_iff)
  qed
  moreover have "(\<lambda>s. unat s div n) ` ?B \<subseteq> {..<k}" using assms(2) by force
  ultimately have "card ?B \<le> card {..<k}" by (intro card_inj_on_le) auto
  then show ?thesis by simp
qed

text \<open>C8: the output, from the command line on. Start every process with the same well-formed
  membership file, and let no write be cut short. Then in every state the system reaches the
  log of a process lists its own broadcasts 1, 2, ... up to at most the number on its command
  line, and for every process \<open>q\<close> the deliveries 1, 2, ..., \<open>k\<close>, where \<open>k\<close> is at most the number
  of messages of \<open>q\<close> that a majority has, and at most the number on the command line of \<open>q\<close>.\<close>

theorem booted_logs:
  assumes "config_ok aton addrs rows" "\<forall>row \<in> set rows. set row \<subseteq> {1..n}" "n = length addrs" "n < 10"
    and "booted aton addrs rows ms st0" "reachable full_writes n st0 st" "p \<in> {1..n}"
  shows "\<exists>evs j. log_text (logdata (pdata (st p))) = concat (map event_line evs)
    \<and> own_numbers evs = map of_nat [1..<j + 1] \<and> j \<le> ms p
    \<and> (\<forall>q \<in> {1..n}. \<exists>k \<le> ms q. delivered_numbers (of_nat q) evs = map of_nat [1..<k + 1]
         \<and> k \<le> card {s. unat s mod n + 1 = q \<and> n div 2 < card {r \<in> {1..n}. s \<in> seen_set (pdata (st r))}})"
proof -
  note boot = booted_initial [OF assms(1-5)]
  have n: "0 < n" using assms(7) by auto
  have f: "log_fresh (pdata (st0 p))" "lcb_ok (pdata (st0 p)) (replicate n [])" "sent (st0 p) = 0"
    using boot(3) [OF assms(7)] boot(1) assms(7) by (auto simp: initial_def)
  have log: "log_inv (sent (st p)) (pdata (st p))"
    using reachable_log [OF assms(6)] log_fresh_inv [OF f(1)] f(3) by simp
  then obtain evs where evs: "log_text (logdata (pdata (st p))) = concat (map event_line evs)"
    "log_lists (sent (st p)) (clock_val (vector_clock (pdata (st p)))) evs"
    by (auto simp: log_inv_def log_says_def)
  from boot(1) assms(7) have "fresh n p (tables_size n) (pdata (st0 p))" by (simp add: initial_def)
  from reachable_books [OF boot(1) _ books_fresh [OF this f(1,2)] assms(6)] log_fresh_inv [OF f(1)] f(3)
  obtain ass where ass: "accounted (pdata (st p)) ass" by (auto simp: books_ok_def)
  have np: "num_proc (pdata (st p)) = n"
    using sys_invD(1) [OF reachable_inv [OF boot(1) assms(6)] assms(7)] by (simp add: urb_inv_def)
  have del: "\<exists>k \<le> ms q. delivered_numbers (of_nat q) evs = map of_nat [1..<k + 1]
      \<and> k \<le> card {s. unat s mod n + 1 = q \<and> n div 2 < card {r \<in> {1..n}. s \<in> seen_set (pdata (st r))}}"
    if q: "q \<in> {1..n}" for q
  proof -
    let ?k = "unat (clock_val (vector_clock (pdata (st p))) (q - 1))"
    let ?D = "{s \<in> delivered_set (pdata (st p)). unat s mod n + 1 = q}"
    note d = subsetD [OF booted_delivered [OF assms(1-7)]]
    have "card ?D = ?k + length (ass ! (q - 1))" using ass q np by (simp add: accounted_def of_origin_def)
    then have k: "?k \<le> card ?D" by simp
    have "card ?D \<le> ms q" using d by (intro card_of_origin [OF n]) auto
    moreover have "card ?D \<le> card {s. unat s mod n + 1 = q \<and> n div 2 < card {r \<in> {1..n}. s \<in> seen_set (pdata (st r))}}"
      using d by (intro card_mono) auto
    moreover have "unat (of_nat q - 1 :: u32) = q - 1" using q assms(4) by (intro unat_pid) auto
    then have "delivered_numbers (of_nat q) evs = map of_nat [1..<?k + 1]"
      using evs(2) by (simp add: log_lists_def upto_number_def)
    ultimately show ?thesis using k by (intro exI [of _ ?k]) simp
  qed
  have "own_numbers evs = map of_nat [1..<sent (st p) + 1]"
    using evs(2) by (simp add: log_lists_def upto_number_def)
  moreover have "sent (st p) \<le> ms p"
    using reachable_job [OF assms(6) boot(2) [OF assms(7)]] by (simp add: job_ok_def)
  ultimately show ?thesis using evs(1) del by blast
qed

end
