(* ===== verification/Liveness.thy ===== *)
theory Liveness
  imports Progress Boot
begin

text \<open>
  Messages do get through: from every start of the system there is a run, without any failure,
  in which the first message of any process is delivered and logged by any other process. The
  run is built from the turns of the threads: the broadcast, the sending of all copies, the
  relays of the other processes, and the receptions that complete a majority.
\<close>

section \<open>Runs\<close>

lemma reachable_trans: "reachable E n a b \<Longrightarrow> reachable E n b c \<Longrightarrow> reachable E n a c"
  by (rotate_tac 1, induction rule: reachable.induct) (auto intro: reachable.more)

lemma reachable_step: "step E n a b \<Longrightarrow> reachable E n a b"
  by (rule reachable.more [OF reachable.start])

text \<open>Process \<open>a\<close> has sent a copy of message \<open>s\<close> to the address \<open>x\<close>.\<close>

definition copy_sent :: "nat \<Rightarrow> u32 \<Rightarrow> u32 list \<Rightarrow> nat \<Rightarrow> sockaddr_in \<Rightarrow> process \<Rightarrow> bool" where
  "copy_sent n s xs a x pr \<longleftrightarrow> (\<exists>m bs. datagram_of good_env n m bs \<and> is_copy n s xs a m
     \<and> (x, bs) \<in> set (net_out (pdata pr)))"

section \<open>Sending all copies\<close>

text \<open>The idle threads of a process take the tasks one after the other and send each once.\<close>

lemma send_one:
  assumes a: "a \<in> {1..n}" and n: "num_proc (pdata (st a)) = n"
    and link: "linked n s A M (pdata (st a))"
    and q: "queue_ok (task_q (pdata (st a)))" "queue_tasks (task_q (pdata (st a))) = t # ts"
    and th: "threads (st a) i = Idle" "i < NUM_SENDER_THREADS"
    and t: "is_copy n s xs a (task_msg t)" "unat (pid_dest t) \<in> {1..n}"
  shows "\<exists>tq out. queue_ok tq \<and> queue_tasks tq = ts \<and> set (net_out (pdata (st a))) \<subseteq> set out
    \<and> copy_sent n s xs a (A (unat (pid_dest t))) ((st a)\<lparr>pdata := (pdata (st a))\<lparr>task_q := tq, net_out := out\<rparr>\<rparr>)
    \<and> reachable full_writes n st (st(a := (st a)\<lparr>pdata := (pdata (st a))\<lparr>task_q := tq, net_out := out\<rparr>,
        threads := (threads (st a))(i := Sending t 1)\<rparr>))"
proof -
  let ?d = "pdata (st a)"
  from dequeue_ok [OF q] obtain tq where tq: "dequeue (task_q ?d) = ret (0, Some t, tq)" "queue_ok tq" "queue_tasks tq = ts"
    by blast
  let ?d1 = "?d\<lparr>task_q := tq\<rparr>" and ?bs = "msg_bytes good_env n (task_msg t)"
  let ?x1 = "(st a)\<lparr>pdata := ?d1, threads := (threads (st a))(i := Sending t 0)\<rparr>"
  have s1: "step full_writes n st (st(a := ?x1))"
    by (rule step.take [where st = st, OF a th(2,1) tq(1)])
  have send: "sendable n (task_msg t)" using t(1) by (simp add: is_copy_def)
  have book: "book_ok (address_book ?d1)" "unat (pid_dest t) \<in> book_pids (address_book ?d1)"
    using link t(2) by (simp_all add: linked_def)
  have addr: "addr_of ?d1 (pid_dest t) = A (unat (pid_dest t))"
    using get_addr_in_book [OF book] link t(2) by (simp add: linked_def)
  have acks: "acks_ok (pl_acks ?d1)" "ack_view (pl_acks ?d1) (ackid (task_msg t)) = 0"
    using link by (simp_all add: linked_def)
  let ?out = "net_out ?d @ [(A (unat (pid_dest t)), ?bs)]"
  have round: "send_pl_round good_env (pid_dest t) ?d1 (task_msg t) 0 = ret (None, ?d1\<lparr>net_out := ?out\<rparr>)"
    using send_pl_round_sends [OF acks, of 0 "pid_dest t" good_env] book send n addr
    by (simp add: THRESHOLD_def link_ok_def)
  have s2: "step full_writes n (st(a := ?x1))
      ((st(a := ?x1))(a := ?x1\<lparr>pdata := ?d1\<lparr>net_out := ?out\<rparr>, threads := (threads ?x1)(i := Sending t (0 + 1))\<rparr>))"
    using step.round [where st = "st(a := ?x1)" and E = full_writes and e = good_env and i = i and t = t and k = 0, OF a] round
    by simp
  have "(st(a := ?x1))(a := ?x1\<lparr>pdata := ?d1\<lparr>net_out := ?out\<rparr>, threads := (threads ?x1)(i := Sending t (0 + 1))\<rparr>)
      = st(a := (st a)\<lparr>pdata := ?d\<lparr>task_q := tq, net_out := ?out\<rparr>, threads := (threads (st a))(i := Sending t 1)\<rparr>)"
    by simp
  with s2 have "reachable full_writes n st (st(a := (st a)\<lparr>pdata := ?d\<lparr>task_q := tq, net_out := ?out\<rparr>,
      threads := (threads (st a))(i := Sending t 1)\<rparr>))"
    using reachable.more [OF reachable_step [OF s1]] by metis
  moreover have "datagram_of good_env n (task_msg t) ?bs"
    using serialize_ok [OF send, of good_env] by (auto simp: datagram_of_def msg_bytes_def)
  then have "copy_sent n s xs a (A (unat (pid_dest t))) ((st a)\<lparr>pdata := ?d\<lparr>task_q := tq, net_out := ?out\<rparr>\<rparr>)"
    using t(1) by (auto simp: copy_sent_def)
  ultimately show ?thesis using tq(2,3) by (intro exI [of _ tq] exI [of _ ?out]) auto
qed

lemma copy_sent_mono: "copy_sent n s xs a x pr \<Longrightarrow> set (net_out (pdata pr)) \<subseteq> set (net_out (pdata pr')) \<Longrightarrow> copy_sent n s xs a x pr'"
  unfolding copy_sent_def by blast

lemma send_all:
  assumes "a \<in> {1..n}" "num_proc (pdata (st a)) = n" "linked n s A M (pdata (st a))"
    and "queue_ok (task_q (pdata (st a)))" "queue_tasks (task_q (pdata (st a))) = ts"
    and "\<And>j. i \<le> j \<Longrightarrow> threads (st a) j = Idle" "i + length ts \<le> NUM_SENDER_THREADS"
    and "\<And>t. t \<in> set ts \<Longrightarrow> is_copy n s xs a (task_msg t) \<and> unat (pid_dest t) \<in> {1..n}"
  shows "\<exists>x. reachable full_writes n st (st(a := x)) \<and> set (net_out (pdata (st a))) \<subseteq> set (net_out (pdata x))
    \<and> (\<forall>t \<in> set ts. copy_sent n s xs a (A (unat (pid_dest t))) x)"
  using assms(2-8)
proof (induction ts arbitrary: st i)
  case Nil
  then show ?case by (intro exI [of _ "st a"]) (simp add: reachable.start)
next
  case (Cons t ts)
  have t: "is_copy n s xs a (task_msg t)" "unat (pid_dest t) \<in> {1..n}" using Cons.prems(7) [of t] by simp_all
  have th: "threads (st a) i = Idle" "i < NUM_SENDER_THREADS" using Cons.prems(5) [of i] Cons.prems(6) by simp_all
  from send_one [where st = st, OF assms(1) Cons.prems(1-4) th t] obtain tq out where
    one: "queue_ok tq" "queue_tasks tq = ts" "set (net_out (pdata (st a))) \<subseteq> set out"
    "copy_sent n s xs a (A (unat (pid_dest t))) ((st a)\<lparr>pdata := (pdata (st a))\<lparr>task_q := tq, net_out := out\<rparr>\<rparr>)"
    "reachable full_writes n st (st(a := (st a)\<lparr>pdata := (pdata (st a))\<lparr>task_q := tq, net_out := out\<rparr>,
        threads := (threads (st a))(i := Sending t 1)\<rparr>))" (is "reachable _ _ _ (st(a := ?y))") by blast
  have ready: "num_proc (pdata ((st(a := ?y)) a)) = n" "linked n s A M (pdata ((st(a := ?y)) a))"
    "queue_ok (task_q (pdata ((st(a := ?y)) a)))" "queue_tasks (task_q (pdata ((st(a := ?y)) a))) = ts"
    using Cons.prems(1,2) one(1,2) by simp_all
  have rest: "threads ((st(a := ?y)) a) j = Idle" if "Suc i \<le> j" for j
    using that Cons.prems(5) [of j] by simp
  have len: "Suc i + length ts \<le> NUM_SENDER_THREADS" using Cons.prems(6) by simp
  from Cons.IH [of "st(a := ?y)" "Suc i", OF ready rest len] Cons.prems(7) obtain x where
    x: "reachable full_writes n (st(a := ?y)) (st(a := x))" "set out \<subseteq> set (net_out (pdata x))"
      "\<forall>t \<in> set ts. copy_sent n s xs a (A (unat (pid_dest t))) x"
    by (auto simp del: fun_upd_apply simp: fun_upd_same)
  from reachable_trans [OF one(5) x(1)] have "reachable full_writes n st (st(a := x))" .
  moreover have "copy_sent n s xs a (A (unat (pid_dest t))) x"
    by (rule copy_sent_mono [OF one(4)]) (use x(2) in simp)
  ultimately show ?case using x(2,3) one(3) by (intro exI [of _ x]) (auto simp del: fun_upd_apply)
qed

text \<open>With the tasks of a copy in its queue a process reaches everybody else.\<close>

lemma send_copies:
  assumes a: "a \<in> {1..n}" "n < 10" and st: "num_proc (pdata (st a)) = n" "linked n s A M (pdata (st a))"
    and q: "queue_ok (task_q (pdata (st a)))" "copy_tasks n s xs a (queue_tasks (task_q (pdata (st a))))"
    and idle: "\<And>j. threads (st a) j = Idle"
  shows "\<exists>x. reachable full_writes n st (st(a := x)) \<and> (\<forall>b \<in> {1..n} - {a}. copy_sent n s xs a (A b) x)"
proof -
  let ?ts = "queue_tasks (task_q (pdata (st a)))" and ?bs = "filter (\<lambda>i. i \<noteq> a) [1..<n + 1]"
  have dest: "map pid_dest ?ts = map of_nat ?bs" and copies: "\<And>t. t \<in> set ?ts \<Longrightarrow> is_copy n s xs a (task_msg t)"
    using q(2) by (simp_all add: copy_tasks_def)
  have "length ?ts = length ?bs" using arg_cong [OF dest, of length] by simp
  also have "\<dots> \<le> n" using length_filter_le [of "\<lambda>i. i \<noteq> a" "[1..<n + 1]"] by (simp del: upt_Suc)
  finally have len: "0 + length ?ts \<le> NUM_SENDER_THREADS" using a(2) by (simp add: NUM_SENDER_THREADS_def)
  have to: "pid_dest ` set ?ts = of_nat ` set ?bs" using arg_cong [OF dest, of set] by simp
  have u: "unat (of_nat b :: u32) = b" if "b \<le> n" for b using that a(2) by (intro unat_of_nat_u32) simp
  have range: "unat (pid_dest t) \<in> {1..n}" if "t \<in> set ?ts" for t
  proof -
    from that have "pid_dest t \<in> of_nat ` set ?bs" using to by blast
    then show ?thesis using u by auto
  qed
  from send_all [where st = st and i = 0, OF a(1) st q(1) refl _ len] idle copies range obtain x where
    x: "reachable full_writes n st (st(a := x))" "\<forall>t \<in> set ?ts. copy_sent n s xs a (A (unat (pid_dest t))) x" by blast
  have "copy_sent n s xs a (A b) x" if b: "b \<in> {1..n} - {a}" for b
  proof -
    have "b \<in> set ?bs" using b by auto
    then have "of_nat b \<in> pid_dest ` set ?ts" using to by blast
    then obtain t where t: "t \<in> set ?ts" "pid_dest t = of_nat b" by auto
    with x(2) u [of b] b show ?thesis by auto
  qed
  with x(1) show ?thesis by blast
qed

section \<open>The first broadcast\<close>

lemma first_broadcast:
  assumes room: "roomy n T s" and s: "s = of_nat (p - 1)" and p: "p \<in> {1..n}"
    and e: "\<And>k. grant e k" "full_writes e"
    and fresh: "fresh n p T data" and lcb: "lcb_ok data ass" and zero: "\<And>i. clock_val (vector_clock data) i = 0"
    and link: "linked n s A M data"
  shows "\<exists>d l. send_lcb_round e data lm 1 = ret (0, l, d) \<and> num_proc d = n \<and> linked n s A M d
    \<and> queue_ok (task_q d) \<and> copy_tasks n s (replicate n 0) p (queue_tasks (task_q d))"
proof -
  note n = roomyD(3,4,6) [OF room]
  from fresh have np: "num_proc data = n" "self_pid data = p" and t: "urb_ok (urb_tab data)" "urb_total_entries (urb_tab data) = T"
    and u: "acked_by n T s {} (urbacks data)" and tq: "queue_ok (task_q data)" "queue_tasks (task_q data) = []"
    by (simp_all add: fresh_def acked_by_def)
  from lcb np(1) have cl: "clock_ok n (vector_clock data)" "\<not> vc_mutex (vector_clock data)"
    and log: "log_ok (logdata data)" "LINE_MAX_LENGTH \<le> buf_max_size (logdata data)"
    by (simp_all add: lcb_ok_def clocks_ok_def)
  from cl(1) obtain ws where ws: "vector (vector_clock data) = Arr ws" "length ws = n" by (rule clock_okE)
  have "ws ! i = 0" if "i < n" for i using zero [of i] ws that by (simp add: clock_val_def)
  with ws(2) have ws0: "ws = replicate n 0" by (intro nth_equalityI) simp_all
  have un: "unat (of_nat n :: u32) = n" "unat (of_nat p :: u32) = p"
    using n p by (simp_all add: unat_of_nat_u32)
  let ?c = "(lcb_clock lm)\<lparr>vc_num_proc := of_nat n, vector := Arr (replicate n 0)\<rparr>"
  let ?l = "lm\<lparr>lcb_original_sender := of_nat p, lcb_clock := ?c\<rparr>"
  let ?f = "\<lparr>sequence_num = 1, original_sender = of_nat p\<rparr>" and ?mid = "mid_of n s p"
  let ?m = "\<lparr>lcb_part = ?l, fifo_part = ?f, seen_id = s, urb_mid = ?mid\<rparr>"
  have copy: "get_vec_clock_copy e data (lcb_clock lm) = ret (0, ?c, data)"
    using cl(2) ws(1) e(1) un(1) np(1) unlock_clock [OF cl(2)]
    by (simp add: get_vec_clock_copy_def ws0 alloc_vector_Arr Let_def)
  have "p - 1 < n" using p by auto
  moreover from this have "(replicate n 0)[p - 1 := 0] = replicate n (0 :: u32)" by (metis list_update_id nth_replicate)
  ultimately have own: "store (Arr (replicate n (0 :: u32))) (size_dec p) 0 = ret (Arr (replicate n 0))"
    using p by (simp add: size_dec_def store_def)
  have sid: "seen_id_of n ?f = s" using p s by (simp add: seen_id_of_def of_nat_diff)
  have "s \<in> urb_ids (urb_tab data)" using roomyD(2,5) [OF room] t(2) by (simp add: urb_ids_nat word_less_nat_alt)
  from add_seen_in_range [OF t(1) this, of e] obtain t1 where t1: "add_seen_urb e (urb_tab data) s = ret (0, t1)" by blast
  from set_ack_at [OF room u p, of e] obtain u1 where u1: "set_ack_urb e (urbacks data) ?mid = ret (0, u1)" by blast
  have "event_fits (Broadcast 1)" by (simp add: event_fits_Broadcast)
  from record_event_ok [OF log(1) this log(2), of e] e(2) obtain l1 where
    l1: "log_urb_broadcast e (logdata data) ?f = ret (0, l1)"
    by (auto simp: full_writes_def log_urb_broadcast_def)
  let ?d = "data\<lparr>urb_tab := t1, urbacks := u1, logdata := l1\<rparr>"
  have "vector (lcb_clock (lcb_part ?m)) = Arr (replicate n 0)" by simp
  from send_beb_ok [where data = ?d, OF this e(1)] np tq n p obtain tq1 where
    tq1: "send_beb e ?d ?m = ret (0, ?d\<lparr>task_q := tq1\<rparr>)" "queue_ok tq1"
      "queue_tasks tq1 = map (beb_task ?d ?m) (filter (\<lambda>i. i \<noteq> p) [1..<n + 1])" by auto
  have "send_urb e data ?f ?l = ret (0, ?d\<lparr>task_q := tq1\<rparr>)"
    using t1 u1 l1 tq1(1) by (simp add: send_urb_def np sid)
  then have "send_lcb_round e data lm 1 = ret (0, ?l, ?d\<lparr>task_q := tq1\<rparr>)"
    using copy own by (simp add: send_lcb_round_def np Let_def)
  moreover have "linked n s A M (?d\<lparr>task_q := tq1\<rparr>)" using link by simp
  moreover have "unat s mod n + 1 = p"
  proof -
    have "p - 1 < 2 ^ 32" using p n(2) by auto
    from unat_of_nat_u32 [OF this] have "unat s = p - 1" by (simp only: s)
    moreover have "p - 1 < n" using p by auto
    ultimately show ?thesis using p by simp
  qed
  then have "copy_tasks n s (replicate n 0) p (queue_tasks tq1)"
    unfolding tq1(3) by (intro copy_tasks_beb) (use np un(2) in \<open>simp_all add: clock_entries_def\<close>)
  ultimately show ?thesis using tq1(2) np(1) by (intro exI [of _ "?d\<lparr>task_q := tq1\<rparr>"] exI [of _ ?l]) simp
qed

section \<open>The other processes\<close>

text \<open>A process that has not done anything yet.\<close>

definition untouched :: "nat \<Rightarrow> u32 \<Rightarrow> u32 \<Rightarrow> (nat \<Rightarrow> sockaddr_in) \<Rightarrow> nat \<Rightarrow> process \<Rightarrow> bool" where
  "untouched n T s A p x \<longleftrightarrow> fresh n p T (pdata x) \<and> lcb_ok (pdata x) (replicate n [])
     \<and> (\<forall>i. clock_val (vector_clock (pdata x)) i = 0) \<and> log_text (logdata (pdata x)) = []
     \<and> linked n s A {} (pdata x) \<and> (\<forall>j. threads x j = Idle)"

lemma untouched_collecting:
  assumes "untouched n T s A p x" "p \<in> {1..n}" "n < 2 ^ 31"
  shows "collecting n T s {} (pdata x)"
  using assms by (simp add: untouched_def fresh_def collecting_def acked_by_def)

text \<open>A copy that was sent to process \<open>q\<close> can arrive there, in an environment without failures.\<close>

lemma receive_sent:
  assumes room: "roomy n T s" "n < 10" and aq: "a \<in> {1..n}" "q \<in> {1..n}"
    and sent: "copy_sent n s xs a (A q) (st a)"
    and at: "collecting n T s K (pdata (st q))" "self_pid (pdata (st q)) = q" "mid_of n s a \<notin> M"
    and link: "linked n s A M (pdata (st q))" and lcb: "lcb_ok (pdata (st q)) ass" "concat ass = []"
    and zero: "\<And>i. clock_val (vector_clock (pdata (st q))) i = 0" and xs: "xs = replicate n 0"
  shows "\<exists>x. reachable full_writes n st (st(q := x)) \<and> num_proc (pdata x) = n \<and> self_pid (pdata x) = q
    \<and> linked n s A (insert (mid_of n s a) M) (pdata x) \<and> queue_ok (task_q (pdata x)) \<and> threads x = threads (st q)
    \<and> (\<exists>ts. queue_tasks (task_q (pdata x)) = queue_tasks (task_q (pdata (st q))) @ ts
         \<and> (K = {} \<longrightarrow> copy_tasks n s xs q ts))
    \<and> (if n div 2 < card (insert q (insert a K))
       then s \<in> delivered_set (pdata x) \<and> log_text (logdata (pdata x)) = log_text (logdata (pdata (st q)))
           @ deliver_line (of_nat (unat s mod n + 1)) 1
       else collecting n T s (insert q (insert a K)) (pdata x) \<and> lcb_view (pdata x) = lcb_view (pdata (st q)))"
proof -
  let ?d = "pdata (st q)" let ?o = "unat s mod n + 1"
  from sent obtain m bs where m: "datagram_of good_env n m bs" "is_copy n s xs a m"
    "(A q, bs) \<in> set (net_out (pdata (st a)))" by (auto simp: copy_sent_def)
  have "addr_of ?d (of_nat q) = A q" using aq(2) room(2) by (intro linked_addr [OF link]) auto
  with m(3) aq(1) have fly: "in_flight n st q bs" unfolding in_flight_def by (intro bexI [of _ a]) simp_all
  have np: "num_proc ?d = n" using at(1) by (simp add: collecting_def)
  have o: "?o \<in> {1..n}" using mod_less_divisor [OF roomyD(3) [OF room(1)], of "unat s"] by simp
  have "xs ! (k - 1) \<le> clock_val (vector_clock ?d) (k - 1)" if "k \<in> set (dep_list ?d ?o)" for k
  proof -
    have "k - 1 < n" using dep_list_range [OF lcb(1) _ that] o np by auto
    then show ?thesis by (simp add: xs)
  qed
  note dep = this
  have one: "1 = clock_val (vector_clock ?d) (unat s mod n) + 1" by (simp add: zero)
  have "unat (of_nat ?o :: u32) = ?o" using o room(2) by (intro unat_of_nat_u32) auto
  then have fits: "event_fits (Deliver (of_nat ?o) 1)" using o room(2) by (simp add: fits_small_pid)
  from receive_copy [OF room(1) good_env_sel(1,4) full_writes_good at(1,2) aq(1) at(3) link lcb m(1,2) dep one fits,
      of "rcv_msg (st q)"]
  obtain d m' where d: "receiver_turn good_env ?d (Some bs) (rcv_msg (st q)) = ret (None, d, m')"
    "num_proc d = n \<and> self_pid d = q \<and> linked n s A (insert (mid_of n s a) M) d \<and> queue_ok (task_q d)"
    "\<exists>ts. queue_tasks (task_q d) = queue_tasks (task_q ?d) @ ts \<and> (K = {} \<longrightarrow> copy_tasks n s xs q ts)"
    "if n div 2 < card (insert q (insert a K))
       then s \<in> delivered_set d \<and> log_text (logdata d) = log_text (logdata ?d) @ deliver_line (of_nat ?o) 1
       else collecting n T s (insert q (insert a K)) d \<and> lcb_view d = lcb_view ?d" by blast
  have "step full_writes n st (st(q := (st q)\<lparr>pdata := d, rcv_msg := m'\<rparr>))"
    by (rule step.receive [where st = st and p = q and E = full_writes and e = good_env, OF aq(2) fly d(1) full_writes_good])
  from reachable_step [OF this] d(2-4) show ?thesis
    by (intro exI [of _ "(st q)\<lparr>pdata := d, rcv_msg := m'\<rparr>"]) (simp del: fun_upd_apply)
qed

text \<open>Every process that receives the copy of \<open>p\<close> first sends its own to all others.\<close>

lemma relays:
  assumes room: "roomy n T s" "n < 10" and p: "p \<in> {1..n}" "\<And>b. b \<in> {1..n} - {p} \<Longrightarrow> copy_sent n s (replicate n 0) p (A b) (st p)"
    and rs: "set rs \<subseteq> {1..n} - {p}" "distinct rs" "\<And>r. r \<in> set rs \<Longrightarrow> untouched n T s A r (st r)"
  shows "\<exists>st'. reachable full_writes n st st' \<and> (\<forall>b. b \<notin> set rs \<longrightarrow> st' b = st b)
    \<and> (\<forall>r \<in> set rs. \<forall>b \<in> {1..n} - {r}. copy_sent n s (replicate n 0) r (A b) (st' r))"
  using p(2) rs
proof (induction rs arbitrary: st)
  case Nil
  then show ?case by (intro exI [of _ st]) (simp add: reachable.start)
next
  case (Cons r rs)
  let ?xs = "replicate n (0 :: u32)"
  from Cons.prems have r: "r \<in> {1..n}" "r \<noteq> p" "r \<notin> set rs" and un: "untouched n T s A r (st r)" by auto
  have col: "collecting n T s {} (pdata (st r))" using untouched_collecting [OF un r(1)] room(2) by simp
  from un have u: "linked n s A {} (pdata (st r))" "lcb_ok (pdata (st r)) (replicate n [])"
    "\<And>i. clock_val (vector_clock (pdata (st r))) i = 0" "self_pid (pdata (st r)) = r"
    "queue_tasks (task_q (pdata (st r))) = []" "\<And>j. threads (st r) j = Idle"
    by (simp_all add: untouched_def fresh_def)
  have copy: "copy_sent n s ?xs p (A r) (st p)" using Cons.prems(1) [of r] r by simp
  have "concat (replicate n []) = ([] :: nat list)" by simp
  from receive_sent [where st = st, OF room p(1) r(1) copy col u(4) _ u(1,2) this u(3) refl] u(5) obtain x where
    x: "reachable full_writes n st (st(r := x))" "num_proc (pdata x) = n" "linked n s A {mid_of n s p} (pdata x)"
      "queue_ok (task_q (pdata x))" "threads x = threads (st r)" "copy_tasks n s ?xs r (queue_tasks (task_q (pdata x)))"
    by auto
  let ?st1 = "st(r := x)"
  have "num_proc (pdata (?st1 r)) = n" "linked n s A {mid_of n s p} (pdata (?st1 r))"
    "queue_ok (task_q (pdata (?st1 r)))" "copy_tasks n s ?xs r (queue_tasks (task_q (pdata (?st1 r))))"
    "\<And>j. threads (?st1 r) j = Idle" using x u(6) by simp_all
  from send_copies [where st = ?st1, OF r(1) room(2) this] obtain y where
    y: "reachable full_writes n ?st1 (st(r := y))" "\<forall>b \<in> {1..n} - {r}. copy_sent n s ?xs r (A b) y" by auto
  let ?st2 = "st(r := y)"
  have "copy_sent n s ?xs p (A b) (?st2 p)" if "b \<in> {1..n} - {p}" for b using Cons.prems(1) [OF that] r(2) by simp
  moreover have "untouched n T s A b (?st2 b)" if "b \<in> set rs" for b using Cons.prems(4) [of b] that r(3) by auto
  ultimately obtain st' where st': "reachable full_writes n ?st2 st'" "\<forall>b. b \<notin> set rs \<longrightarrow> st' b = ?st2 b"
    "\<forall>r \<in> set rs. \<forall>b \<in> {1..n} - {r}. copy_sent n s ?xs r (A b) (st' r)"
    using Cons.IH [of ?st2] Cons.prems(2,3) by (auto simp del: fun_upd_apply)
  have "reachable full_writes n st st'" by (rule reachable_trans [OF x(1) reachable_trans [OF y(1) st'(1)]])
  moreover have "st' r = y" using st'(2) r(3) by simp
  ultimately show ?case using st'(2,3) y(2) by (intro exI [of _ st']) auto
qed

section \<open>A majority\<close>

text \<open>
  Process \<open>q\<close> has counted the copies of \<open>K\<close>; copies of the processes \<open>as\<close> are on their way to
  it, and with them it has a majority. It receives them one after the other until it delivers.
\<close>

lemma collect:
  assumes room: "roomy n T s" "n < 10" and q: "q \<in> {1..n}"
    and as: "set as \<subseteq> {1..n} - {q}" "distinct as" "\<And>a. a \<in> set as \<Longrightarrow> mid_of n s a \<notin> M"
    and sent: "\<And>a. a \<in> set as \<Longrightarrow> copy_sent n s (replicate n 0) a (A q) (st a)"
    and at: "collecting n T s K (pdata (st q))" "self_pid (pdata (st q)) = q"
    and link: "linked n s A M (pdata (st q))" and lcb: "lcb_ok (pdata (st q)) ass" "concat ass = []"
    and zero: "\<And>i. clock_val (vector_clock (pdata (st q))) i = 0" and log: "log_text (logdata (pdata (st q))) = []"
    and few: "\<not> n div 2 < card (insert q K)" and many: "n div 2 < card (insert q (K \<union> set as))"
  shows "\<exists>st'. reachable full_writes n st st' \<and> s \<in> delivered_set (pdata (st' q))
    \<and> log_text (logdata (pdata (st' q))) = deliver_line (of_nat (unat s mod n + 1)) 1"
  using as sent at link lcb(1) zero log few many
proof (induction as arbitrary: K M st)
  case Nil
  then show ?case by simp
next
  case (Cons a as)
  have a: "a \<in> {1..n}" "a \<noteq> q" "a \<notin> set as" "mid_of n s a \<notin> M" using Cons.prems(1-3) by auto
  have copy: "copy_sent n s (replicate n 0) a (A q) (st a)" using Cons.prems(4) by simp
  from receive_sent [where st = st, OF room a(1) q copy Cons.prems(5,6) a(4) Cons.prems(7,8) lcb(2) Cons.prems(9) refl]
  obtain x where x: "reachable full_writes n st (st(q := x))" "self_pid (pdata x) = q"
    "linked n s A (insert (mid_of n s a) M) (pdata x)"
    "if n div 2 < card (insert q (insert a K))
       then s \<in> delivered_set (pdata x) \<and> log_text (logdata (pdata x)) = log_text (logdata (pdata (st q)))
           @ deliver_line (of_nat (unat s mod n + 1)) 1
       else collecting n T s (insert q (insert a K)) (pdata x) \<and> lcb_view (pdata x) = lcb_view (pdata (st q))" by blast
  let ?K = "insert q (insert a K)" and ?st = "st(q := x)"
  show ?case
  proof (cases "n div 2 < card ?K")
    case True
    with x(1,4) Cons.prems(10) show ?thesis
      by (intro exI [of _ ?st]) (simp del: fun_upd_apply add: fun_upd_same)
  next
    case False
    with x(4) have at': "collecting n T s ?K (pdata (?st q))" and view: "lcb_view (pdata x) = lcb_view (pdata (st q))" by simp_all
    from view have same: "vector_clock (pdata x) = vector_clock (pdata (st q))" "logdata (pdata x) = logdata (pdata (st q))"
      by (simp_all add: lcb_view_def)
    have "mid_of n s b \<notin> insert (mid_of n s a) M" if b: "b \<in> set as" for b
    proof -
      have "b \<in> {1..n}" "b \<noteq> a" using b Cons.prems(1) a(3) by auto
      with mid_of_eq [OF room(1) _ a(1), of b] Cons.prems(3) [of b] b show ?thesis by simp
    qed
    moreover have "copy_sent n s (replicate n 0) b (A q) (?st b)" if b: "b \<in> set as" for b
      using b Cons.prems(1) Cons.prems(4) [of b] by auto
    moreover have "insert q (?K \<union> set as) = insert q (K \<union> set (a # as))" "insert q ?K = ?K" by auto
    moreover have "set as \<subseteq> {1..n} - {q}" "distinct as" using Cons.prems(1,2) by simp_all
    moreover have "linked n s A (insert (mid_of n s a) M) (pdata (?st q))" "self_pid (pdata (?st q)) = q" using x(2,3) by simp_all
    moreover have "lcb_ok (pdata (?st q)) ass" using lcb_ok_view [OF view, of ass] Cons.prems(8) by simp
    moreover have "\<And>i. clock_val (vector_clock (pdata (?st q))) i = 0" "log_text (logdata (pdata (?st q))) = []"
      using same Cons.prems(9,10) by simp_all
    ultimately obtain st' where "reachable full_writes n ?st st'" "s \<in> delivered_set (pdata (st' q))"
      "log_text (logdata (pdata (st' q))) = deliver_line (of_nat (unat s mod n + 1)) 1"
      using Cons.IH [of "insert (mid_of n s a) M" ?st ?K, OF _ _ _ _ at'] Cons.prems(12) False by metis
    with reachable_trans [OF x(1)] show ?thesis by blast
  qed
qed

lemma first_delivered:
  assumes room: "roomy n T s" "n < 10" "2 \<le> n" and s: "s = of_nat (p - 1)" and pq: "p \<in> {1..n}" "q \<in> {1..n}" "p \<noteq> q"
    and st: "\<And>r. r \<in> {1..n} \<Longrightarrow> untouched n T s A r (st r)" and msg: "sent (st p) < num_msg (pdata (st p))" "sent (st p) = 0"
  shows "\<exists>st'. reachable full_writes n st st' \<and> s \<in> delivered_set (pdata (st' q))
    \<and> log_text (logdata (pdata (st' q))) = deliver_line (of_nat p) 1"
proof -
  let ?xs = "replicate n (0 :: u32)"
  have us: "unat s = p - 1"
  proof -
    have "p - 1 < 2 ^ 32" using pq(1) room(2) by auto
    from unat_of_nat_u32 [OF this] show ?thesis by (simp only: s)
  qed
  moreover have "p - 1 < n" using pq(1) by auto
  ultimately have o: "unat s mod n + 1 = p" using pq(1) by simp
  from st [OF pq(1)] have u: "fresh n p T (pdata (st p))" "lcb_ok (pdata (st p)) (replicate n [])"
    "\<And>i. clock_val (vector_clock (pdata (st p))) i = 0" "linked n s A {} (pdata (st p))" "\<And>j. threads (st p) j = Idle"
    by (simp_all add: untouched_def)
  from first_broadcast [OF room(1) s pq(1) good_env_sel(1) full_writes_good u(1-4), of "bcast_msg (st p)"] obtain d l where
    d: "send_lcb_round good_env (pdata (st p)) (bcast_msg (st p)) 1 = ret (0, l, d)" "num_proc d = n" "linked n s A {} d"
      "queue_ok (task_q d)" "copy_tasks n s ?xs p (queue_tasks (task_q d))" by blast
  let ?st1 = "st(p := (st p)\<lparr>pdata := d, bcast_msg := l, sent := sent (st p) + 1\<rparr>)"
  have s1: "step full_writes n st ?st1"
    using d(1) msg(2) by (intro step.broadcast [where st = st and e = good_env, OF pq(1) msg(1)]) simp_all
  have "num_proc (pdata (?st1 p)) = n" "linked n s A {} (pdata (?st1 p))" "queue_ok (task_q (pdata (?st1 p)))"
    "copy_tasks n s ?xs p (queue_tasks (task_q (pdata (?st1 p))))" "\<And>j. threads (?st1 p) j = Idle" using d u(5) by simp_all
  from send_copies [where st = ?st1, OF pq(1) room(2) this] obtain x where
    x: "reachable full_writes n ?st1 (?st1(p := x))" "\<forall>b \<in> {1..n} - {p}. copy_sent n s ?xs p (A b) x" by blast
  let ?st2 = "?st1(p := x)"
  obtain rs where rs: "set rs = {1..n} - {p, q}" "distinct rs"
    using finite_distinct_list [of "{1..n} - {p, q}"] by auto
  have sub: "set rs \<subseteq> {1..n} - {p}" using rs(1) by auto
  have un: "untouched n T s A r (?st2 r)" if "r \<in> set rs" for r
    using st [of r] subsetD [OF sub that] by simp
  have sent_p: "copy_sent n s ?xs p (A b) (?st2 p)" if "b \<in> {1..n} - {p}" for b using x(2) that by simp
  from relays [where st = ?st2 and A = A, OF room(1,2) pq(1) sent_p sub rs(2) un] obtain st3 where
    st3: "reachable full_writes n ?st2 st3" "\<forall>b. b \<notin> set rs \<longrightarrow> st3 b = ?st2 b"
      "\<forall>r \<in> set rs. \<forall>b \<in> {1..n} - {r}. copy_sent n s ?xs r (A b) (st3 r)" by blast
  have "q \<notin> set rs" "p \<notin> set rs" using rs(1) by auto
  with st3(2) pq(3) have same: "st3 q = st q" "st3 p = x" by simp_all
  from st [OF pq(2)] have w: "lcb_ok (pdata (st3 q)) (replicate n [])" "\<And>i. clock_val (vector_clock (pdata (st3 q))) i = 0"
    "linked n s A {} (pdata (st3 q))" "log_text (logdata (pdata (st3 q))) = []" "self_pid (pdata (st3 q)) = q"
    unfolding same by (simp_all add: untouched_def fresh_def)
  have col: "collecting n T s {} (pdata (st3 q))"
    using untouched_collecting [OF st [OF pq(2)] pq(2)] room(2) by (simp add: same)
  let ?as = "p # rs"
  have "set ?as = insert p ({1..n} - {p, q})" using rs(1) by simp
  also have "\<dots> = {1..n} - {q}" using pq by blast
  finally have as: "set ?as = {1..n} - {q}" "distinct ?as" using rs \<open>p \<notin> set rs\<close> by simp_all
  have sent: "copy_sent n s ?xs a (A q) (st3 a)" if "a \<in> set ?as" for a
  proof (cases "a = p")
    case True
    with x(2) pq show ?thesis by (simp add: same)
  next
    case False
    with that as(1) have "a \<in> set rs" "q \<in> {1..n} - {a}" using pq(2) by auto
    with st3(3) show ?thesis by blast
  qed
  have "insert q ({} \<union> set ?as) = insert q ({1..n} - {q})" by (simp only: as(1) Un_empty_left)
  also have "\<dots> = {1..n}" using pq(2) by blast
  finally have many: "n div 2 < card (insert q ({} \<union> set ?as))" using room(3) by (simp only: card_atLeastAtMost)
  have few: "\<not> n div 2 < card (insert q {})" using room(3) by simp
  have "concat (replicate n []) = ([] :: nat list)" by simp
  note none = this
  have sub': "set ?as \<subseteq> {1..n} - {q}" by (simp only: as(1) order.refl)
  have new: "mid_of n s a \<notin> {}" for a by simp
  from collect [where st = st3, OF room(1,2) pq(2) sub' as(2) new sent col w(5,3,1) none w(2,4) few many]
  obtain st' where "reachable full_writes n st3 st'" "s \<in> delivered_set (pdata (st' q))"
    "log_text (logdata (pdata (st' q))) = deliver_line (of_nat p) 1" unfolding o by blast
  moreover have "reachable full_writes n st st3"
    by (rule reachable_trans [OF reachable_step [OF s1] reachable_trans [OF x(1) st3(1)]])
  ultimately show ?thesis using reachable_trans by blast
qed

section \<open>From the command line to the log\<close>

lemma booted_untouched:
  assumes "config_ok aton addrs rows" "\<forall>row \<in> set rows. set row \<subseteq> {1..n}" "n = length addrs" "n < 10"
    and "booted aton addrs rows ms st0" and p: "p \<in> {1..n}" and r: "r \<in> {1..n}"
  shows "untouched n (tables_size n) (of_nat (p - 1)) (\<lambda>i. entry_of aton (addrs ! (i - 1))) r (st0 r)"
proof -
  let ?A = "\<lambda>i. entry_of aton (addrs ! (i - 1))" and ?d = "pdata (st0 r)"
  note boot = booted_initial [OF assms(1-5)]
  have "p - 1 < 2 ^ 32" using p assms(4) by auto
  then have us: "unat (of_nat (p - 1) :: u32) = p - 1" by (rule unat_of_nat_u32)
  have "n * (p - 1) + n = n * p" using p by (cases p) auto
  also have "\<dots> \<le> n * (150 * n)" using p by (intro mult_le_mono2) auto
  finally have "linked n (of_nat (p - 1)) ?A {} ?d"
    using boot(4) [OF r] us by (simp add: linked_def link_fresh_def tables_empty_def)
  with boot(1) boot(3) [OF r] r show ?thesis
    by (simp add: untouched_def initial_def log_fresh_def)
qed

lemma booted_first_delivered:
  assumes "config_ok aton addrs rows" "\<forall>row \<in> set rows. set row \<subseteq> {1..n}" "n = length addrs" "n < 10"
    and "booted aton addrs rows ms st0" and pq: "p \<in> {1..n}" "q \<in> {1..n}" "p \<noteq> q"
  shows "\<exists>st. reachable full_writes n st0 st \<and> of_nat (p - 1) \<in> delivered_set (pdata (st q))
    \<and> log_text (logdata (pdata (st q))) = deliver_line (of_nat p) 1"
proof -
  let ?s = "of_nat (p - 1) :: u32"
  note boot = booted_initial [OF assms(1-5)]
  have n2: "2 \<le> n" using pq by auto
  have "n * (150 * n + 1) \<le> 9 * (150 * 9 + 1)" using assms(4) by (intro mult_le_mono) auto
  then have small: "n * (150 * n + 1) < 2 ^ 32" by simp
  have T: "unat (tables_size n) = 150 * n" "sizes n (tables_size n)"
    using unat_tables_size(2,4) [OF small] n2 by simp_all
  have "p - 1 < 2 ^ 32" using pq(1) assms(4) by auto
  then have us: "unat ?s = p - 1" by (rule unat_of_nat_u32)
  have "n * p \<le> 9 * 9" using pq(1) assms(4) by (intro mult_le_mono) auto
  with us T pq(1) have room: "roomy n (tables_size n) ?s" by (auto simp: roomy_def)
  have job: "sent (st0 p) = 0" "sent (st0 p) < num_msg (pdata (st0 p))"
    using boot(1) boot(2) [OF pq(1)] assms(5) pq(1) unfolding booted_def assms(3) [symmetric]
    by (auto simp: initial_def job_ok_def)
  show ?thesis
    by (rule first_delivered [OF room assms(4) n2 refl pq booted_untouched [OF assms(1-5) pq(1)] job(2,1)])
qed

text \<open>C11: messages get through. Start 2 to 9 processes with the same well-formed membership file.
  Then for any two processes \<open>p\<close> and \<open>q\<close> there is a run of the system, in which no
  call fails and enough datagrams arrive, such that \<open>q\<close> delivers the first message of \<open>p\<close>, and its log then
  contains exactly the line of that delivery.\<close>

theorem first_message_delivered:
  assumes "config_ok aton addrs rows" "\<forall>row \<in> set rows. set row \<subseteq> {1..n}" "n = length addrs" "n < 10"
    and "booted aton addrs rows ms st0" and "p \<in> {1..n}" "q \<in> {1..n}" "p \<noteq> q"
  shows "\<exists>st. reachable full_writes n st0 st \<and> of_nat (p - 1) \<in> delivered_set (pdata (st q))
    \<and> log_text (logdata (pdata (st q))) = deliver_line (of_nat p) 1"
  by (rule booted_first_delivered [OF assms])

lemma pair_side: "\<forall>row \<in> set [[2], []]. set row \<subseteq> {1..2 :: nat}" "2 = length pair_addrs" "(2 :: nat) < 10"
  "1 \<in> {1..2 :: nat}" "2 \<in> {1..2 :: nat}" "(1 :: nat) \<noteq> 2"
  by simp_all

theorem first_message_delivered_witness:
  "\<exists>st. reachable full_writes 2 pair_system st \<and> log_text (logdata (pdata (st 2))) = ''d 1 1'' @ [newline]"
proof -
  have "deliver_line (of_nat 1) 1 = ''d 1 1'' @ [newline]" by code_simp
  with first_message_delivered [OF pair_config pair_side(1-3) pair_booted pair_side(4-6)] show ?thesis by auto
qed

text \<open>The guarantees for booted systems, in a state where process 2 has delivered message 0.\<close>

theorem booted_system_safe_witness:
  "\<exists>st :: system. 0 \<in> delivered_set (pdata (st 2)) \<and> delivered_set (pdata (st 2)) \<subseteq>
    {s. unat s mod 2 + 1 \<in> {1..2} \<and> unat s div 2 + 1 \<le> 1
      \<and> 2 div 2 < card {q \<in> {1..2}. s \<in> seen_set (pdata (st q))}}"
proof -
  from booted_first_delivered [OF pair_config pair_side(1-3) pair_booted pair_side(4-6)] obtain st where
    st: "reachable full_writes 2 pair_system st" "0 \<in> delivered_set (pdata (st 2))" by auto
  from booted_system_safe [OF pair_config pair_side(1-3) pair_booted st(1) pair_side(5)] st(2) show ?thesis by blast
qed

theorem booted_logs_witness:
  "\<exists>(st :: system) evs k. 0 \<in> delivered_set (pdata (st 2)) \<and> log_text (logdata (pdata (st 2))) = concat (map event_line evs)
     \<and> k \<le> 1 \<and> delivered_numbers (of_nat 1) evs = map of_nat [1..<k + 1]"
proof -
  from booted_first_delivered [OF pair_config pair_side(1-3) pair_booted pair_side(4-6)] obtain st where
    st: "reachable full_writes 2 pair_system st" "0 \<in> delivered_set (pdata (st 2))" by auto
  from booted_logs [OF pair_config pair_side(1-3) pair_booted st(1) pair_side(5)] obtain evs where
    evs: "log_text (logdata (pdata (st 2))) = concat (map event_line evs)"
    "\<forall>q \<in> {1..2}. \<exists>k \<le> 1. delivered_numbers (of_nat q) evs = map of_nat [1..<k + 1]" by blast
  from bspec [OF evs(2) pair_side(4)] evs(1) st(2) show ?thesis by blast
qed

end
