(* ===== verification/Spec2Isabelle.thy ===== *)
theory Spec2Isabelle
  imports SystemRun Liveness
begin

text \<open>
  A verification library for \<open>da_proc\<close>, a process that broadcasts messages to a fixed group of
  processes by localized causal broadcast over UDP.

  \<^bold>\<open>The program.\<close> A process is started with its id, a membership file and a number of messages
  (src/da\_proc.c, src/parser.c). Its main thread sets up the shared data, waits for SIGUSR2 and
  broadcasts (\<open>send_lcb\<close>, src/lcb.c). A broadcast goes down through uniform reliable broadcast
  (src/urb.c) and best-effort broadcast (src/beb.c) into a queue of send tasks (src/mqueue.c). Ten
  sender threads (src/sender.c) take tasks and send each as a datagram over the perfect link
  (src/plink.c, src/flink.c, src/layerzero.c), again and again until an acknowledgement is
  recorded or the task goes back into the queue. The receiver thread (src/receiver.c) takes
  datagrams and hands them up the same layers: perfect link (acknowledge, drop duplicates), uniform
  reliable broadcast (relay what is new, deliver what a majority has), localized causal
  broadcast (src/lcb.c, src/pending.c: deliver when the vector clock meets the dependencies of
  src/dependencies.c, else keep pending), log (src/log.c). SIGTERM flushes the log and exits.

  \<^bold>\<open>Conventions.\<close> A function of the C code is a HOL function of the same name over explicit
  state; its result \<open>'a run\<close> (Prelude) is a value, undefined behaviour, or no return at all. A
  struct is a record, a block of memory behind a pointer is null, dangling or an array with a
  length, \<open>unsigned int\<close> is a 32 bit word. Return codes keep the values of include/error.h.
  Loops that may not end are \<open>partial_function (option)\<close>; there is no fuel. What the C
  library and the kernel decide (allocation, contents of fresh memory, success of a system
  call, how much \<open>fwrite\<close> writes) is the record \<open>env\<close>, over which the theorems quantify.

  \<^bold>\<open>Theories.\<close>
  \<^item> Prelude: results, pointers, error codes, \<open>env\<close>, the collection \<open>effects\<close> of facts about what
    a call that returns has done. Stores: the interfaces of tables and queues as locales
    (\<open>indexed_store\<close>, \<open>flag_store\<close>, \<open>word_store\<close>, \<open>fifo_queue\<close>), interpreted by the theories of the
    components on the code's own definitions.
  \<^item> AddrBook, Data (include/data.h), UidTable and PlinkTables (tables of src/plink.c), UrbTable and
    UrbAcks (tables of src/urb.c), MQueue, Log, VecClock, VecList and Lcb (src/pending.c and the
    delivery side of src/lcb.c, with an explicit heap for the doubly linked lists),
    Dependencies, Wire (the bytes of a datagram, src/layerzero.c): the components below the
    protocol, each with its representation invariant and the functional behaviour of each
    operation, failures included.
  \<^item> Layers: the handlers of the protocol, one turn of the receiver loop and one round of a
    sender thread, and the thread functions \<open>receiver_f\<close> and \<open>sender_f\<close> over any number of turns, with
    the refusal of asynchronous cancellation at their start.
  \<^item> Parser, DaProc: the command line and the membership file, start-up, signals, shutdown and
    \<open>main\<close>. A \<open>pthread_t\<close> handle is the number of the \<open>pthread_create\<close> call that set it, or none;
    cancelling or joining through a handle that names no thread is undefined. \<open>main\<close> takes as
    arguments what the other threads do after \<open>init_data\<close>, and after \<open>free_data\<close> when the start has
    failed, since nothing stops them there. Fifo: the FIFO layer of src/fifo.c and the stub of src/causal.c, which the Makefile does
    not link.
  \<^item> LinkSpec, LcbSpec: what the link layers and the delivery side of causal broadcast do.
    Effects: which parts of the state a layer can change. UrbSpec, LinkInv, Delivery: the
    invariant of uniform reliable broadcast through all layers, that a message is delivered
    at most once, that every data message is acknowledged, and how the threads end.
  \<^item> System: \<open>n\<close> processes and a network that loses, repeats and reorders datagrams, as a step
    relation whose steps are the turns of the threads, with reachability and the invariant
    \<open>sys_inv\<close> by rule induction. UrbAbstract: an abstract transition system for uniform reliable
    broadcast and the proof that the system refines it. LogInv: what the logs of the processes say.
    Accounting: every message delivered by uniform reliable broadcast is counted in the clock or pending.
    Causal: causal delivery, with the vector clock of every message in flight traced back to the
    state in which its sender broadcast it (the parameter \<open>R\<close> of the invariant in UrbSpec).
    Boot: from the command line to these guarantees. Progress and Liveness: what the handlers do
    when nothing fails, and a run from every start to every first delivery. SystemRun: a concrete run of three
    processes; Sample: an example state.

  \<^bold>\<open>What is shown.\<close> Safety of the protocol in every reachable state (a delivered message has been
  broadcast and is held by a majority, nothing is delivered twice, every turn is a sequence
  of abstract steps, a message is delivered only after the deliveries of its dependencies that its
  sender had seen), also for systems started from the command line; that messages get
  through: any first message can reach any process; what the output contains; the contract of each table, of the queue (a list, first in first out), of
  the linked lists, of the log buffer; round trips of the datagram format and of the membership
  file; termination of the growth loops; the behaviour at the bounds and on errors. Where the
  code fails its purpose the theorems say so, with the exact condition.

  \<^bold>\<open>Bounds.\<close> Identifiers are computed with 32 bits; \<open>sizes\<close> is the condition under which they do not
  wrap around. Tables end at 8192 (\<open>MAX_SIZE\<close>), after which a write fails with ERROR\_TABLE and the
  process exits. Safety does not depend on it: a process that exits takes no more steps.
  Systems started from the command line have at most 9 processes, since the log file name of
  process 10 overflows; their copies of one message fit the ten sender threads.

  \<^bold>\<open>Not modelled.\<close> The interleaving inside one turn of a thread: a turn is atomic. The mutexes of
  the queue, of the acknowledgement table, of the clock and of the log make the calls
  they guard atomic in the code as well; the table of seen messages and the counting of
  acknowledgements are shared by the main and the receiver thread without a lock, and
  interleavings of two such calls are outside the model. A turn that ends the process is
  no step of the system, so the datagram of an acknowledgement sent before the failing call of
  the same turn is not in the network of the model. A thread that ends takes no more steps; one
  that is refused asynchronous cancellation takes none. Signals arrive before, between or after
  the phases of \<open>main\<close>, and their handlers run on the main thread; a signal in the middle of a call of
  the C library is outside the model. When a start fails, the other threads act before and after
  \<open>free_data\<close>, not in the middle of it. The array of sender threads, the sockets and the dependency
  structure are never released by the code, and nothing is said about what the kernel reclaims. The test programs under test/ and the design sketches are not part of the
  process. Code of the C library is modelled where the program uses it (\<open>strtok\<close>, \<open>atoi\<close>,
  \<open>fgets\<close>, \<open>sprintf\<close>, \<open>realloc\<close>, \<open>memset\<close>); \<open>inet_aton\<close> is a parameter.
\<close>

end
